(* ===== verification/Prelude.thy ===== *)
theory Prelude
  imports Main "HOL-Library.AList" "HOL-Library.Word"
begin

text \<open>
  Shared vocabulary of the development: Python exceptions as values of a sum type, loops that
  may raise, insertion-ordered dictionaries, slices, integer division, and the generic lemmas on
  them that the component theories use.
\<close>

type_synonym byte = "8 word"

named_theorems res_simps \<open>equations of the exception monad\<close>

section \<open>Exceptions as values\<close>

text \<open>
  A Python function that may raise returns \<open>Inl e\<close> for the exception and \<open>Inr x\<close> for a
  returned value. \<open>assert\<close> statements are \<open>AssertionError\<close> values.
\<close>

datatype py_error =
    AssertionError
  | ValueError
  | RuntimeError
  | IndexError
  | KeyError
  | OverflowError
  | StopIteration
  | ZeroDivisionError
  | NotImplementedError

type_synonym 'a res = "py_error + 'a"

definition bind_res :: "'a res \<Rightarrow> ('a \<Rightarrow> 'b res) \<Rightarrow> 'b res" where
  "bind_res m f = (case m of Inl e \<Rightarrow> Inl e | Inr x \<Rightarrow> f x)"

definition py_assert :: "bool \<Rightarrow> unit res" where
  "py_assert b = (if b then Inr () else Inl AssertionError)"

text \<open>A \<open>for\<close> loop whose body threads a state and may raise.\<close>

fun fold_res :: "('a \<Rightarrow> 's \<Rightarrow> 's res) \<Rightarrow> 'a list \<Rightarrow> 's \<Rightarrow> 's res" where
  "fold_res f [] s = Inr s"
| "fold_res f (x # xs) s = bind_res (f x s) (fold_res f xs)"

lemma bind_res_Inl [simp, res_simps]: "bind_res (Inl e) f = Inl e"
  by (simp add: bind_res_def)

lemma bind_res_Inr [simp, res_simps]: "bind_res (Inr x) f = f x"
  by (simp add: bind_res_def)

lemma bind_res_assoc: "bind_res (bind_res m f) g = bind_res m (\<lambda>x. bind_res (f x) g)"
  by (simp add: bind_res_def split: sum.splits)

lemma bind_res_eq_Inr [res_simps]: "bind_res m f = Inr y \<longleftrightarrow> (\<exists>x. m = Inr x \<and> f x = Inr y)"
  by (cases m) auto

lemma bind_res_eq_Inl:
  "bind_res m f = Inl e \<longleftrightarrow> m = Inl e \<or> (\<exists>x. m = Inr x \<and> f x = Inl e)"
  by (cases m) auto

lemma py_assert_True [simp]: "py_assert True = Inr ()"
  by (simp add: py_assert_def)

lemma py_assert_False [simp]: "py_assert False = Inl AssertionError"
  by (simp add: py_assert_def)

lemma py_assert_eq_Inr [simp, res_simps]: "py_assert b = Inr u \<longleftrightarrow> b"
  by (simp add: py_assert_def)

lemma bind_assert [simp]:
  "bind_res (py_assert b) f = (if b then f () else Inl AssertionError)"
  by (simp add: py_assert_def)

lemma bind_fold_res_Nil [simp]: "bind_res m (fold_res f []) = m"
  by (simp add: bind_res_def split: sum.splits)

lemma fold_res_append [simp]:
  "fold_res f (xs @ ys) s = bind_res (fold_res f xs s) (fold_res f ys)"
proof (induction xs arbitrary: s)
  case Nil
  then show ?case by simp
next
  case (Cons x xs)
  then show ?case by (cases "f x s") simp_all
qed

text \<open>The loop rule: an invariant the body keeps holds of the final state.\<close>

lemma fold_res_invariant:
  assumes "fold_res f xs s = Inr t" and "I s"
    and "\<And>x s t. x \<in> set xs \<Longrightarrow> I s \<Longrightarrow> f x s = Inr t \<Longrightarrow> I t"
  shows "I t"
  using assms
proof (induction xs arbitrary: s)
  case Nil
  then show ?case by simp
next
  case (Cons x xs)
  from Cons.prems(1) obtain u where u: "f x s = Inr u" and rest: "fold_res f xs u = Inr t"
    by (auto simp: res_simps)
  have "I u" by (rule Cons.prems(3) [of x s u]) (use Cons.prems(2) u in auto)
  then show ?case
    by (rule Cons.IH [OF rest]) (use Cons.prems(3) in auto)
qed

text \<open>A loop whose body never raises under the invariant does not raise.\<close>

lemma fold_res_total:
  assumes "I s"
    and "\<And>x s. x \<in> set xs \<Longrightarrow> I s \<Longrightarrow> \<exists>t. f x s = Inr t \<and> I t"
  shows "\<exists>t. fold_res f xs s = Inr t \<and> I t"
  using assms
proof (induction xs arbitrary: s)
  case Nil
  then show ?case by simp
next
  case (Cons x xs)
  from Cons.prems obtain u where u: "f x s = Inr u" and "I u"
    by (metis list.set_intros(1))
  from \<open>I u\<close> have "\<exists>t. fold_res f xs u = Inr t \<and> I t"
    by (rule Cons.IH) (use Cons.prems(2) in auto)
  with u show ?case by simp
qed

text \<open>A loop whose body never raises is a fold of the pure body.\<close>

lemma fold_res_Inr:
  assumes "\<And>x s. x \<in> set xs \<Longrightarrow> f x s = Inr (g x s)"
  shows "fold_res f xs s = Inr (fold g xs s)"
  using assms by (induction xs arbitrary: s) simp_all

text \<open>A comprehension whose element expression may raise.\<close>

fun map_res :: "('a \<Rightarrow> 'b res) \<Rightarrow> 'a list \<Rightarrow> 'b list res" where
  "map_res f [] = Inr []"
| "map_res f (x # xs) = bind_res (f x) (\<lambda>y. bind_res (map_res f xs) (\<lambda>ys. Inr (y # ys)))"

lemma map_res_eq_Inr [res_simps]: "map_res f xs = Inr ys \<longleftrightarrow> list_all2 (\<lambda>x y. f x = Inr y) xs ys"
  by (induction xs arbitrary: ys) (auto simp: bind_res_eq_Inr list_all2_Cons1)

lemma map_res_Inr: "(\<And>x. x \<in> set xs \<Longrightarrow> f x = Inr (g x)) \<Longrightarrow> map_res f xs = Inr (map g xs)"
  by (induction xs) simp_all

lemma map_res_map: "map_res f (map g xs) = map_res (\<lambda>x. f (g x)) xs"
  by (induction xs) simp_all

lemma map_res_cong [fundef_cong]:
  "xs = ys \<Longrightarrow> (\<And>x. x \<in> set ys \<Longrightarrow> f x = g x) \<Longrightarrow> map_res f xs = map_res g ys"
proof (induction xs arbitrary: ys)
  case Nil
  then show ?case by simp
next
  case (Cons x xs)
  have "map_res f xs = map_res g xs" by (rule Cons.IH) (use Cons.prems in auto)
  with Cons.prems show ?case by auto
qed

section \<open>Dictionaries, slices and integer arithmetic\<close>

text \<open>
  A \<open>dict\<close> keeps its keys in insertion order: assigning to a present key leaves it where it is,
  a new key goes to the end. \<open>AList.update\<close> and \<open>AList.delete\<close> do exactly this.
\<close>

type_synonym ('k, 'v) dict = "('k \<times> 'v) list"

abbreviation dict_get :: "('k, 'v) dict \<Rightarrow> 'k \<Rightarrow> 'v option" where
  "dict_get d k \<equiv> map_of d k"

abbreviation dict_set :: "'k \<Rightarrow> 'v \<Rightarrow> ('k, 'v) dict \<Rightarrow> ('k, 'v) dict" where
  "dict_set k v d \<equiv> AList.update k v d"

abbreviation dict_del :: "'k \<Rightarrow> ('k, 'v) dict \<Rightarrow> ('k, 'v) dict" where
  "dict_del k d \<equiv> AList.delete k d"

abbreviation dict_keys :: "('k, 'v) dict \<Rightarrow> 'k list" where
  "dict_keys d \<equiv> map fst d"

abbreviation dict_ok :: "('k, 'v) dict \<Rightarrow> bool" where
  "dict_ok d \<equiv> distinct (map fst d)"

lemma dict_get_set [simp]:
  "map_of (AList.update k v d) k' = (if k' = k then Some v else map_of d k')"
  by (simp add: update_conv')

lemma dict_get_del [simp]:
  "map_of (AList.delete k d) k' = (if k' = k then None else map_of d k')"
  by (simp add: delete_conv')

lemma dict_ok_set [simp]: "dict_ok d \<Longrightarrow> dict_ok (AList.update k v d)"
  by (rule distinct_update)

lemma dict_ok_del [simp]: "dict_ok d \<Longrightarrow> dict_ok (AList.delete k d)"
  by (rule distinct_delete)

lemma dict_keys_set [simp]: "set (map fst (AList.update k v d)) = insert k (set (map fst d))"
  by (induction d) auto

lemma fst_set_update [simp]: "fst ` set (AList.update k v d) = insert k (fst ` set d)"
  using dict_keys_set [of k v d] by simp

lemma fst_set_delete [simp]: "fst ` set (AList.delete k d) = fst ` set d - {k}"
  by (induction d) auto

lemma dict_get_None_iff: "map_of d k = None \<longleftrightarrow> k \<notin> fst ` set d"
  by (rule map_of_eq_None_iff)

lemma length_concat_uniform:
  "\<forall>xs \<in> set xss. length xs = n \<Longrightarrow> length (concat xss) = length xss * n"
  by (induction xss) simp_all

text \<open>\<open>xs[a:b]\<close> for bounds that are not negative.\<close>

definition py_slice :: "'a list \<Rightarrow> nat \<Rightarrow> nat \<Rightarrow> 'a list" where
  "py_slice xs a b = take (b - a) (drop a xs)"

lemma length_py_slice [simp]: "length (py_slice xs a b) = min b (length xs) - a"
  by (auto simp: py_slice_def min_def)

lemma nth_py_slice [simp]: "i < length (py_slice xs a b) \<Longrightarrow> py_slice xs a b ! i = xs ! (a + i)"
  by (auto simp: py_slice_def intro!: nth_drop)

lemma set_py_slice_subset: "set (py_slice xs a b) \<subseteq> set xs"
  unfolding py_slice_def by (meson order_trans set_drop_subset set_take_subset)

text \<open>\<open>cdiv\<close> of \<^verbatim>\<open>vllm/utils/math_utils.py\<close>: ceiling division by way of Python's floor division.\<close>

definition cdiv :: "int \<Rightarrow> int \<Rightarrow> int" where
  "cdiv a b = - (a div (- b))"

lemma cdiv_alt: "0 < b \<Longrightarrow> cdiv a b = (a + b - 1) div b"
proof -
  assume b: "0 < b"
  have "a div (- b) = (- a) div b"
    using b by (metis div_minus_right)
  moreover have "- ((- a) div b) = (a + b - 1) div b"
  proof -
    let ?q = "(- a) div b" and ?r = "(- a) mod b"
    have a: "a = - (?q * b + ?r)" by (metis add.inverse_inverse div_mult_mod_eq)
    have r: "0 \<le> ?r" "?r < b" using b by simp_all
    have "a + b - 1 = b * (- ?q) + (b - 1 - ?r)" using a by (simp add: algebra_simps)
    moreover have "0 \<le> b - 1 - ?r" "b - 1 - ?r < b" using r by simp_all
    ultimately have "(a + b - 1) div b = - ?q"
      by (metis add.right_neutral b div_mult_self4 div_pos_pos_trivial less_irrefl add.commute)
    then show ?thesis by simp
  qed
  ultimately show ?thesis by (simp add: cdiv_def)
qed

lemma cdiv_upper:
  assumes b: "0 < b"
  shows "a \<le> cdiv a b * b"
  using div_mult_mod_eq [of "a + b - 1" b] pos_mod_bound [OF b, of "a + b - 1"]
  unfolding cdiv_alt [OF b] by linarith

lemma cdiv_lower:
  assumes b: "0 < b"
  shows "cdiv a b * b < a + b"
  using div_mult_mod_eq [of "a + b - 1" b] pos_mod_sign [OF b, of "a + b - 1"]
  unfolding cdiv_alt [OF b] by linarith

lemma cdiv_exact: "0 < b \<Longrightarrow> b dvd a \<Longrightarrow> cdiv a b = a div b"
  by (simp add: cdiv_def div_minus_right dvd_neg_div)

lemma mult_le_iff_le_div:
  fixes a b k :: int
  assumes k: "0 < k"
  shows "a * k \<le> b \<longleftrightarrow> a \<le> b div k"
proof
  assume "a * k \<le> b"
  then have "(a * k) div k \<le> b div k" using k by (rule zdiv_mono1)
  then show "a \<le> b div k" using k by simp
next
  assume "a \<le> b div k"
  then have "a * k \<le> b div k * k" using k by (simp add: mult_right_mono)
  also have "\<dots> \<le> b" using div_mult_mod_eq [of b k] pos_mod_sign [OF k, of b] by linarith
  finally show "a * k \<le> b" .
qed

end
