(* ===== verification/KVarN_Config.thy ===== *)
theory KVarN_Config
  imports Complex_Main Prelude
begin

text \<open>
  KVarN's configuration (\<^verbatim>\<open>vllm/model_executor/layers/quantization/kvarn/config.py\<close>), the page
  arithmetic of attention specs (\<^verbatim>\<open>vllm/v1/kv_cache_interface.py\<close>) and the backend hooks that join
  them (\<^verbatim>\<open>KVarNAttentionBackend\<close> of \<^verbatim>\<open>vllm/v1/attention/backends/kvarn_attn.py\<close>): the byte layout
  of one packed tile, the size of the fp16 tail pool, and the concurrency cap that keeps the pool
  within its memory budget.

  All sizes are Python integers and are modelled as \<open>int\<close>. Python's \<open>math.ceil(x / 8)\<close> on these
  sizes is exact (division by a power of two), so it is \<^term>\<open>cdiv x 8\<close>. The memory fractions are
  rationals; rounding of the float products is not modelled.
\<close>

section \<open>Bit lengths and truncation\<close>

fun bit_length_nat :: "nat \<Rightarrow> nat" where
  "bit_length_nat n = (if n = 0 then 0 else Suc (bit_length_nat (n div 2)))"

declare bit_length_nat.simps [simp del]

definition bit_length :: "int \<Rightarrow> nat" where
  "bit_length n = bit_length_nat (nat \<bar>n\<bar>)"

lemma bit_length_nat_0 [simp]: "bit_length_nat 0 = 0"
  by (simp add: bit_length_nat.simps)

lemma bit_length_nat_upper: "n < 2 ^ bit_length_nat n"
proof (induction n rule: bit_length_nat.induct)
  case (1 n)
  show ?case
  proof (cases "n = 0")
    case False
    with 1 have "n div 2 < 2 ^ bit_length_nat (n div 2)" by simp
    then have "n < 2 * 2 ^ bit_length_nat (n div 2)" by linarith
    with False show ?thesis by (simp add: bit_length_nat.simps [of n])
  qed simp
qed

lemma bit_length_nat_lower: "0 < n \<Longrightarrow> 2 ^ bit_length_nat n \<le> 2 * n"
proof (induction n rule: bit_length_nat.induct)
  case (1 n)
  show ?case
  proof (cases "n = 1")
    case True
    then show ?thesis by (simp add: bit_length_nat.simps)
  next
    case False
    with 1 have "2 ^ bit_length_nat (n div 2) \<le> 2 * (n div 2)" by simp
    with 1(2) show ?thesis by (simp add: bit_length_nat.simps [of n])
  qed
qed

text \<open>\<open>int(x)\<close> on a float truncates towards zero, and so does \<open>int(a / b)\<close>.\<close>

definition py_int :: "rat \<Rightarrow> int" where
  "py_int x = (if 0 \<le> x then \<lfloor>x\<rfloor> else \<lceil>x\<rceil>)"

definition int_quotient :: "int \<Rightarrow> int \<Rightarrow> int" where
  "int_quotient n d = py_int (rat_of_int n / rat_of_int d)"

lemma int_quotient_nonneg: "0 \<le> n \<Longrightarrow> 0 < d \<Longrightarrow> int_quotient n d = n div d"
  by (simp add: int_quotient_def py_int_def floor_divide_of_int_eq)

section \<open>The configuration record and its presets\<close>

record kvarn_config =
  head_dim :: int
  key_bits :: int
  value_bits :: int
  group :: int
  sinkhorn_iters :: int
  sink_tokens :: int
  boundary_skip_layers :: int

record kvarn_preset =
  preset_key_bits :: int
  preset_value_bits :: int
  preset_group :: int

definition KVARN_PRESETS :: "(string, kvarn_preset) dict" where
  "KVARN_PRESETS =
    [(''kvarn_k4v2_g128'', \<lparr>preset_key_bits = 4, preset_value_bits = 2, preset_group = 128\<rparr>),
     (''kvarn_k4v4_g128'', \<lparr>preset_key_bits = 4, preset_value_bits = 4, preset_group = 128\<rparr>),
     (''kvarn_k4v2_g64'', \<lparr>preset_key_bits = 4, preset_value_bits = 2, preset_group = 64\<rparr>),
     (''kvarn_k4v4_g64'', \<lparr>preset_key_bits = 4, preset_value_bits = 4, preset_group = 64\<rparr>)]"

text \<open>
  \<open>from_cache_dtype\<close> reads two environment variables; \<open>None\<close> is an unset variable, \<open>Some n\<close> one
  that parses to \<open>n\<close>.
\<close>

definition from_cache_dtype ::
  "int option \<Rightarrow> int option \<Rightarrow> string \<Rightarrow> int \<Rightarrow> kvarn_config res" where
  "from_cache_dtype env_iters env_sink cache_dtype hsize =
     (case dict_get KVARN_PRESETS cache_dtype of
        None \<Rightarrow> Inl ValueError
      | Some p \<Rightarrow> Inr \<lparr>head_dim = hsize, key_bits = preset_key_bits p,
            value_bits = preset_value_bits p, group = preset_group p,
            sinkhorn_iters = (case env_iters of None \<Rightarrow> 8 | Some n \<Rightarrow> n),
            sink_tokens = (case env_sink of None \<Rightarrow> 128 | Some n \<Rightarrow> n),
            boundary_skip_layers = 0\<rparr>)"

section \<open>Storage layout of one tile\<close>

definition k_packed_bytes :: "kvarn_config \<Rightarrow> int" where
  "k_packed_bytes c = cdiv (head_dim c * group c * key_bits c) 8"

definition v_packed_bytes :: "kvarn_config \<Rightarrow> int" where
  "v_packed_bytes c = cdiv (group c * head_dim c * value_bits c) 8"

definition k_scale_bytes :: "kvarn_config \<Rightarrow> int" where
  "k_scale_bytes c = (2 * head_dim c + group c) * 2"

definition v_scale_bytes :: "kvarn_config \<Rightarrow> int" where
  "v_scale_bytes c = (head_dim c + 2 * group c) * 2"

definition tile_bytes :: "kvarn_config \<Rightarrow> int" where
  "tile_bytes c = k_packed_bytes c + k_scale_bytes c + v_packed_bytes c + v_scale_bytes c"

definition tile_bytes_aligned :: "kvarn_config \<Rightarrow> int" where
  "tile_bytes_aligned c =
     (if head_dim c \<ge> 256 then
        let slot = cdiv (tile_bytes c) (group c);
            slot_pow2 = 2 ^ bit_length (slot - 1)
        in slot_pow2 * group c
      else ((tile_bytes c + 7) div 8) * 8)"

definition k_packed_offset :: "kvarn_config \<Rightarrow> int" where
  "k_packed_offset c = 0"

definition k_s_col_offset :: "kvarn_config \<Rightarrow> int" where
  "k_s_col_offset c = k_packed_offset c + k_packed_bytes c"

definition k_zp_offset :: "kvarn_config \<Rightarrow> int" where
  "k_zp_offset c = k_s_col_offset c + head_dim c * 2"

definition k_s_row_offset :: "kvarn_config \<Rightarrow> int" where
  "k_s_row_offset c = k_zp_offset c + head_dim c * 2"

definition v_packed_offset :: "kvarn_config \<Rightarrow> int" where
  "v_packed_offset c = k_s_row_offset c + group c * 2"

definition v_s_col_offset :: "kvarn_config \<Rightarrow> int" where
  "v_s_col_offset c = v_packed_offset c + v_packed_bytes c"

definition v_s_row_offset :: "kvarn_config \<Rightarrow> int" where
  "v_s_row_offset c = v_s_col_offset c + head_dim c * 2"

definition v_zp_offset :: "kvarn_config \<Rightarrow> int" where
  "v_zp_offset c = v_s_row_offset c + group c * 2"

lemmas tile_offset_defs = k_packed_offset_def k_s_col_offset_def k_zp_offset_def
  k_s_row_offset_def v_packed_offset_def v_s_col_offset_def v_s_row_offset_def v_zp_offset_def

lemmas tile_size_defs = tile_bytes_def k_packed_bytes_def v_packed_bytes_def k_scale_bytes_def
  v_scale_bytes_def

text \<open>The eight fields of a record as (offset, length), in the order the kernels address them.\<close>

definition tile_fields :: "kvarn_config \<Rightarrow> (int \<times> int) list" where
  "tile_fields c =
    [(k_packed_offset c, k_packed_bytes c),
     (k_s_col_offset c, head_dim c * 2),
     (k_zp_offset c, head_dim c * 2),
     (k_s_row_offset c, group c * 2),
     (v_packed_offset c, v_packed_bytes c),
     (v_s_col_offset c, head_dim c * 2),
     (v_s_row_offset c, group c * 2),
     (v_zp_offset c, group c * 2)]"

section \<open>The fp16 tail pool\<close>

definition slot_bytes_per_layer :: "kvarn_config \<Rightarrow> int \<Rightarrow> int" where
  "slot_bytes_per_layer c num_kv_heads = group c * num_kv_heads * head_dim c * 4"

definition pool_slots :: "kvarn_config \<Rightarrow> int \<Rightarrow> int \<Rightarrow> int" where
  "pool_slots c max_num_seqs max_num_batched_tokens =
     (let prefill_blocks = (max_num_batched_tokens + group c - 1) div group c
      in max (2 * max_num_seqs + prefill_blocks + 8) 8)"

definition POOL_MEM_FRAC_DEFAULT :: rat where
  "POOL_MEM_FRAC_DEFAULT = 8 / 100"

definition POOL_USABLE_SHARE_DEFAULT :: rat where
  "POOL_USABLE_SHARE_DEFAULT = 1 / 2"

definition pool_budget_bytes ::
  "rat option \<Rightarrow> kvarn_config \<Rightarrow> int \<Rightarrow> rat option \<Rightarrow> int option \<Rightarrow> int" where
  "pool_budget_bytes env c total_gpu_bytes gpu_memory_utilization weight_bytes =
     (case (weight_bytes, gpu_memory_utilization) of
        (Some w, Some u) \<Rightarrow>
          let share = (case env of Some e \<Rightarrow> e | None \<Rightarrow> POOL_USABLE_SHARE_DEFAULT);
              usable = u * of_int total_gpu_bytes - of_int w
          in max 0 (py_int (share * usable))
      | _ \<Rightarrow>
          let frac_used = (case env of Some e \<Rightarrow> e | None \<Rightarrow> POOL_MEM_FRAC_DEFAULT)
          in py_int (of_int total_gpu_bytes * frac_used))"

definition max_supported_seqs ::
  "rat option \<Rightarrow> kvarn_config \<Rightarrow> int \<Rightarrow> int \<Rightarrow> int \<Rightarrow> int \<Rightarrow> rat option \<Rightarrow> rat option
   \<Rightarrow> int option \<Rightarrow> int res" where
  "max_supported_seqs env c total_gpu_bytes num_kv_heads num_layers max_num_batched_tokens frac_opt
     gpu_memory_utilization weight_bytes =
     (let budget = (case frac_opt of
             Some f \<Rightarrow> py_int (of_int total_gpu_bytes * f)
           | None \<Rightarrow> pool_budget_bytes env c total_gpu_bytes gpu_memory_utilization weight_bytes);
          slot_bytes = slot_bytes_per_layer c num_kv_heads * max num_layers 1
      in if slot_bytes = 0 then Inl ZeroDivisionError
         else
           let max_slots = int_quotient budget slot_bytes;
               prefill_blocks = (max_num_batched_tokens + group c - 1) div group c
           in Inr (max 1 ((max_slots - prefill_blocks - 8) div 2)))"

definition pool_bytes :: "kvarn_config \<Rightarrow> int \<Rightarrow> int \<Rightarrow> int \<Rightarrow> int \<Rightarrow> int" where
  "pool_bytes c max_num_seqs max_num_batched_tokens num_kv_heads num_layers =
     (let slots = pool_slots c max_num_seqs max_num_batched_tokens
      in slots * slot_bytes_per_layer c num_kv_heads * max num_layers 1)"

text \<open>
  \<open>num_kvarn_layers\<close> asks the model configuration, which is not part of this development: the
  answers of its two queries are arguments (\<open>Inl\<close> for a query that raises).
\<close>

definition num_kvarn_layers :: "int option res \<Rightarrow> int \<Rightarrow> int" where
  "num_kvarn_layers by_attention_type total_layers =
     (case by_attention_type of
        Inr (Some n) \<Rightarrow> if n \<noteq> 0 \<and> n > 0 then n else total_layers
      | _ \<Rightarrow> total_layers)"

text \<open>\<open>str(i)\<close> on a layer index, and the first and last \<open>n\<close> layer indices.\<close>

fun str_nat :: "nat \<Rightarrow> string" where
  "str_nat n = (if n < 10 then [char_of (48 + n)]
                else str_nat (n div 10) @ [char_of (48 + n mod 10)])"

declare str_nat.simps [simp del]

definition get_boundary_skip_layers :: "int \<Rightarrow> int \<Rightarrow> string list" where
  "get_boundary_skip_layers num_layers n =
     (if n \<le> 0 \<or> num_layers \<le> 0 then []
      else
        let m = min n (num_layers div 2);
            first = [0 ..< nat m];
            last = [nat (num_layers - m) ..< nat num_layers]
        in map str_nat (sorted_list_of_set (set (first @ last))))"

section \<open>Attention specs and their page size\<close>

text \<open>
  The members of \<open>KVQuantMode\<close> are identified by their names, the way \<open>KVQuantMode[...]\<close> and
  \<open>mode.name\<close> use them.
\<close>

definition KVQuantMode_names :: "string list" where
  "KVQuantMode_names =
    [''NONE'', ''FP8_PER_TENSOR'', ''INT8_PER_TOKEN_HEAD'', ''FP8_PER_TOKEN_HEAD'',
     ''INT4_PER_TOKEN_HEAD'', ''NVFP4'', ''TURBOQUANT_K8V4'', ''TURBOQUANT_4BIT_NC'',
     ''TURBOQUANT_K3V4_NC'', ''TURBOQUANT_3BIT_NC'', ''KVARN_K4V2_G128'', ''KVARN_K4V4_G128'',
     ''KVARN_K4V2_G64'', ''KVARN_K4V4_G64'', ''KVARN_MLA_K4_G128'']"

definition startswith :: "string \<Rightarrow> string \<Rightarrow> bool" where
  "startswith s p \<longleftrightarrow> take (length p) s = p"

definition upper_char :: "char \<Rightarrow> char" where
  "upper_char ch = (let n = (of_char ch :: nat)
     in if 97 \<le> n \<and> n \<le> 122 then char_of (n - 32) else ch)"

definition lower_char :: "char \<Rightarrow> char" where
  "lower_char ch = (let n = (of_char ch :: nat)
     in if 65 \<le> n \<and> n \<le> 90 then char_of (n + 32) else ch)"

abbreviation upper :: "string \<Rightarrow> string" where
  "upper s \<equiv> map upper_char s"

abbreviation lower :: "string \<Rightarrow> string" where
  "lower s \<equiv> map lower_char s"

definition mode_by_name :: "string \<Rightarrow> string res" where
  "mode_by_name nm = (if nm \<in> set KVQuantMode_names then Inr nm else Inl KeyError)"

definition get_kv_quant_mode :: "string \<Rightarrow> string res" where
  "get_kv_quant_mode dtype =
     (if dtype = ''int4_per_token_head'' then Inr ''INT4_PER_TOKEN_HEAD''
      else if dtype = ''int8_per_token_head'' then Inr ''INT8_PER_TOKEN_HEAD''
      else if dtype = ''fp8_per_token_head'' then Inr ''FP8_PER_TOKEN_HEAD''
      else if startswith dtype ''nvfp4'' then Inr ''NVFP4''
      else if startswith dtype ''turboquant_'' then mode_by_name (upper dtype)
      else if startswith dtype ''kvarn_'' then mode_by_name (upper dtype)
      else if startswith dtype ''fp8'' then Inr ''FP8_PER_TENSOR''
      else Inr ''NONE'')"

record attention_spec =
  spec_block_size :: int
  num_kv_heads :: int
  head_size :: int
  head_size_v :: int
  dtype_size :: int
  kv_quant_mode :: string
  page_size_padded :: "int option"
  num_head_slots :: "int option"
  state_content_bytes :: "int option"

definition num_heads :: "attention_spec \<Rightarrow> int" where
  "num_heads sp = (case num_head_slots sp of Some n \<Rightarrow> n | None \<Rightarrow> num_kv_heads sp)"

definition state_content_size_bytes :: "attention_spec \<Rightarrow> int" where
  "state_content_size_bytes sp =
     (case state_content_bytes sp of Some n \<Rightarrow> n
      | None \<Rightarrow> (head_size sp + head_size_v sp) * dtype_size sp)"

definition unpadded_page_size_bytes :: "attention_spec \<Rightarrow> int" where
  "unpadded_page_size_bytes sp =
     num_heads sp * spec_block_size sp * state_content_size_bytes sp"

definition page_size_bytes :: "attention_spec \<Rightarrow> int res" where
  "page_size_bytes sp =
     (case page_size_padded sp of
        Some p \<Rightarrow> if p \<ge> unpadded_page_size_bytes sp then Inr p else Inl AssertionError
      | None \<Rightarrow> Inr (unpadded_page_size_bytes sp))"

section \<open>The backend hooks\<close>

definition customize_spec ::
  "int option \<Rightarrow> int option \<Rightarrow> attention_spec \<Rightarrow> attention_spec res" where
  "customize_spec env_iters env_sink sp =
     (if state_content_bytes sp \<noteq> None then Inr sp
      else if \<not> startswith (kv_quant_mode sp) ''KVARN_''
              \<or> startswith (kv_quant_mode sp) ''KVARN_MLA'' then Inr sp
      else bind_res
        (from_cache_dtype env_iters env_sink (lower (kv_quant_mode sp)) (head_size sp))
        (\<lambda>cfg. Inr (sp\<lparr>state_content_bytes := Some (tile_bytes_aligned cfg div group cfg)\<rparr>)))"

definition get_kv_cache_shape ::
  "int option \<Rightarrow> int option \<Rightarrow> int \<Rightarrow> int \<Rightarrow> int \<Rightarrow> int \<Rightarrow> string \<Rightarrow> (int \<times> int \<times> int) res" where
  "get_kv_cache_shape env_iters env_sink num_blocks block_size n_kv_heads hsize dtype =
     bind_res (from_cache_dtype env_iters env_sink dtype hsize)
       (\<lambda>cfg. bind_res (py_assert (block_size = group cfg))
         (\<lambda>_. Inr (num_blocks, n_kv_heads, tile_bytes_aligned cfg)))"

definition supports_head_size :: "int \<Rightarrow> bool" where
  "supports_head_size hsize \<longleftrightarrow> hsize \<in> {128, 256, 512}"

definition supports_kv_cache_dtype :: "string option \<Rightarrow> bool" where
  "supports_kv_cache_dtype d =
     (case d of None \<Rightarrow> False
      | Some s \<Rightarrow> startswith s ''kvarn_'' \<and> \<not> startswith s ''kvarn_mla'')"

definition get_supported_kernel_block_sizes :: "int list" where
  "get_supported_kernel_block_sizes =
     sorted_list_of_set (set (map (preset_group \<circ> snd) KVARN_PRESETS))"

text \<open>
  \<open>get_preferred_block_size\<close>: \<open>None\<close> stands for a configuration that is not available; the size the
  generic backend would choose is an argument.
\<close>

definition get_preferred_block_size :: "string option \<Rightarrow> int \<Rightarrow> int" where
  "get_preferred_block_size cache_dtype fallback =
     (case cache_dtype of
        None \<Rightarrow> fallback
      | Some d \<Rightarrow> (case dict_get KVARN_PRESETS d of Some p \<Rightarrow> preset_group p | None \<Rightarrow> fallback))"

text \<open>
  The platform hook: reject unsupported head sizes, keep sliding-window layers out, and cap
  \<open>max_num_seqs\<close> at what the pool budget supports. \<open>applies\<close> is the guard on the cache dtype and the
  model kind.
\<close>

definition skip_layers_update :: "bool \<Rightarrow> string list \<Rightarrow> string list" where
  "skip_layers_update quant_sliding skip_layers =
     (if quant_sliding then filter (\<lambda>l. l \<noteq> ''sliding_window'') skip_layers
      else if ''sliding_window'' \<notin> set skip_layers then skip_layers @ [''sliding_window'']
      else skip_layers)"

definition kvarn_applies :: "bool \<Rightarrow> string option \<Rightarrow> bool \<Rightarrow> bool" where
  "kvarn_applies has_model_config cache_dtype use_mla \<longleftrightarrow>
     has_model_config \<and>
     (case cache_dtype of None \<Rightarrow> False
      | Some d \<Rightarrow> startswith d ''kvarn_'' \<and> \<not> startswith d ''kvarn_mla'') \<and> \<not> use_mla"

definition check_and_update_kvarn ::
  "int option \<Rightarrow> int option \<Rightarrow> rat option \<Rightarrow> bool \<Rightarrow> string \<Rightarrow> int \<Rightarrow> int \<Rightarrow> int \<Rightarrow> int \<Rightarrow> int
   \<Rightarrow> rat option \<Rightarrow> int option \<Rightarrow> string list \<Rightarrow> int \<Rightarrow> (string list \<times> int) res" where
  "check_and_update_kvarn env_iters env_sink env_frac quant_sliding cache_dtype hsize
     total_gpu_bytes n_kv_heads kvarn_layers max_num_batched_tokens util weight_bytes
     skip_layers max_num_seqs =
     (if hsize \<notin> {128, 256, 512} then Inl ValueError
      else
        let skip' = skip_layers_update quant_sliding skip_layers
        in bind_res (from_cache_dtype env_iters env_sink cache_dtype hsize)
          (\<lambda>cfg. bind_res
            (max_supported_seqs env_frac cfg total_gpu_bytes n_kv_heads kvarn_layers
               max_num_batched_tokens None util weight_bytes)
            (\<lambda>supported.
               Inr (skip', if max_num_seqs > supported then supported else max_num_seqs))))"

section \<open>Properties of the layout\<close>

definition cfg_ok :: "kvarn_config \<Rightarrow> bool" where
  "cfg_ok c \<longleftrightarrow> 0 < head_dim c \<and> 0 < group c \<and> 0 \<le> key_bits c \<and> 0 \<le> value_bits c"

lemma cdiv_nonneg: "0 \<le> a \<Longrightarrow> 0 < b \<Longrightarrow> 0 \<le> cdiv a b"
  by (simp add: cdiv_alt pos_imp_zdiv_nonneg_iff)

lemma cfg_ok_packed_nonneg:
  "cfg_ok c \<Longrightarrow> 0 \<le> k_packed_bytes c"  "cfg_ok c \<Longrightarrow> 0 \<le> v_packed_bytes c"
  by (simp_all add: cfg_ok_def k_packed_bytes_def v_packed_bytes_def cdiv_nonneg)

lemma tile_bytes_gt_two_groups: "cfg_ok c \<Longrightarrow> 2 * group c < tile_bytes c"
  using cfg_ok_packed_nonneg [of c]
  by (simp add: cfg_ok_def tile_bytes_def k_scale_bytes_def v_scale_bytes_def)

lemma pow2_bit_length_upper: "1 \<le> slot \<Longrightarrow> slot \<le> 2 ^ bit_length (slot - 1)"
proof -
  assume "1 \<le> slot"
  then have "int (nat (slot - 1)) < int (2 ^ bit_length_nat (nat (slot - 1)))"
    using bit_length_nat_upper [of "nat (slot - 1)"] by (simp only: of_nat_less_iff)
  then show ?thesis
    using \<open>1 \<le> slot\<close> by (simp add: bit_length_def)
qed

lemma pow2_bit_length_lower: "2 \<le> slot \<Longrightarrow> 2 ^ bit_length (slot - 1) \<le> 2 * (slot - 1)"
proof -
  assume "2 \<le> slot"
  then have "int (2 ^ bit_length_nat (nat (slot - 1))) \<le> int (2 * nat (slot - 1))"
    using bit_length_nat_lower [of "nat (slot - 1)"] by (simp only: of_nat_le_iff)
  then show ?thesis
    using \<open>2 \<le> slot\<close> by (simp add: bit_length_def)
qed

definition token_slot :: "kvarn_config \<Rightarrow> int" where
  "token_slot c = cdiv (tile_bytes c) (group c)"

lemma token_slot_bounds:
  assumes "cfg_ok c"
  shows "2 \<le> token_slot c" and "tile_bytes c \<le> token_slot c * group c"
    and "(token_slot c - 1) * group c < tile_bytes c"
proof -
  have g: "0 < group c" using assms by (simp add: cfg_ok_def)
  show up: "tile_bytes c \<le> token_slot c * group c"
    unfolding token_slot_def by (rule cdiv_upper [OF g])
  show "(token_slot c - 1) * group c < tile_bytes c"
    using cdiv_lower [OF g, of "tile_bytes c"] by (simp add: token_slot_def algebra_simps)
  have "2 * group c < token_slot c * group c"
    using up tile_bytes_gt_two_groups [OF assms] by linarith
  then show "2 \<le> token_slot c"
    using g by (simp add: mult_less_cancel_right)
qed

lemma tile_bytes_aligned_large:
  "256 \<le> head_dim c \<Longrightarrow> tile_bytes_aligned c = 2 ^ bit_length (token_slot c - 1) * group c"
  by (simp add: tile_bytes_aligned_def token_slot_def Let_def)

lemma tile_bytes_aligned_small:
  "head_dim c < 256 \<Longrightarrow> tile_bytes_aligned c = ((tile_bytes c + 7) div 8) * 8"
  by (simp add: tile_bytes_aligned_def)

lemma tile_bytes_le_aligned:
  assumes "cfg_ok c"
  shows "tile_bytes c \<le> tile_bytes_aligned c"
proof (cases "head_dim c < 256")
  case True
  then show ?thesis by (simp add: tile_bytes_aligned_small)
next
  case False
  have "token_slot c * group c \<le> 2 ^ bit_length (token_slot c - 1) * group c"
    using pow2_bit_length_upper [of "token_slot c"] token_slot_bounds(1) [OF assms] assms
    by (simp add: cfg_ok_def mult_right_mono)
  with False token_slot_bounds(2) [OF assms] show ?thesis
    by (simp add: tile_bytes_aligned_large)
qed

lemma tile_bytes_aligned_lt:
  assumes "cfg_ok c"
  shows "tile_bytes_aligned c < (if head_dim c < 256 then tile_bytes c + 8 else 2 * tile_bytes c)"
proof (cases "head_dim c < 256")
  case True
  have "((tile_bytes c + 7) div 8) * 8 \<le> tile_bytes c + 7" by simp
  with True show ?thesis by (simp add: tile_bytes_aligned_small)
next
  case False
  have "2 ^ bit_length (token_slot c - 1) * group c \<le> 2 * (token_slot c - 1) * group c"
    using pow2_bit_length_lower [of "token_slot c"] token_slot_bounds(1) [OF assms] assms
    by (simp add: cfg_ok_def mult_right_mono)
  also have "\<dots> = 2 * ((token_slot c - 1) * group c)" by simp
  also have "\<dots> < 2 * tile_bytes c" using token_slot_bounds(3) [OF assms] by linarith
  finally show ?thesis using False by (simp add: tile_bytes_aligned_large)
qed

text \<open>
  The eight fields of a packed tile record start at byte 0, follow one another without
  gap or overlap, and end at \<open>tile_bytes\<close>, which fits the aligned record; the alignment adds less
  than eight bytes below head dimension 256 and less than doubles the record from there on.
\<close>

lemma tile_layout:
  assumes "cfg_ok c"
  shows "fst (tile_fields c ! 0) = 0 \<and>
    (\<forall>i. Suc i < length (tile_fields c) \<longrightarrow>
       fst (tile_fields c ! Suc i) = fst (tile_fields c ! i) + snd (tile_fields c ! i)) \<and>
    fst (last (tile_fields c)) + snd (last (tile_fields c)) = tile_bytes c \<and>
    (\<forall>f \<in> set (tile_fields c). 0 \<le> snd f) \<and>
    tile_bytes c \<le> tile_bytes_aligned c \<and>
    tile_bytes_aligned c < (if head_dim c < 256 then tile_bytes c + 8 else 2 * tile_bytes c)"
proof -
  have "\<forall>i. Suc i < length (tile_fields c) \<longrightarrow>
       fst (tile_fields c ! Suc i) = fst (tile_fields c ! i) + snd (tile_fields c ! i)"
    by (auto simp: tile_fields_def tile_offset_defs less_Suc_eq)
  moreover have "fst (last (tile_fields c)) + snd (last (tile_fields c)) = tile_bytes c"
    by (simp add: tile_fields_def tile_offset_defs tile_bytes_def k_scale_bytes_def
        v_scale_bytes_def)
  moreover have "\<forall>f \<in> set (tile_fields c). 0 \<le> snd f"
    using assms cfg_ok_packed_nonneg [OF assms] by (auto simp: tile_fields_def cfg_ok_def)
  ultimately show ?thesis
    using tile_bytes_le_aligned [OF assms] tile_bytes_aligned_lt [OF assms]
    by (simp add: tile_fields_def k_packed_offset_def)
qed

definition example_cfg :: kvarn_config where
  "example_cfg = \<lparr>head_dim = 128, key_bits = 4, value_bits = 2, group = 128, sinkhorn_iters = 8,
     sink_tokens = 128, boundary_skip_layers = 0\<rparr>"

lemma tile_layout_witness:
  "cfg_ok example_cfg \<and> tile_bytes example_cfg = 13824 \<and>
   fst (last (tile_fields example_cfg)) + snd (last (tile_fields example_cfg)) = 13824"
proof -
  have ok: "cfg_ok example_cfg" by (simp add: cfg_ok_def example_cfg_def)
  have "tile_bytes example_cfg = 13824"
    by (simp add: tile_size_defs example_cfg_def cdiv_def)
  with ok tile_layout [OF ok] show ?thesis by simp
qed

section \<open>Page accounting\<close>

lemma presets_cases:
  assumes "from_cache_dtype ei es d hsize = Inr c"
  obtains "d = ''kvarn_k4v2_g128''" "key_bits c = 4" "value_bits c = 2" "group c = 128"
      "head_dim c = hsize"
  | "d = ''kvarn_k4v4_g128''" "key_bits c = 4" "value_bits c = 4" "group c = 128"
      "head_dim c = hsize"
  | "d = ''kvarn_k4v2_g64''" "key_bits c = 4" "value_bits c = 2" "group c = 64"
      "head_dim c = hsize"
  | "d = ''kvarn_k4v4_g64''" "key_bits c = 4" "value_bits c = 4" "group c = 64"
      "head_dim c = hsize"
proof -
  from assms obtain p where p: "map_of KVARN_PRESETS d = Some p"
    and c: "key_bits c = preset_key_bits p" "value_bits c = preset_value_bits p"
      "group c = preset_group p" "head_dim c = hsize"
    by (auto simp: from_cache_dtype_def split: option.splits)
  from map_of_SomeD [OF p] show thesis
    using that c by (auto simp: KVARN_PRESETS_def)
qed

lemma preset_cfg_ok:
  assumes "from_cache_dtype ei es d hsize = Inr c" and "0 < hsize"
  shows "cfg_ok c"
  using assms(1) by (rule presets_cases) (use assms(2) in \<open>auto simp: cfg_ok_def\<close>)

lemma preset_aligned_dvd:
  assumes c: "from_cache_dtype ei es d hsize = Inr c" and h: "supports_head_size hsize"
  shows "group c dvd tile_bytes_aligned c"
proof (cases "256 \<le> head_dim c")
  case True
  then show ?thesis by (simp add: tile_bytes_aligned_large)
next
  case False
  from c have "head_dim c = hsize" by (rule presets_cases) simp_all
  with h False have "head_dim c = 128" by (auto simp: supports_head_size_def)
  from c show ?thesis
    by (rule presets_cases)
       (use \<open>head_dim c = 128\<close> in \<open>simp_all add: tile_bytes_aligned_def tile_size_defs cdiv_def\<close>)
qed

lemma preset_mode_names:
  "\<forall>m \<in> set KVQuantMode_names. map_of KVARN_PRESETS (lower m) \<noteq> None \<longrightarrow>
     startswith m ''KVARN_'' \<and> \<not> startswith m ''KVARN_MLA''"
  by code_simp

lemma startswith_lower_mode:
  assumes "from_cache_dtype ei es (lower m) hsize = Inr c" and "m \<in> set KVQuantMode_names"
  shows "startswith m ''KVARN_'' \<and> \<not> startswith m ''KVARN_MLA''"
proof -
  from assms(1) have "map_of KVARN_PRESETS (lower m) \<noteq> None"
    unfolding from_cache_dtype_def by (cases "map_of KVARN_PRESETS (lower m)") simp_all
  with preset_mode_names assms(2) show ?thesis by blast
qed

text \<open>
  Property C37. For every KVarN preset and every supported head size, the spec the backend publishes
  makes vLLM's page size equal to the bytes of the cache tensor: a block of \<open>k\<close> tiles takes \<open>k\<close> times
  \<open>num_kv_heads\<close> records of \<open>tile_bytes_aligned\<close> bytes, the trailing dimensions of the cache shape.
\<close>

theorem customize_spec_page_size:
  assumes cfg: "from_cache_dtype ei es (lower (kv_quant_mode sp)) (head_size sp) = Inr c"
    and mode: "kv_quant_mode sp \<in> set KVQuantMode_names"
    and head: "supports_head_size (head_size sp)"
    and dense: "state_content_bytes sp = None" "num_head_slots sp = None"
      "page_size_padded sp = None"
    and size: "spec_block_size sp = k * group c"
  shows "\<exists>sp'. customize_spec ei es sp = Inr sp' \<and>
    page_size_bytes sp' = Inr (k * (num_kv_heads sp * tile_bytes_aligned c)) \<and>
    get_kv_cache_shape ei es n (group c) (num_kv_heads sp) (head_size sp)
      (lower (kv_quant_mode sp)) = Inr (n, num_kv_heads sp, tile_bytes_aligned c)"
proof -
  let ?sp' = "sp\<lparr>state_content_bytes := Some (tile_bytes_aligned c div group c)\<rparr>"
  have "customize_spec ei es sp = Inr ?sp'"
    using cfg dense startswith_lower_mode [OF cfg mode] by (simp add: customize_spec_def)
  moreover obtain q where q: "tile_bytes_aligned c = group c * q"
    using preset_aligned_dvd [OF cfg head] by (elim dvdE)
  moreover have "0 < group c" using cfg by (rule presets_cases) simp_all
  ultimately show ?thesis
    using cfg dense size
    by (simp add: page_size_bytes_def unpadded_page_size_bytes_def num_heads_def
        state_content_size_bytes_def get_kv_cache_shape_def)
qed

definition example_spec :: attention_spec where
  "example_spec = \<lparr>spec_block_size = 3200, num_kv_heads = 4, head_size = 256, head_size_v = 256,
     dtype_size = 2, kv_quant_mode = ''KVARN_K4V2_G128'', page_size_padded = None,
     num_head_slots = None, state_content_bytes = None\<rparr>"

definition example_cfg_256 :: kvarn_config where
  "example_cfg_256 = example_cfg\<lparr>head_dim := 256\<rparr>"

theorem customize_spec_page_size_witness:
  "\<exists>sp'. customize_spec None None example_spec = Inr sp' \<and>
     page_size_bytes sp' = Inr (25 * (4 * tile_bytes_aligned example_cfg_256))"
proof -
  have cfg: "from_cache_dtype None None (lower (kv_quant_mode example_spec))
      (head_size example_spec) = Inr example_cfg_256"
    unfolding example_cfg_256_def example_cfg_def example_spec_def by code_simp
  have side: "kv_quant_mode example_spec \<in> set KVQuantMode_names"
      "supports_head_size (head_size example_spec)" "state_content_bytes example_spec = None"
      "num_head_slots example_spec = None" "page_size_padded example_spec = None"
      "spec_block_size example_spec = 25 * group example_cfg_256" "num_kv_heads example_spec = 4"
    by (simp_all add: example_spec_def KVQuantMode_names_def supports_head_size_def
        example_cfg_256_def example_cfg_def)
  from customize_spec_page_size [OF cfg side(1-6)] show ?thesis
    unfolding side(7) by blast
qed

lemma bit_length_mono: "0 \<le> a \<Longrightarrow> a \<le> b \<Longrightarrow> bit_length a \<le> bit_length b"
proof (rule ccontr)
  assume a: "0 \<le> a" "a \<le> b" and "\<not> bit_length a \<le> bit_length b"
  then have lt: "bit_length_nat (nat b) < bit_length_nat (nat a)" by (simp add: bit_length_def)
  then have "0 < nat a" by (cases "nat a") simp_all
  have "2 * (2::nat) ^ bit_length_nat (nat b) \<le> 2 ^ bit_length_nat (nat a)"
    using lt power_increasing [of "Suc (bit_length_nat (nat b))" "bit_length_nat (nat a)" "2::nat"]
    by simp
  also have "\<dots> \<le> 2 * nat a" by (rule bit_length_nat_lower [OF \<open>0 < nat a\<close>])
  finally have "2 ^ bit_length_nat (nat b) \<le> nat a" by simp
  with bit_length_nat_upper [of "nat b"] a show False by linarith
qed

lemma cdiv_mono: "0 < g \<Longrightarrow> a \<le> b \<Longrightarrow> cdiv a g \<le> cdiv b g"
  by (simp add: cdiv_alt zdiv_mono1)

text \<open>
  From head dimension 256 on, the per-token slot of a tile is a power of two, so the
  slot of a layer with a larger head dimension is a whole multiple of that of a smaller one: the
  page-size unification of models with several head sizes always divides.
\<close>

lemma token_slot_divides:
  assumes "cfg_ok c" and "256 \<le> head_dim c" and "head_dim c \<le> d"
  shows "tile_bytes_aligned c div group c dvd
    tile_bytes_aligned (c\<lparr>head_dim := d\<rparr>) div group (c\<lparr>head_dim := d\<rparr>)"
proof -
  let ?c' = "c\<lparr>head_dim := d\<rparr>"
  have g: "0 < group c" and ok': "cfg_ok ?c'" using assms by (simp_all add: cfg_ok_def)
  have "k_packed_bytes c \<le> k_packed_bytes ?c'" "v_packed_bytes c \<le> v_packed_bytes ?c'"
    using assms by (auto simp: k_packed_bytes_def v_packed_bytes_def cfg_ok_def
        intro!: cdiv_mono mult_right_mono mult_left_mono)
  then have "tile_bytes c \<le> tile_bytes ?c'"
    using assms by (simp add: tile_bytes_def k_scale_bytes_def v_scale_bytes_def)
  then have "token_slot c \<le> token_slot ?c'"
    using g by (simp add: token_slot_def cdiv_mono)
  then have "bit_length (token_slot c - 1) \<le> bit_length (token_slot ?c' - 1)"
    using token_slot_bounds(1) [OF assms(1)] by (simp add: bit_length_mono)
  then have "(2::int) ^ bit_length (token_slot c - 1) dvd 2 ^ bit_length (token_slot ?c' - 1)"
    by (rule le_imp_power_dvd)
  with g assms(2,3) show ?thesis by (simp add: tile_bytes_aligned_large)
qed

lemma token_slot_divides_witness:
  "tile_bytes_aligned example_cfg_256 div group example_cfg_256 dvd
   tile_bytes_aligned (example_cfg_256\<lparr>head_dim := 512\<rparr>) div
   group (example_cfg_256\<lparr>head_dim := 512\<rparr>)"
  by (rule token_slot_divides)
     (simp_all add: cfg_ok_def example_cfg_256_def example_cfg_def)

section \<open>The pool fits its budget\<close>

text \<open>The budget \<open>max_supported_seqs\<close> works with.\<close>

definition pool_budget ::
  "rat option \<Rightarrow> kvarn_config \<Rightarrow> int \<Rightarrow> rat option \<Rightarrow> rat option \<Rightarrow> int option \<Rightarrow> int" where
  "pool_budget env c gpu frac_opt util w =
     (case frac_opt of Some f \<Rightarrow> py_int (of_int gpu * f)
      | None \<Rightarrow> pool_budget_bytes env c gpu util w)"

abbreviation pool_slot_bytes :: "kvarn_config \<Rightarrow> int \<Rightarrow> int \<Rightarrow> int" where
  "pool_slot_bytes c kv_heads layers \<equiv> slot_bytes_per_layer c kv_heads * max layers 1"

lemma pool_slots_eq:
  assumes "0 < group c" and "0 \<le> s" and "0 \<le> t"
  shows "pool_slots c s t = 2 * s + cdiv t (group c) + 8"
proof -
  have "0 \<le> cdiv t (group c)" using assms by (simp add: cdiv_nonneg)
  with assms show ?thesis by (simp add: pool_slots_def cdiv_alt)
qed

lemma pool_bytes_eq:
  "0 < group c \<Longrightarrow> 0 \<le> s \<Longrightarrow> 0 \<le> t \<Longrightarrow>
   pool_bytes c s t kvh l = (2 * s + cdiv t (group c) + 8) * pool_slot_bytes c kvh l"
  by (simp add: pool_bytes_def pool_slots_eq mult.assoc)

lemma max_supported_seqs_eq:
  assumes "0 < pool_slot_bytes c kvh l" and "0 \<le> pool_budget env c gpu f u w" and "0 < group c"
  shows "max_supported_seqs env c gpu kvh l t f u w =
    Inr (max 1 ((pool_budget env c gpu f u w div pool_slot_bytes c kvh l
                 - cdiv t (group c) - 8) div 2))"
  using assms
  by (cases f) (auto simp: max_supported_seqs_def pool_budget_def Let_def int_quotient_nonneg cdiv_alt)

text \<open>
  Property C38. The concurrency cap is the exact inverse of the pool size: every \<open>max_num_seqs\<close> above
  the cap needs a pool larger than the budget, and the pool of the cap itself fits the budget unless
  the budget does not even hold the pool of one request, in which case the cap is 1 all the same.
\<close>

theorem max_supported_seqs_exact:
  assumes sb: "0 < pool_slot_bytes c kvh l" and bud: "0 \<le> pool_budget env c gpu f u w"
    and g: "0 < group c" and t: "0 \<le> t"
  shows "\<exists>s. max_supported_seqs env c gpu kvh l t f u w = Inr s \<and> 1 \<le> s \<and>
    (\<forall>s'. s < s' \<longrightarrow> pool_budget env c gpu f u w < pool_bytes c s' t kvh l) \<and>
    (if pool_bytes c 1 t kvh l \<le> pool_budget env c gpu f u w
     then pool_bytes c s t kvh l \<le> pool_budget env c gpu f u w else s = 1)"
proof -
  define B where "B = pool_budget env c gpu f u w"
  define K where "K = pool_slot_bytes c kvh l"
  define P where "P = cdiv t (group c)"
  define q where "q = B div K"
  define s where "s = max 1 ((q - P - 8) div 2)"
  have K: "0 < K" using sb by (simp add: K_def)
  have pb: "pool_bytes c x t kvh l = (2 * x + P + 8) * K" if "0 \<le> x" for x
    using that g t by (simp add: pool_bytes_eq P_def K_def)
  have fits: "(2 * x + P + 8) * K \<le> B \<longleftrightarrow> 2 * x + P + 8 \<le> q" for x
    unfolding q_def by (rule mult_le_iff_le_div [OF K])
  have above: "B < pool_bytes c x t kvh l" if "s < x" for x
  proof -
    have "q < 2 * x + P + 8" and "0 \<le> x" using that unfolding s_def by linarith+
    then show ?thesis using fits [of x] pb [of x] by simp
  qed
  have "if pool_bytes c 1 t kvh l \<le> B then pool_bytes c s t kvh l \<le> B else s = 1"
  proof (cases "2 + P + 8 \<le> q")
    case True
    then have "2 * s + P + 8 \<le> q" "0 \<le> s" unfolding s_def by linarith+
    then show ?thesis using fits [of s] fits [of 1] True by (simp add: pb)
  next
    case False
    then have "s = 1" unfolding s_def by linarith
    then show ?thesis using False fits [of 1] by (simp add: pb)
  qed
  moreover have "max_supported_seqs env c gpu kvh l t f u w = Inr s"
    using max_supported_seqs_eq [OF sb bud g] by (simp add: s_def q_def P_def K_def B_def)
  moreover have "1 \<le> s" by (simp add: s_def)
  ultimately show ?thesis using above unfolding B_def by blast
qed

theorem max_supported_seqs_exact_witness:
  "\<exists>s. max_supported_seqs None example_cfg 24000000000 8 36 8192 None (Some (9/10))
         (Some 8000000000) = Inr s \<and> 1 \<le> s \<and>
     (\<forall>s'. s < s' \<longrightarrow> pool_budget None example_cfg 24000000000 None (Some (9/10)) (Some 8000000000)
        < pool_bytes example_cfg s' 8192 8 36)"
proof -
  have "0 < pool_slot_bytes example_cfg 8 36" "0 < group example_cfg"
    by (simp_all add: slot_bytes_per_layer_def example_cfg_def)
  moreover have "0 \<le> pool_budget None example_cfg 24000000000 None (Some (9/10)) (Some 8000000000)"
    by (simp add: pool_budget_def pool_budget_bytes_def)
  ultimately show ?thesis
    using max_supported_seqs_exact [of example_cfg 8 36 None 24000000000 None "Some (9/10)"
        "Some 8000000000" 8192] by auto
qed

end
