(* ===== verification/KVarN_Pack.thy ===== *)
theory KVarN_Pack
  imports Main "HOL-Library.Word" Prelude
begin

text \<open>
  Bit packing of quantised tiles: \<open>_pack_4bit\<close> and \<open>_pack_lowbit\<close> of
  \<^verbatim>\<open>vllm/v1/attention/ops/kvarn_store.py\<close>, \<open>_unpack_4bit\<close> and \<open>_unpack_lowbit\<close> of
  \<^verbatim>\<open>vllm/v1/attention/ops/kvarn_decode.py\<close>. The functions work on the last tensor dimension and treat
  the leading dimensions elementwise, so each is modelled on one row; a tile is a list of rows.
  \<open>uint8\<close> is \<open>8 word\<close>: casts reduce modulo 256 and shifts drop the bits that leave the byte.
\<close>

unbundle bit_operations_syntax

section \<open>Packing and unpacking one row\<close>

text \<open>\<open>q[..., a::step]\<close>: every \<open>step\<close>-th element from index \<open>a\<close> on.\<close>

definition strided :: "nat \<Rightarrow> nat \<Rightarrow> 'a list \<Rightarrow> 'a list" where
  "strided a step xs = map (\<lambda>i. xs ! (a + i * step)) [0 ..< (length xs - a + (step - 1)) div step]"

definition pack_4bit :: "int list \<Rightarrow> byte list res" where
  "pack_4bit q =
     bind_res (py_assert (length q mod 2 = 0)) (\<lambda>_.
       let q8 = map (\<lambda>x. word_of_int x AND 0xF) q;
           lo = strided 0 2 q8;
           hi = strided 1 2 q8
       in Inr (map2 (\<lambda>l h. l OR push_bit 4 h) lo hi))"

text \<open>The bytes of one group of \<open>pack\<close> values: value \<open>j\<close> at bit position \<open>j * bits\<close>.\<close>

definition pack_byte :: "nat \<Rightarrow> byte list \<Rightarrow> byte" where
  "pack_byte bits g =
     fold (\<lambda>j out. out OR push_bit (j * bits) (g ! j)) [1 ..< 8 div bits] (g ! 0)"

definition pack_lowbit :: "int list \<Rightarrow> nat \<Rightarrow> byte list res" where
  "pack_lowbit q bits =
     (if bits = 0 then Inl ZeroDivisionError
      else let pack = 8 div bits; C = length q
      in if pack = 0 then Inl ZeroDivisionError
         else bind_res (py_assert (C mod pack = 0)) (\<lambda>_.
           let q8 = map (\<lambda>x. word_of_int x AND mask bits) q
           in Inr (map (\<lambda>i. pack_byte bits (py_slice q8 (i * pack) (i * pack + pack)))
                     [0 ..< C div pack])))"

text \<open>
  Unpacking writes the strided positions \<open>j::pack\<close> of a fresh tensor for every \<open>j\<close>. Assigning a
  tensor whose last dimension is neither the py_slice's nor 1 raises in torch; a last dimension of 1 is
  broadcast.
\<close>

definition broadcast :: "nat \<Rightarrow> 'a list \<Rightarrow> 'a list res" where
  "broadcast n xs =
     (if length xs = n then Inr xs
      else if length xs = 1 then Inr (replicate n (xs ! 0))
      else Inl RuntimeError)"

definition unpack_4bit :: "byte list \<Rightarrow> nat \<Rightarrow> byte list res" where
  "unpack_4bit packed original_last_dim =
     bind_res (py_assert (original_last_dim mod 2 = 0)) (\<lambda>_.
       let lo = map (\<lambda>b. b AND 0xF) packed;
           hi = map (\<lambda>b. drop_bit 4 b AND 0xF) packed
       in bind_res (broadcast (original_last_dim div 2) lo) (\<lambda>lo'.
          bind_res (broadcast (original_last_dim div 2) hi) (\<lambda>hi'.
            Inr (map (\<lambda>c. if c mod 2 = 0 then lo' ! (c div 2) else hi' ! (c div 2))
                   [0 ..< original_last_dim]))))"

definition unpack_lowbit :: "byte list \<Rightarrow> nat \<Rightarrow> nat \<Rightarrow> byte list res" where
  "unpack_lowbit packed original_last_dim bits =
     (if bits = 4 then unpack_4bit packed original_last_dim
      else if bits = 0 then Inl ZeroDivisionError
      else let pack = 8 div bits
      in if pack = 0 then Inl ZeroDivisionError
         else bind_res (py_assert (original_last_dim mod pack = 0)) (\<lambda>_.
           bind_res (broadcast (original_last_dim div pack) packed) (\<lambda>packed'.
             Inr (map (\<lambda>c. drop_bit (c mod pack * bits) (packed' ! (c div pack)) AND mask bits)
                    [0 ..< original_last_dim]))))"

section \<open>Bits of a packed byte\<close>

lemma bit_or_fold:
  "bit (fold (\<lambda>j out. out OR push_bit (j * bits) (g ! j)) js (w :: byte)) n \<longleftrightarrow>
   bit w n \<or> (\<exists>j \<in> set js. bit (push_bit (j * bits) (g ! j)) n)"
  by (induction js arbitrary: w) (auto simp: bit_or_iff)

lemma bit_pack_byte:
  assumes "0 < bits" "bits \<le> 8"
  shows "bit (pack_byte bits g) n \<longleftrightarrow> (\<exists>j < 8 div bits. bit (push_bit (j * bits) (g ! j)) n)"
proof -
  have pos: "0 < 8 div bits" using assms by (simp add: div_greater_zero_iff)
  have "{j. j < 8 div bits} = insert 0 {1 ..< 8 div bits}" using pos by auto
  then show ?thesis
    unfolding pack_byte_def bit_or_fold
    by (metis (no_types, lifting) atLeastLessThan_iff insert_iff mem_Collect_eq mult_0
        push_bit_0_id id_apply set_upt)
qed

text \<open>Reading position \<open>j\<close> of a packed byte gives back the \<open>j\<close>-th masked value.\<close>

lemma pack_byte_read:
  assumes bits: "0 < bits" "bits \<le> 8" and j: "j < 8 div bits"
    and masked: "\<And>i. i < 8 div bits \<Longrightarrow> g ! i AND mask bits = g ! i"
  shows "drop_bit (j * bits) (pack_byte bits g) AND mask bits = g ! j"
proof (rule bit_word_eqI)
  fix n assume "n < LENGTH(8)"
  then have n8: "n < 8" by simp
  have "Suc j * bits \<le> 8 div bits * bits" using j by (intro mult_le_mono1) simp
  also have "\<dots> \<le> 8" by simp
  finally have jb: "j * bits + bits \<le> 8" by simp
  have small: "\<not> bit (g ! i) m" if "i < 8 div bits" "bits \<le> m" for i m
    using masked [OF that(1)] that(2) by (metis bit_and_iff bit_mask_iff not_le)
  show "bit (drop_bit (j * bits) (pack_byte bits g) AND mask bits) n = bit (g ! j) n"
  proof (cases "n < bits")
    case False
    then show ?thesis using small [OF j] by (simp add: bit_and_iff bit_mask_iff)
  next
    case True
    have same: "i = j" if "i < 8 div bits" "i * bits \<le> j * bits + n" "bit (g ! i) (j * bits + n - i * bits)" for i
    proof -
      have "j * bits + n - i * bits < bits"
        using that small [of i "j * bits + n - i * bits"] by (meson not_le)
      then have "j * bits + n < Suc i * bits" using that(2) by simp
      then have "j < Suc i" using mult_less_cancel2 [of j bits "Suc i"] by linarith
      moreover have "i * bits < Suc j * bits" using that(2) True by simp
      then have "i < Suc j" by (simp only: mult_less_cancel2)
      ultimately show ?thesis by simp
    qed
    have "bit (drop_bit (j * bits) (pack_byte bits g)) n \<longleftrightarrow>
        (\<exists>i < 8 div bits. bit (push_bit (i * bits) (g ! i)) (j * bits + n))"
      using bits by (simp add: bit_drop_bit_eq bit_pack_byte)
    also have "\<dots> \<longleftrightarrow> bit (g ! j) n"
    proof
      assume "\<exists>i < 8 div bits. bit (push_bit (i * bits) (g ! i)) (j * bits + n)"
      then obtain i where i: "i < 8 div bits" "i * bits \<le> j * bits + n"
          "bit (g ! i) (j * bits + n - i * bits)"
        by (auto simp: bit_push_bit_iff)
      then have "i = j" by (rule same)
      with i show "bit (g ! j) n" by simp
    next
      assume "bit (g ! j) n"
      then have "bit (push_bit (j * bits) (g ! j)) (j * bits + n)"
        using jb True by (simp add: bit_push_bit_iff)
      with j show "\<exists>i < 8 div bits. bit (push_bit (i * bits) (g ! i)) (j * bits + n)" by blast
    qed
    finally show ?thesis using True n8 by (simp add: bit_and_iff bit_mask_iff)
  qed
qed

section \<open>Round trip\<close>

text \<open>Both unpacking routines compute the same formula.\<close>

lemma broadcast_map: "broadcast n (map f xs) = map_sum id (map f) (broadcast n xs)"
  by (auto simp: broadcast_def map_replicate)

lemma broadcast_length: "broadcast n xs = Inr ys \<Longrightarrow> length ys = n"
  by (auto simp: broadcast_def split: if_splits)

lemma mask_4: "mask 4 = (0xF :: byte)"
  by (simp add: mask_eq_exp_minus_1)

lemma unpack_lowbit_eq:
  assumes "0 < bits" "bits \<le> 8"
  shows "unpack_lowbit packed dim bits =
    bind_res (py_assert (dim mod (8 div bits) = 0)) (\<lambda>_.
      bind_res (broadcast (dim div (8 div bits)) packed) (\<lambda>p.
        Inr (map (\<lambda>c. drop_bit (c mod (8 div bits) * bits) (p ! (c div (8 div bits)))
                       AND mask bits) [0 ..< dim])))"
proof (cases "bits = 4")
  case False
  have "8 div bits \<noteq> 0" using assms by (simp add: div_eq_0_iff)
  with False assms show ?thesis by (simp add: unpack_lowbit_def Let_def)
next
  case True
  show ?thesis
  proof (cases "dim mod 2 = 0")
    case False
    with True show ?thesis by (simp add: unpack_lowbit_def unpack_4bit_def)
  next
    case even: True
    show ?thesis
    proof (cases "broadcast (dim div 2) packed")
      case (Inl e)
      with True even show ?thesis
        by (simp add: unpack_lowbit_def unpack_4bit_def broadcast_map Let_def)
    next
      case (Inr p)
      have "length p = dim div 2" using Inr by (rule broadcast_length)
      then have idx: "c div 2 < length p" if "c < dim" for c
        using that even by (auto simp: less_mult_imp_div_less)
      with True even Inr show ?thesis
        by (auto simp: unpack_lowbit_def unpack_4bit_def broadcast_map Let_def mask_4
            mod2_eq_if)
    qed
  qed
qed

lemma pack_lowbit_length:
  assumes "0 < bits" "bits \<le> 8" and "length q mod (8 div bits) = 0"
  shows "\<exists>p. pack_lowbit q bits = Inr p \<and> length p = length q div (8 div bits)"
  using assms by (auto simp: pack_lowbit_def Let_def div_eq_0_iff)

lemma uint_masked:
  assumes "bits \<le> 8"
  shows "uint (word_of_int x AND mask bits :: byte) = x mod 2 ^ bits"
proof -
  have "uint (take_bit bits (word_of_int x :: byte)) = take_bit bits (take_bit 8 x)"
    by (simp add: unsigned_take_bit_eq unsigned_of_int)
  also have "\<dots> = take_bit bits x"
    using assms by (simp only: take_bit_take_bit min_absorb1)
  also have "\<dots> = x mod 2 ^ bits" by (rule take_bit_eq_mod)
  finally show ?thesis by (simp only: take_bit_eq_mask)
qed

lemma unpack_pack_row:
  assumes bits: "0 < bits" "bits \<le> 8" and len: "length q mod (8 div bits) = 0"
  shows "\<exists>p r. pack_lowbit q bits = Inr p \<and> length p = length q div (8 div bits) \<and>
    unpack_lowbit p (length q) bits = Inr r \<and> map uint r = map (\<lambda>x. x mod 2 ^ bits) q"
proof -
  let ?P = "8 div bits"
  define q8 :: "byte list" where "q8 = map (\<lambda>x. word_of_int x AND mask bits) q"
  have P: "0 < ?P" using bits by (simp add: div_greater_zero_iff)
  define p where "p = map (\<lambda>i. pack_byte bits (py_slice q8 (i * ?P) (i * ?P + ?P)))
      [0 ..< length q div ?P]"
  have pack: "pack_lowbit q bits = Inr p"
    using bits P len by (simp add: pack_lowbit_def Let_def p_def q8_def)
  have plen: "length p = length q div ?P" by (simp add: p_def)
  have cell: "drop_bit (c mod ?P * bits) (p ! (c div ?P)) AND mask bits = q8 ! c"
    if c: "c < length q" for c
  proof -
    have ci: "c div ?P < length q div ?P"
      using c len by (metis P div_less_iff_less_mult div_mult_mod_eq add.right_neutral)
    then have "c div ?P * ?P + ?P \<le> length q div ?P * ?P"
      by (metis Suc_leI add.commute mult_Suc mult_le_mono1)
    also have "\<dots> = length q8"
      using len by (metis add.right_neutral div_mult_mod_eq length_map q8_def)
    finally have room: "c div ?P * ?P + ?P \<le> length q8" .
    let ?g = "py_slice q8 (c div ?P * ?P) (c div ?P * ?P + ?P)"
    have g: "?g ! i = q8 ! (c div ?P * ?P + i)" if "i < ?P" for i
      using that room by (intro nth_py_slice) simp
    have "drop_bit (c mod ?P * bits) (pack_byte bits ?g) AND mask bits = ?g ! (c mod ?P)"
    proof (rule pack_byte_read [OF bits])
      show "c mod ?P < ?P" using P by simp
      show "?g ! i AND mask bits = ?g ! i" if "i < ?P" for i
        using that room by (simp add: g q8_def and.assoc)
    qed
    then show ?thesis
      using ci g [of "c mod ?P"] P by (simp add: p_def div_mult_mod_eq)
  qed
  have "unpack_lowbit p (length q) bits = Inr q8"
    using len plen cell
    by (auto simp: unpack_lowbit_eq [OF bits] broadcast_def q8_def intro!: nth_equalityI)
  moreover have "map uint q8 = map (\<lambda>x. x mod 2 ^ bits) q"
    using bits by (simp add: q8_def uint_masked)
  ultimately show ?thesis using pack plen by blast
qed

text \<open>
  Property C29. Unpacking the bytes of a packed row returns, for every bit width from 1 to 8 and
  every row whose length is a multiple of the values per byte, each value reduced modulo
  \<open>2 ^ bits\<close>: codes in range come back unchanged, in order.
\<close>

theorem unpack_pack_roundtrip:
  assumes bits: "0 < bits" "bits \<le> 8" and len: "length q mod (8 div bits) = 0"
  shows "\<exists>p r. pack_lowbit q bits = Inr p \<and> length p = length q div (8 div bits) \<and>
    unpack_lowbit p (length q) bits = Inr r \<and> map uint r = map (\<lambda>x. x mod 2 ^ bits) q"
  using assms by (rule unpack_pack_row)

theorem unpack_pack_roundtrip_witness:
  "\<exists>p r. pack_lowbit [3, 0, 1, 2, 2, 7, 0, 1] 2 = Inr p \<and> length p = 2 \<and>
     unpack_lowbit p 8 2 = Inr r \<and> map uint r = [3, 0, 1, 2, 2, 3, 0, 1]"
proof -
  have len: "length [3, 0, 1, 2, 2, 7, 0, 1 :: int] = 8" by simp
  show ?thesis
    using unpack_pack_roundtrip [of 2 "[3, 0, 1, 2, 2, 7, 0, 1]"] unfolding len by simp
qed

lemma strided_two:
  assumes "length xs mod 2 = 0" and "a < 2"
  shows "strided a 2 xs = map (\<lambda>i. xs ! (a + i * 2)) [0 ..< length xs div 2]"
proof -
  have "(length xs - a + 1) div 2 = length xs div 2" using assms by presburger
  then show ?thesis by (simp add: strided_def)
qed

lemma pack_lowbit_nibble: "pack_lowbit q 4 = pack_4bit q"
proof (cases "length q mod 2 = 0")
  case False
  then show ?thesis by (simp add: pack_lowbit_def pack_4bit_def)
next
  case True
  let ?q8 = "map (\<lambda>x. word_of_int x AND 0xF) q :: byte list"
  have "pack_byte 4 (py_slice ?q8 (i * 2) (i * 2 + 2)) = ?q8 ! (i * 2) OR push_bit 4 (?q8 ! (1 + i * 2))"
    if "i < length q div 2" for i
  proof -
    have "i * 2 + 1 < length ?q8" using that True by auto
    then have "py_slice ?q8 (i * 2) (i * 2 + 2) ! 0 = ?q8 ! (i * 2)"
        "py_slice ?q8 (i * 2) (i * 2 + 2) ! 1 = ?q8 ! (i * 2 + 1)"
      by (simp_all del: nth_map)
    moreover have "[1 ..< 8 div 4] = [1::nat]" by (simp add: upt_rec)
    ultimately show ?thesis by (simp add: pack_byte_def del: nth_map upt_Suc)
  qed
  moreover have "strided 0 2 ?q8 = map (\<lambda>i. ?q8 ! (i * 2)) [0 ..< length q div 2]"
      "strided 1 2 ?q8 = map (\<lambda>i. ?q8 ! (1 + i * 2)) [0 ..< length q div 2]"
    using True by (simp_all add: strided_two del: nth_map)
  ultimately show ?thesis
    using True by (simp add: pack_lowbit_def pack_4bit_def Let_def mask_4 map2_map_map
        del: nth_map)
qed

text \<open>
  The generic packer at four bits is the dedicated nibble packer, on every row and also
  where it raises.
\<close>

lemma pack_lowbit_4_eq_pack_4bit: "pack_lowbit q 4 = pack_4bit q"
  by (rule pack_lowbit_nibble)

end
