(* ===== verification/KVarN_Quant.thy ===== *)
theory KVarN_Quant
  imports Complex_Main KVarN_Pack
begin

text \<open>
  The numerics of KVarN's tile quantiser: the log-domain variance normalisation
  (\<^verbatim>\<open>vllm/model_executor/layers/quantization/kvarn/sinkhorn.py\<close>), asymmetric round-to-nearest and the
  tile stores (\<^verbatim>\<open>vllm/v1/attention/ops/kvarn_store.py\<close>), the dequantisers
  (\<^verbatim>\<open>vllm/v1/attention/ops/kvarn_decode.py\<close>) and the Hadamard rotation (\<open>_hadamard_cached\<close> of
  \<^verbatim>\<open>vllm/v1/attention/backends/kvarn_attn.py\<close>).

  A tile is a list of rows. fp32 arithmetic is read as exact real arithmetic; the cast of the stored
  scales to fp16 is a function argument \<open>to16\<close>, of which the theorems only use a bound on its
  relative error. The quantile of torch is an argument as well.
\<close>

type_synonym tile = "real list list"

section \<open>Definitions: variance normalisation\<close>

definition mean :: "real list \<Rightarrow> real" where
  "mean xs = sum_list xs / real (length xs)"

text \<open>\<open>torch.std\<close> divides by \<open>n - 1\<close>.\<close>

definition std :: "real list \<Rightarrow> real" where
  "std xs = sqrt (sum_list (map (\<lambda>x. (x - mean xs)\<^sup>2) xs) / (real (length xs) - 1))"

definition clamp :: "real \<Rightarrow> real \<Rightarrow> real \<Rightarrow> real" where
  "clamp lo hi x = min (max x lo) hi"

definition tile_cols :: "tile \<Rightarrow> nat" where
  "tile_cols m = (case m of [] \<Rightarrow> 0 | r # _ \<Rightarrow> length r)"

definition columns :: "tile \<Rightarrow> real list list" where
  "columns m = map (\<lambda>c. map (\<lambda>r. r ! c) m) [0 ..< tile_cols m]"

definition imbalance :: "tile \<Rightarrow> real" where
  "imbalance m =
     (let sc = map std (columns m); sr = map std m
      in Max (set sc) / max (Min (set sc)) (1 / 10 ^ 8)
       + Max (set sr) / max (Min (set sr)) (1 / 10 ^ 8))"

text \<open>\<open>m / s_col / s_row\<close> with the broadcasts written out.\<close>

definition div_scales :: "tile \<Rightarrow> real list \<Rightarrow> real list \<Rightarrow> tile" where
  "div_scales m s_col s_row = map2 (\<lambda>row sr. map2 (\<lambda>x sc. x / sc / sr) row s_col) m s_row"

definition CLIP_STD_MIN :: real where "CLIP_STD_MIN = 1 / 1000"
definition CLIP_STD_MAX :: real where "CLIP_STD_MAX = 1000"
definition LOG_S_MIN :: real where "LOG_S_MIN = - 3 / 10"
definition LOG_S_MAX :: real where "LOG_S_MAX = 10"

record sink_state =
  log_s_col :: "real list"
  log_s_row :: "real list"
  cur :: tile
  imb_best :: real
  sc_best :: "real list"
  sr_best :: "real list"

definition log_update :: "real list \<Rightarrow> real list list \<Rightarrow> real list" where
  "log_update logs vecs =
     map2 (\<lambda>l v. clamp LOG_S_MIN LOG_S_MAX (l + ln (clamp CLIP_STD_MIN CLIP_STD_MAX (std v))))
       logs vecs"

definition sink_init :: "tile \<Rightarrow> sink_state" where
  "sink_init m =
     (let lc = replicate (tile_cols m) 0; lr = replicate (length m) 0;
          c = div_scales m (map exp lc) (map exp lr)
      in \<lparr>log_s_col = lc, log_s_row = lr, cur = c, imb_best = imbalance c,
          sc_best = map exp lc, sr_best = map exp lr\<rparr>)"

text \<open>The scales and the tile after one column pass and one row pass.\<close>

definition sink_pass :: "tile \<Rightarrow> sink_state \<Rightarrow> sink_state" where
  "sink_pass m s =
     (let lc = log_update (log_s_col s) (columns (cur s));
          c1 = div_scales m (map exp lc) (map exp (log_s_row s));
          lr = log_update (log_s_row s) c1;
          c2 = div_scales m (map exp lc) (map exp lr)
      in s\<lparr>log_s_col := lc, log_s_row := lr, cur := c2\<rparr>)"

definition sink_iter :: "tile \<Rightarrow> sink_state \<Rightarrow> sink_state" where
  "sink_iter m s =
     (let s' = sink_pass m s; imb = imbalance (cur s')
      in if imb \<le> imb_best s' then
           s'\<lparr>imb_best := imb, sc_best := map exp (log_s_col s'), sr_best := map exp (log_s_row s')\<rparr>
         else s')"

definition variance_normalize :: "tile \<Rightarrow> nat \<Rightarrow> tile \<times> real list \<times> real list" where
  "variance_normalize m iterations =
     (let s = (sink_iter m ^^ iterations) (sink_init m)
      in (div_scales m (sc_best s) (sr_best s), sc_best s, sr_best s))"

text \<open>
  The batched variant keeps one state per tile and selects by an arithmetic mask; the selection runs
  only when some tile improved.
\<close>

definition blend :: "real \<Rightarrow> real list \<Rightarrow> real list \<Rightarrow> real list" where
  "blend msk new old = map2 (\<lambda>n b. msk * n + (1 - msk) * b) new old"

definition sink_iter_batched :: "tile list \<Rightarrow> sink_state list \<Rightarrow> sink_state list" where
  "sink_iter_batched ms ss =
     (let ss' = map2 sink_pass ms ss;
          imbs = map (imbalance \<circ> cur) ss';
          better = map2 (\<lambda>i s. i \<le> imb_best s) imbs ss'
      in if list_ex id better then
           map2 (\<lambda>(b, i) s.
             let msk = (if b then 1 else 0)
             in s\<lparr>sc_best := blend msk (map exp (log_s_col s)) (sc_best s),
                  sr_best := blend msk (map exp (log_s_row s)) (sr_best s),
                  imb_best := (if b then i else imb_best s)\<rparr>) (zip better imbs) ss'
         else ss')"

definition variance_normalize_batched ::
  "tile list \<Rightarrow> nat \<Rightarrow> (tile \<times> real list \<times> real list) list" where
  "variance_normalize_batched ms iterations =
     (let ss = (sink_iter_batched ms ^^ iterations) (map sink_init ms)
      in map2 (\<lambda>m s. (div_scales m (sc_best s) (sr_best s), sc_best s, sr_best s)) ms ss)"

section \<open>Definitions: round to nearest\<close>

text \<open>\<open>torch.round\<close> rounds halves to the even neighbour.\<close>

definition round_even :: "real \<Rightarrow> int" where
  "round_even x =
     (let f = \<lfloor>x\<rfloor>; d = x - of_int f
      in if d < 1 / 2 then f else if 1 / 2 < d then f + 1 else if even f then f else f + 1)"

definition quant_row :: "nat \<Rightarrow> real \<Rightarrow> real \<Rightarrow> real list \<Rightarrow> int list \<times> real \<times> real" where
  "quant_row bits lo hi row =
     (let qmax = 2 ^ bits - 1;
          scale = max ((hi - lo) / of_int qmax) (1 / 10 ^ 10);
          q = map (\<lambda>x. min (max (round_even ((x - lo) / scale)) 0) qmax) row
      in (q, scale, lo))"

definition asymmetric_rtn_per_row :: "tile \<Rightarrow> nat \<Rightarrow> (int list \<times> real \<times> real) list res" where
  "asymmetric_rtn_per_row m bits =
     (if m \<noteq> [] \<and> tile_cols m = 0 then Inl IndexError
      else Inr (map (\<lambda>row. quant_row bits (Min (set row)) (Max (set row)) row) m))"

definition rtn_range :: "(real \<Rightarrow> real list \<Rightarrow> real) \<Rightarrow> real option \<Rightarrow> real list \<Rightarrow> real \<times> real" where
  "rtn_range quantile env_q row =
     (case env_q of
        Some q \<Rightarrow> if q > 0 then (quantile q row, quantile (1 - q) row)
                  else (Min (set row), Max (set row))
      | None \<Rightarrow> (Min (set row), Max (set row)))"

section \<open>Definitions: tile stores and dequantisation\<close>

record k_store =
  q_packed_K :: "byte list list"
  s_col_K :: "real list"
  zp_K :: "real list"
  s_row_K :: "real list"

record v_store =
  q_packed_V :: "byte list list"
  s_col_V :: "real list"
  s_row_V :: "real list"
  zp_V :: "real list"

definition kvarn_store_tile_k :: "(real \<Rightarrow> real) \<Rightarrow> tile \<Rightarrow> nat \<Rightarrow> nat \<Rightarrow> k_store res" where
  "kvarn_store_tile_k to16 m bits iters =
     bind_res (py_assert (bits = 4)) (\<lambda>_.
       case variance_normalize m iters of (balanced, s_tok, s_chan) \<Rightarrow>
         bind_res (asymmetric_rtn_per_row balanced bits) (\<lambda>rows.
           bind_res (map_res (\<lambda>(q, _, _). pack_4bit q) rows) (\<lambda>packed.
             Inr \<lparr>q_packed_K = packed,
                  s_col_K = map2 (\<lambda>s (_, sc, _). to16 (s * sc)) s_chan rows,
                  zp_K = map2 (\<lambda>s (_, _, zp). to16 (s * zp)) s_chan rows,
                  s_row_K = map to16 s_tok\<rparr>)))"

definition kvarn_store_tile_v :: "(real \<Rightarrow> real) \<Rightarrow> tile \<Rightarrow> nat \<Rightarrow> nat \<Rightarrow> v_store res" where
  "kvarn_store_tile_v to16 m bits iters =
     bind_res (py_assert (bits = 4)) (\<lambda>_.
       case variance_normalize m iters of (balanced, s_chan, s_tok) \<Rightarrow>
         bind_res (asymmetric_rtn_per_row balanced bits) (\<lambda>rows.
           bind_res (map_res (\<lambda>(q, _, _). pack_4bit q) rows) (\<lambda>packed.
             Inr \<lparr>q_packed_V = packed,
                  s_col_V = map to16 s_chan,
                  s_row_V = map2 (\<lambda>s (_, sc, _). to16 (s * sc)) s_tok rows,
                  zp_V = map2 (\<lambda>s (_, _, zp). to16 (s * zp)) s_tok rows\<rparr>)))"

text \<open>One tile of the batched stores; the batch is a list of tiles.\<close>

definition batch_rows ::
  "(real \<Rightarrow> real list \<Rightarrow> real) \<Rightarrow> real option \<Rightarrow> tile \<Rightarrow> nat \<Rightarrow> (int list \<times> real \<times> real) list res" where
  "batch_rows quantile env_q balanced bits =
     (if balanced \<noteq> [] \<and> tile_cols balanced = 0 then Inl IndexError
      else Inr (map (\<lambda>row. case rtn_range quantile env_q row of (lo, hi) \<Rightarrow>
                   quant_row bits lo hi row) balanced))"

definition kvarn_store_tile_k_batch_from_sinkhorn ::
  "(real \<Rightarrow> real list \<Rightarrow> real) \<Rightarrow> real option \<Rightarrow> (real \<Rightarrow> real) \<Rightarrow>
   (tile \<times> real list \<times> real list) list \<Rightarrow> nat \<Rightarrow> k_store list res" where
  "kvarn_store_tile_k_batch_from_sinkhorn quantile env_q to16 batch bits =
     map_res (\<lambda>(balanced, s_col, s_row).
       bind_res (batch_rows quantile env_q balanced bits) (\<lambda>rows.
         bind_res (map_res (\<lambda>(q, _, _). pack_lowbit q bits) rows) (\<lambda>packed.
           Inr \<lparr>q_packed_K = packed,
                s_col_K = map2 (\<lambda>s (_, sc, _). to16 (s * sc)) s_row rows,
                zp_K = map2 (\<lambda>s (_, _, zp). to16 (s * zp)) s_row rows,
                s_row_K = map to16 s_col\<rparr>))) batch"

definition kvarn_store_tile_v_batch_from_sinkhorn ::
  "(real \<Rightarrow> real list \<Rightarrow> real) \<Rightarrow> real option \<Rightarrow> (real \<Rightarrow> real) \<Rightarrow>
   (tile \<times> real list \<times> real list) list \<Rightarrow> nat \<Rightarrow> v_store list res" where
  "kvarn_store_tile_v_batch_from_sinkhorn quantile env_q to16 batch bits =
     map_res (\<lambda>(balanced, s_col, s_row).
       bind_res (batch_rows quantile env_q balanced bits) (\<lambda>rows.
         bind_res (map_res (\<lambda>(q, _, _). pack_lowbit q bits) rows) (\<lambda>packed.
           Inr \<lparr>q_packed_V = packed,
                s_col_V = map to16 s_col,
                s_row_V = map2 (\<lambda>s (_, sc, _). to16 (s * sc)) s_row rows,
                zp_V = map2 (\<lambda>s (_, _, zp). to16 (s * zp)) s_row rows\<rparr>))) batch"

text \<open>\<open>(q * a + z) * b\<close> with \<open>a\<close>, \<open>z\<close> per row and \<open>b\<close> per column.\<close>

definition dequant_rows :: "byte list list \<Rightarrow> real list \<Rightarrow> real list \<Rightarrow> real list \<Rightarrow> tile" where
  "dequant_rows qs a z b =
     map2 (\<lambda>q (ar, zr). map2 (\<lambda>w bc. (of_int (uint w) * ar + zr) * bc) q b) qs (zip a z)"

definition kvarn_dequant_tile_k ::
  "byte list list \<Rightarrow> real list \<Rightarrow> real list \<Rightarrow> real list \<Rightarrow> nat \<Rightarrow> nat \<Rightarrow> tile res" where
  "kvarn_dequant_tile_k packed s_col zp s_row grp bits =
     bind_res (map_res (\<lambda>p. unpack_lowbit p grp bits) packed) (\<lambda>q.
       Inr (dequant_rows q s_col zp s_row))"

definition kvarn_dequant_tile_v ::
  "byte list list \<Rightarrow> real list \<Rightarrow> real list \<Rightarrow> real list \<Rightarrow> nat \<Rightarrow> nat \<Rightarrow> tile res" where
  "kvarn_dequant_tile_v packed s_col s_row zp hdim bits =
     bind_res (map_res (\<lambda>p. unpack_lowbit p hdim bits) packed) (\<lambda>q.
       Inr (dequant_rows q s_row zp s_col))"

section \<open>Shapes\<close>

definition rect :: "nat \<Rightarrow> tile \<Rightarrow> bool" where
  "rect C m \<longleftrightarrow> m \<noteq> [] \<and> 0 < C \<and> (\<forall>row \<in> set m. length row = C)"

lemma rect_cols: "rect C m \<Longrightarrow> tile_cols m = C"
  by (cases m) (auto simp: rect_def tile_cols_def)

lemma rect_nth: "rect C m \<Longrightarrow> r < length m \<Longrightarrow> length (m ! r) = C"
  by (simp add: rect_def)

lemma length_columns: "rect C m \<Longrightarrow> length (columns m) = C"
  by (simp add: columns_def rect_cols)

lemma length_div_scales [simp]: "length (div_scales m sc sr) = min (length m) (length sr)"
  by (simp add: div_scales_def)

lemma nth_div_scales:
  assumes "rect C m" "length sc = C" "length sr = length m" "r < length m"
  shows "div_scales m sc sr ! r = map2 (\<lambda>x s. x / s / sr ! r) (m ! r) sc"
  using assms by (simp add: div_scales_def)

lemma rect_div_scales:
  assumes "rect C m" "length sc = C" "length sr = length m"
  shows "rect C (div_scales m sc sr)"
proof -
  have "length (div_scales m sc sr ! r) = C" if "r < length m" for r
    using that assms by (simp add: nth_div_scales rect_nth)
  then show ?thesis
    using assms by (auto simp: rect_def in_set_conv_nth div_scales_def)
qed

lemma div_scales_cell:
  assumes "rect C m" "length sc = C" "length sr = length m" "r < length m" "c < C"
  shows "div_scales m sc sr ! r ! c = m ! r ! c / sc ! c / sr ! r"
  using assms by (simp add: nth_div_scales rect_nth)

lemma div_scales_one:
  assumes "rect C m"
  shows "div_scales m (replicate C 1) (replicate (length m) 1) = m"
proof (rule nth_equalityI)
  show "div_scales m (replicate C 1) (replicate (length m) 1) ! r = m ! r"
    if "r < length (div_scales m (replicate C 1) (replicate (length m) 1))" for r
    using that assms by (intro nth_equalityI) (simp_all add: nth_div_scales rect_nth)
qed simp

section \<open>Variance normalisation keeps the tile\<close>

definition log_ok :: "nat \<Rightarrow> real list \<Rightarrow> bool" where
  "log_ok n ls \<longleftrightarrow> length ls = n \<and> (\<forall>l \<in> set ls. LOG_S_MIN \<le> l \<and> l \<le> LOG_S_MAX)"

definition scale_ok :: "nat \<Rightarrow> real list \<Rightarrow> bool" where
  "scale_ok n ss \<longleftrightarrow> length ss = n \<and> (\<forall>s \<in> set ss. exp LOG_S_MIN \<le> s \<and> s \<le> exp LOG_S_MAX)"

lemma scale_ok_exp: "log_ok n ls \<Longrightarrow> scale_ok n (map exp ls)"
  by (auto simp: log_ok_def scale_ok_def)

lemma log_ok_zero: "log_ok n (replicate n 0)"
  by (simp add: log_ok_def LOG_S_MIN_def LOG_S_MAX_def)

lemma log_ok_update: "length logs = n \<Longrightarrow> length vecs = n \<Longrightarrow> log_ok n (log_update logs vecs)"
  by (auto simp: log_ok_def log_update_def clamp_def LOG_S_MIN_def LOG_S_MAX_def set_zip)

definition sink_inv :: "nat \<Rightarrow> tile \<Rightarrow> sink_state \<Rightarrow> bool" where
  "sink_inv C m s \<longleftrightarrow>
     log_ok C (log_s_col s) \<and> log_ok (length m) (log_s_row s) \<and> rect C (cur s) \<and>
     length (cur s) = length m \<and> scale_ok C (sc_best s) \<and> scale_ok (length m) (sr_best s) \<and>
     imb_best s = imbalance (div_scales m (sc_best s) (sr_best s)) \<and> imb_best s \<le> imbalance m"

lemma sink_inv_init: "rect C m \<Longrightarrow> sink_inv C m (sink_init m)"
  by (simp add: sink_inv_def sink_init_def Let_def rect_cols div_scales_one log_ok_zero
      scale_ok_exp [OF log_ok_zero, simplified])

lemma sink_pass_shape:
  assumes "rect C m" "sink_inv C m s"
  shows "log_ok C (log_s_col (sink_pass m s))" "log_ok (length m) (log_s_row (sink_pass m s))"
    "rect C (cur (sink_pass m s))" "length (cur (sink_pass m s)) = length m"
    "cur (sink_pass m s) =
       div_scales m (map exp (log_s_col (sink_pass m s))) (map exp (log_s_row (sink_pass m s)))"
    "imb_best (sink_pass m s) = imb_best s" "sc_best (sink_pass m s) = sc_best s"
    "sr_best (sink_pass m s) = sr_best s"
proof -
  let ?lc = "log_update (log_s_col s) (columns (cur s))"
  have lc: "log_ok C ?lc"
    using assms(2) by (intro log_ok_update) (simp_all add: sink_inv_def log_ok_def length_columns)
  have rl: "length (log_s_row s) = length m"
    using assms(2) by (simp add: sink_inv_def log_ok_def)
  let ?c1 = "div_scales m (map exp ?lc) (map exp (log_s_row s))"
  have lr: "log_ok (length m) (log_update (log_s_row s) ?c1)"
    using rl by (intro log_ok_update) simp_all
  have "rect C (div_scales m (map exp ?lc) (map exp (log_update (log_s_row s) ?c1)))"
    using assms(1) lc lr by (intro rect_div_scales) (simp_all add: log_ok_def)
  with lc lr rl show "log_ok C (log_s_col (sink_pass m s))"
    "log_ok (length m) (log_s_row (sink_pass m s))"
    "rect C (cur (sink_pass m s))" "length (cur (sink_pass m s)) = length m"
    "cur (sink_pass m s) =
       div_scales m (map exp (log_s_col (sink_pass m s))) (map exp (log_s_row (sink_pass m s)))"
    "imb_best (sink_pass m s) = imb_best s" "sc_best (sink_pass m s) = sc_best s"
    "sr_best (sink_pass m s) = sr_best s"
    by (simp_all add: sink_pass_def Let_def log_ok_def)
qed

lemma sink_inv_iter:
  assumes "rect C m" "sink_inv C m s"
  shows "sink_inv C m (sink_iter m s)"
proof -
  note sh = sink_pass_shape [OF assms]
  have "scale_ok C (map exp (log_s_col (sink_pass m s)))"
    "scale_ok (length m) (map exp (log_s_row (sink_pass m s)))"
    using sh(1,2) by (simp_all add: scale_ok_exp)
  moreover have "imb_best s \<le> imbalance m" using assms(2) by (simp add: sink_inv_def)
  ultimately show ?thesis
    using assms(2) sh by (simp add: sink_inv_def sink_iter_def Let_def)
qed

lemma sink_inv_iters: "rect C m \<Longrightarrow> sink_inv C m ((sink_iter m ^^ n) (sink_init m))"
  by (induction n) (simp_all add: sink_inv_init sink_inv_iter)

lemma scale_ok_pos: "scale_ok n ss \<Longrightarrow> i < n \<Longrightarrow> 0 < ss ! i"
  by (metis scale_ok_def exp_gt_zero less_le_trans nth_mem)

lemma variance_normalize_facts:
  assumes "rect C m" and "variance_normalize m n = (bal, sc, sr)"
  shows "bal = div_scales m sc sr" "scale_ok C sc" "scale_ok (length m) sr"
    "imbalance bal \<le> imbalance m" "rect C bal" "length bal = length m"
proof -
  note inv = sink_inv_iters [OF assms(1), of n]
  show bal: "bal = div_scales m sc sr" and sc: "scale_ok C sc" and sr: "scale_ok (length m) sr"
    and "imbalance bal \<le> imbalance m"
    using inv assms(2) by (auto simp: variance_normalize_def Let_def sink_inv_def)
  then show "rect C bal" "length bal = length m"
    using assms(1) by (simp_all add: rect_div_scales scale_ok_def)
qed

lemma variance_normalize_cell:
  assumes "rect C m" "variance_normalize m n = (bal, sc, sr)" "r < length m" "c < C"
  shows "bal ! r ! c * sc ! c * sr ! r = m ! r ! c"
proof -
  note f = variance_normalize_facts [OF assms(1,2)]
  have "bal ! r ! c = m ! r ! c / sc ! c / sr ! r"
    using f(2,3) assms by (simp add: f(1) div_scales_cell scale_ok_def)
  moreover have "0 < sc ! c" "0 < sr ! r" using f(2,3) assms by (simp_all add: scale_ok_pos)
  ultimately show ?thesis by simp
qed

text \<open>
  Property C24. Variance normalisation is lossless and never makes a tile worse: for every
  iteration count the balanced tile times its column and row scales is the tile, every scale lies in
  the clipping range, and the imbalance of the result is at most that of the input (the best state
  seen is returned, not the last).
\<close>

theorem variance_normalize_lossless:
  assumes "rect C m" and "variance_normalize m n = (bal, sc, sr)"
  shows "(\<forall>r < length m. \<forall>c < C. bal ! r ! c * sc ! c * sr ! r = m ! r ! c) \<and>
    (\<forall>s \<in> set sc \<union> set sr. exp LOG_S_MIN \<le> s \<and> s \<le> exp LOG_S_MAX) \<and>
    length sc = C \<and> length sr = length m \<and> imbalance bal \<le> imbalance m"
  using variance_normalize_cell [OF assms] variance_normalize_facts [OF assms]
  by (auto simp: scale_ok_def)

theorem variance_normalize_lossless_witness:
  "\<exists>bal sc sr. variance_normalize [[1, 2], [3, 5]] 8 = (bal, sc, sr) \<and>
     (\<forall>r < 2. \<forall>c < 2. bal ! r ! c * sc ! c * sr ! r = [[1, 2], [3, 5]] ! r ! c)"
proof -
  obtain bal sc sr where v: "variance_normalize [[1, 2], [3, 5]] 8 = (bal, sc, sr)"
    by (cases "variance_normalize [[1, 2], [3, 5]] 8") auto
  have "rect 2 [[1, 2], [3, 5]]" by (simp add: rect_def)
  from variance_normalize_lossless [OF this v] v show ?thesis by simp
qed

section \<open>The batched variant is the single-tile routine\<close>

lemma blend_1: "length new = length old \<Longrightarrow> blend 1 new old = new"
  by (rule nth_equalityI) (simp_all add: blend_def)

lemma blend_0: "length new = length old \<Longrightarrow> blend 0 new old = old"
  by (rule nth_equalityI) (simp_all add: blend_def)

text \<open>One tile's share of a batched iteration, given whether the selection runs.\<close>

lemma sink_iter_select:
  assumes "rect C m" "sink_inv C m s"
  shows "(let s' = sink_pass m s; i = imbalance (cur s'); b = (i \<le> imb_best s');
              msk = (if b then 1 else 0)
          in s'\<lparr>sc_best := blend msk (map exp (log_s_col s')) (sc_best s'),
                sr_best := blend msk (map exp (log_s_row s')) (sr_best s'),
                imb_best := (if b then i else imb_best s')\<rparr>) = sink_iter m s"
proof -
  note sh = sink_pass_shape [OF assms]
  have "length (map exp (log_s_col (sink_pass m s))) = length (sc_best (sink_pass m s))"
    "length (map exp (log_s_row (sink_pass m s))) = length (sr_best (sink_pass m s))"
    using sh(1,2,7,8) assms(2) by (simp_all add: sink_inv_def log_ok_def scale_ok_def)
  then show ?thesis
    by (simp add: sink_iter_def Let_def blend_1 blend_0)
qed

lemma sink_iter_batched_eq:
  assumes "length ss = length ms"
    and "\<And>i. i < length ms \<Longrightarrow> rect (C i) (ms ! i) \<and> sink_inv (C i) (ms ! i) (ss ! i)"
  shows "sink_iter_batched ms ss = map2 sink_iter ms ss"
proof (cases "list_ex id (map2 (\<lambda>i s. i \<le> imb_best s)
    (map (imbalance \<circ> cur) (map2 sink_pass ms ss)) (map2 sink_pass ms ss))")
  case True
  show ?thesis
  proof (rule nth_equalityI)
    show "sink_iter_batched ms ss ! i = map2 sink_iter ms ss ! i"
      if "i < length (sink_iter_batched ms ss)" for i
    proof -
      have i: "i < length ms" using that True assms(1) by (simp add: sink_iter_batched_def Let_def)
      show ?thesis
        using sink_iter_select [of "C i" "ms ! i" "ss ! i"] assms i True
        by (simp add: sink_iter_batched_def Let_def)
    qed
  qed (use True assms(1) in \<open>simp add: sink_iter_batched_def Let_def\<close>)
next
  case False
  then have worse: "\<not> imbalance (cur (sink_pass (ms ! i) (ss ! i))) \<le> imb_best (sink_pass (ms ! i) (ss ! i))"
    if "i < length ms" for i
    using that assms(1) by (simp add: list_ex_length)
  from False have "sink_iter_batched ms ss = map2 sink_pass ms ss"
    by (simp add: sink_iter_batched_def Let_def)
  also have "\<dots> = map2 sink_iter ms ss"
    using worse assms(1) by (intro nth_equalityI) (simp_all add: sink_iter_def Let_def)
  finally show ?thesis .
qed

lemma sink_iters_batched_eq:
  assumes "\<And>i. i < length ms \<Longrightarrow> rect (C i) (ms ! i)"
  shows "(sink_iter_batched ms ^^ n) (map sink_init ms) =
    map (\<lambda>m. (sink_iter m ^^ n) (sink_init m)) ms"
proof (induction n)
  case 0
  then show ?case by simp
next
  case (Suc n)
  let ?ss = "map (\<lambda>m. (sink_iter m ^^ n) (sink_init m)) ms"
  have "sink_iter_batched ms ?ss = map2 sink_iter ms ?ss"
    by (rule sink_iter_batched_eq [where C = C]) (simp_all add: assms sink_inv_iters)
  also have "\<dots> = map (\<lambda>m. sink_iter m ((sink_iter m ^^ n) (sink_init m))) ms"
    by (rule nth_equalityI) simp_all
  finally show ?case using Suc by simp
qed

lemma variance_normalize_batched_map:
  assumes "\<forall>m \<in> set ms. \<exists>C. rect C m"
  shows "variance_normalize_batched ms n = map (\<lambda>m. variance_normalize m n) ms"
proof -
  define C where "C = (\<lambda>i. tile_cols (ms ! i))"
  have "rect (C i) (ms ! i)" if "i < length ms" for i
    using assms that by (auto simp: C_def dest!: nth_mem rect_cols) (metis rect_cols nth_mem)
  then have "(sink_iter_batched ms ^^ n) (map sink_init ms) =
      map (\<lambda>m. (sink_iter m ^^ n) (sink_init m)) ms"
    by (rule sink_iters_batched_eq)
  then show ?thesis
    by (intro nth_equalityI)
      (simp_all add: variance_normalize_batched_def variance_normalize_def Let_def)
qed

text \<open>
  Property C25. The batched normalisation, with its arithmetic masks and its shared early-out,
  computes on every tile of the batch exactly what the single-tile routine computes on that tile
  alone.
\<close>

theorem variance_normalize_batched_eq:
  assumes "\<forall>m \<in> set ms. \<exists>C. rect C m"
  shows "variance_normalize_batched ms n = map (\<lambda>m. variance_normalize m n) ms"
  using assms by (rule variance_normalize_batched_map)

theorem variance_normalize_batched_eq_witness:
  "variance_normalize_batched [[[1, 2], [3, 5]], [[0, 7]]] 3 =
   [variance_normalize [[1, 2], [3, 5]] 3, variance_normalize [[0, 7]] 3]"
proof -
  have "\<forall>m \<in> set [[[1, 2], [3, 5]], [[0, 7]]]. \<exists>C. rect C m"
    by (auto simp: rect_def)
  from variance_normalize_batched_eq [OF this, of 3] show ?thesis by simp
qed

section \<open>Round to nearest\<close>

lemma round_even_error: "\<bar>of_int (round_even x) - x\<bar> \<le> 1 / 2"
  unfolding round_even_def Let_def by (auto split: if_splits)

lemma round_even_bounds:
  assumes "0 \<le> x" "x \<le> of_int n"
  shows "0 \<le> round_even x" "round_even x \<le> n"
proof -
  have e: "of_int (round_even x) - x \<le> 1 / 2" "x - of_int (round_even x) \<le> 1 / 2"
    using round_even_error [of x] by linarith+
  then have "- 1 < (of_int (round_even x) :: real)" "(of_int (round_even x) :: real) < of_int (n + 1)"
    using assms by simp_all
  then show "0 \<le> round_even x" "round_even x \<le> n" by linarith+
qed

lemma quant_row_scale_pos: "quant_row bits lo hi row = (q, sc, z) \<Longrightarrow> 0 < sc \<and> z = lo"
  by (auto simp: quant_row_def Let_def less_max_iff_disj)

lemma quant_row_codes:
  assumes "quant_row bits lo hi row = (q, sc, z)" "i < length row"
  shows "length q = length row" "0 \<le> q ! i" "q ! i < 2 ^ bits"
proof -
  have "(0::int) \<le> 2 ^ bits - 1" by simp
  then show "length q = length row" "0 \<le> q ! i" "q ! i < 2 ^ bits"
    using assms by (auto simp: quant_row_def Let_def)
qed

text \<open>For values between \<open>lo\<close> and \<open>hi\<close> the clamp is idle and the error is half a step.\<close>

lemma quant_row_error:
  assumes q: "quant_row bits lo hi row = (q, sc, z)" and i: "i < length row"
    and rng: "lo \<le> row ! i" "row ! i \<le> hi" and bits: "0 < bits"
  shows "\<bar>of_int (q ! i) * sc + z - row ! i\<bar> \<le> sc / 2"
proof -
  define qmax :: int where "qmax = 2 ^ bits - 1"
  have "(2::int) ^ 1 \<le> 2 ^ bits" by (rule power_increasing) (use bits in auto)
  then have qm: "1 \<le> qmax" by (simp add: qmax_def)
  have sc: "sc = max ((hi - lo) / of_int qmax) (1 / 10 ^ 10)" and z: "z = lo"
    and qi: "q ! i = min (max (round_even ((row ! i - lo) / sc)) 0) qmax"
    using q i by (auto simp: quant_row_def Let_def qmax_def)
  have scpos: "0 < sc" by (simp add: sc less_max_iff_disj)
  let ?x = "(row ! i - lo) / sc"
  have "(hi - lo) / of_int qmax \<le> sc" by (simp add: sc)
  then have "hi - lo \<le> sc * of_int qmax" using qm by (simp add: pos_divide_le_eq)
  then have "0 \<le> ?x" "?x \<le> of_int qmax"
    using rng scpos by (simp_all add: pos_divide_le_eq mult.commute)
  then have "q ! i = round_even ?x" using round_even_bounds [of ?x qmax] by (simp add: qi)
  then have "\<bar>of_int (q ! i) - ?x\<bar> \<le> 1 / 2" using round_even_error [of ?x] by simp
  then have "\<bar>of_int (q ! i) - ?x\<bar> * sc \<le> 1 / 2 * sc" using scpos by (intro mult_right_mono) simp_all
  also have "\<bar>of_int (q ! i) - ?x\<bar> * sc = \<bar>(of_int (q ! i) - ?x) * sc\<bar>"
    using scpos by (simp add: abs_mult)
  also have "(of_int (q ! i) - ?x) * sc = of_int (q ! i) * sc - ?x * sc"
    by (rule left_diff_distrib)
  also have "\<dots> = of_int (q ! i) * sc + z - row ! i" using scpos by (simp add: z)
  finally show ?thesis by simp
qed

section \<open>Storing and dequantising a tile\<close>

lemma pack_rows:
  assumes bits: "0 < bits" "bits \<le> 8" and C: "C mod (8 div bits) = 0"
    and rows: "\<forall>(q, _, _) \<in> set rows. length q = C \<and> (\<forall>x \<in> set q. 0 \<le> x \<and> x < 2 ^ bits)"
  shows "\<exists>ps us. map_res (\<lambda>(q, _, _). pack_lowbit q bits) rows = Inr ps \<and>
    map_res (\<lambda>p. unpack_lowbit p C bits) ps = Inr us \<and> map (map uint) us = map fst rows \<and>
    length ps = length rows \<and> (\<forall>p \<in> set ps. length p = C div (8 div bits))"
  using rows
proof (induction rows)
  case Nil
  then show ?case by simp
next
  case (Cons row rows)
  obtain q a b where row: "row = (q, a, b)" by (cases row) auto
  from Cons.prems row have len: "length q = C" and rng: "\<forall>x \<in> set q. 0 \<le> x \<and> x < 2 ^ bits" by auto
  from unpack_pack_row [OF bits, of q] C len obtain p u where
    p: "pack_lowbit q bits = Inr p" "unpack_lowbit p C bits = Inr u" "length p = C div (8 div bits)"
    and u: "map uint u = map (\<lambda>x. x mod 2 ^ bits) q" by auto
  have "map (\<lambda>x. x mod 2 ^ bits) q = q" using rng by (intro map_idI) auto
  moreover have "\<forall>(q, _, _) \<in> set rows. length q = C \<and> (\<forall>x \<in> set q. 0 \<le> x \<and> x < 2 ^ bits)"
    using Cons.prems by simp
  with Cons.IH obtain ps us where "map_res (\<lambda>(q, _, _). pack_lowbit q bits) rows = Inr ps"
    "map_res (\<lambda>p. unpack_lowbit p C bits) ps = Inr us" "map (map uint) us = map fst rows"
    "length ps = length rows" "\<forall>p \<in> set ps. length p = C div (8 div bits)" by blast
  ultimately have "map_res (\<lambda>(q, _, _). pack_lowbit q bits) (row # rows) = Inr (p # ps) \<and>
      map_res (\<lambda>p. unpack_lowbit p C bits) (p # ps) = Inr (u # us) \<and>
      map (map uint) (u # us) = map fst (row # rows) \<and> length (p # ps) = length (row # rows) \<and>
      (\<forall>p \<in> set (p # ps). length p = C div (8 div bits))"
    using p u row by simp
  then show ?case by blast
qed

lemma dequant_rows_cell:
  assumes "map (map uint) us = qs" "r < length qs" "length a = length qs" "length z = length qs"
    "c < length (qs ! r)" "length b = length (qs ! r)"
  shows "dequant_rows us a z b ! r ! c = (of_int (qs ! r ! c) * a ! r + z ! r) * b ! c"
proof -
  have "length us = length qs" "length (us ! r) = length (qs ! r)"
    "uint (us ! r ! c) = qs ! r ! c"
    using assms(1,2,5) by (auto dest: map_eq_imp_length_eq)
  then show ?thesis using assms by (simp add: dequant_rows_def del: of_int_uint)
qed

lemma rect_dequant:
  assumes "length us = n" "0 < n" "\<forall>u \<in> set us. length u = C" "0 < C"
    "length a = n" "length z = n" "length b = C"
  shows "rect C (dequant_rows us a z b)" "length (dequant_rows us a z b) = n"
  using assms by (auto simp: dequant_rows_def rect_def set_zip)

definition rtn_step :: "nat \<Rightarrow> real list \<Rightarrow> real" where
  "rtn_step bits row = max ((Max (set row) - Min (set row)) / of_int (2 ^ bits - 1)) (1 / 10 ^ 10)"

text \<open>
  The bound on one cell with scales \<open>s\<close> (row) and \<open>t\<close> (column): half a quantisation step, plus
  the rounding of the three stored scales when the cast \<open>to16\<close> errs by at most \<open>\<delta> * \<bar>x\<bar> + \<eta>\<close>.
  For IEEE half precision \<open>\<delta> = 1 / 2 ^ 11\<close> and \<open>\<eta> = 1 / 2 ^ 25\<close> up to magnitude 65504, so
  subnormal scales are covered.
\<close>

definition cell_bound :: "real \<Rightarrow> real \<Rightarrow> nat \<Rightarrow> real list \<Rightarrow> real \<Rightarrow> real \<Rightarrow> real" where
  "cell_bound \<delta> \<eta> bits row s t =
     (let B = s * (of_int (2 ^ bits - 1) * rtn_step bits row + \<bar>Min (set row)\<bar>)
      in rtn_step bits row / 2 * (s * t) +
         ((\<delta> * B + 2 ^ bits * \<eta>) * ((1 + \<delta>) * t + \<eta>) + B * (\<delta> * t + \<eta>)))"

text \<open>The scales of a tile that are cast to fp16 when it is stored.\<close>

definition stored_scales :: "nat \<Rightarrow> tile \<Rightarrow> real list \<Rightarrow> real list \<Rightarrow> real list" where
  "stored_scales bits bal sc sr =
     sc @ map2 (\<lambda>s row. s * rtn_step bits row) sr bal @ map2 (\<lambda>s row. s * Min (set row)) sr bal"

lemma stored_scale_error:
  fixes q qm S z s t :: real
  assumes err: "\<bar>a - s * S\<bar> \<le> \<delta> * \<bar>s * S\<bar> + \<eta>" "\<bar>b - s * z\<bar> \<le> \<delta> * \<bar>s * z\<bar> + \<eta>"
      "\<bar>u - t\<bar> \<le> \<delta> * \<bar>t\<bar> + \<eta>"
    and pos: "0 \<le> q" "q \<le> qm" "0 \<le> S" "0 < s" "0 < t" "0 \<le> \<delta>" "0 \<le> \<eta>"
  defines "B \<equiv> s * (qm * S + \<bar>z\<bar>)"
  shows "\<bar>(q * a + b) * u - (q * S + z) * s * t\<bar>
    \<le> (\<delta> * B + (qm + 1) * \<eta>) * ((1 + \<delta>) * t + \<eta>) + B * (\<delta> * t + \<eta>)"
proof -
  define x where "x = q * (s * S) + s * z"
  define y where "y = q * a + b"
  have "y - x = q * (a - s * S) + (b - s * z)" by (simp add: x_def y_def algebra_simps)
  also have "\<bar>\<dots>\<bar> \<le> q * \<bar>a - s * S\<bar> + \<bar>b - s * z\<bar>"
    using abs_triangle_ineq [of "q * (a - s * S)"] pos by (simp add: abs_mult)
  also have "\<dots> \<le> qm * (\<delta> * \<bar>s * S\<bar> + \<eta>) + (\<delta> * \<bar>s * z\<bar> + \<eta>)"
    using err pos by (intro add_mono mult_mono) auto
  also have "\<dots> = \<delta> * B + (qm + 1) * \<eta>" using pos by (simp add: B_def abs_mult algebra_simps)
  finally have yx: "\<bar>y - x\<bar> \<le> \<delta> * B + (qm + 1) * \<eta>" .
  have qS: "q * (s * S) \<le> qm * (s * S)" using pos by (intro mult_right_mono) auto
  have "\<bar>x\<bar> \<le> q * (s * S) + s * \<bar>z\<bar>"
    using abs_triangle_ineq [of "q * (s * S)" "s * z"] pos by (simp add: x_def abs_mult)
  also have "\<dots> \<le> B" using qS by (simp add: B_def algebra_simps)
  finally have x: "\<bar>x\<bar> \<le> B" .
  have tt: "\<bar>u - t\<bar> \<le> \<delta> * t + \<eta>" using err(3) pos by simp
  then have u: "\<bar>u\<bar> \<le> (1 + \<delta>) * t + \<eta>" using pos by (simp add: algebra_simps)
  have B0: "0 \<le> B" using x by linarith
  have "\<bar>y * u - x * t\<bar> = \<bar>(y - x) * u + x * (u - t)\<bar>" by (simp add: algebra_simps)
  also have "\<dots> \<le> \<bar>y - x\<bar> * \<bar>u\<bar> + \<bar>x\<bar> * \<bar>u - t\<bar>"
    by (metis abs_mult abs_triangle_ineq)
  also have "\<dots> \<le> (\<delta> * B + (qm + 1) * \<eta>) * ((1 + \<delta>) * t + \<eta>) + B * (\<delta> * t + \<eta>)"
    using yx u x tt B0 pos by (intro add_mono mult_mono) auto
  also have "x * t = (q * S + z) * s * t" by (simp add: x_def algebra_simps)
  finally show ?thesis by (simp add: y_def)
qed

lemma cell_error:
  assumes q: "quant_row bits (Min (set row)) (Max (set row)) row = (q, S, z)"
    and c: "c < length row" and bits: "0 < bits"
    and err: "\<bar>a - s * S\<bar> \<le> \<delta> * \<bar>s * S\<bar> + \<eta>" "\<bar>b - s * z\<bar> \<le> \<delta> * \<bar>s * z\<bar> + \<eta>"
      "\<bar>u - t\<bar> \<le> \<delta> * \<bar>t\<bar> + \<eta>"
    and pos: "0 < s" "0 < t" "0 \<le> \<delta>" "0 \<le> \<eta>"
  shows "\<bar>(of_int (q ! c) * a + b) * u - row ! c * s * t\<bar> \<le> cell_bound \<delta> \<eta> bits row s t"
proof -
  have S: "S = rtn_step bits row" and z: "z = Min (set row)"
    using q by (auto simp: quant_row_def Let_def rtn_step_def)
  have S0: "0 < S" using quant_row_scale_pos [OF q] by simp
  note codes = quant_row_codes [OF q c]
  let ?q = "of_int (q ! c) :: real"
  let ?qm = "of_int (2 ^ bits - 1) :: real"
  have "q ! c \<le> 2 ^ bits - 1" using codes(3) by simp
  then have qm: "?q \<le> ?qm" by (rule iffD2 [OF of_int_le_iff])
  have "\<bar>?q * S + z - row ! c\<bar> \<le> S / 2" using c by (intro quant_row_error [OF q c _ _ bits]) auto
  then have "\<bar>?q * S + z - row ! c\<bar> * (s * t) \<le> S / 2 * (s * t)" using pos by (intro mult_right_mono) auto
  also have "\<bar>?q * S + z - row ! c\<bar> * (s * t) = \<bar>(?q * S + z) * s * t - row ! c * s * t\<bar>"
    using pos by (simp add: abs_mult flip: left_diff_distrib)
  finally have "\<bar>(?q * S + z) * s * t - row ! c * s * t\<bar> \<le> S / 2 * (s * t)" .
  moreover have "0 \<le> ?q" using codes by simp
  note stored_scale_error [OF err this qm _ pos(1,2,3,4)]
  moreover have "?qm + 1 = 2 ^ bits" by simp
  ultimately show ?thesis using S0 unfolding cell_bound_def Let_def S z by (smt (verit))
qed

lemma rtn_rows_ok:
  assumes "rect C bal"
  shows "\<forall>(q, _, _) \<in> set (map (\<lambda>row. quant_row bits (Min (set row)) (Max (set row)) row) bal).
    length q = C \<and> (\<forall>x \<in> set q. 0 \<le> x \<and> x < 2 ^ bits)"
proof (rule ballI)
  fix t assume "t \<in> set (map (\<lambda>row. quant_row bits (Min (set row)) (Max (set row)) row) bal)"
  then obtain row where row: "row \<in> set bal"
    and t: "t = quant_row bits (Min (set row)) (Max (set row)) row" by auto
  obtain q sc z where q: "quant_row bits (Min (set row)) (Max (set row)) row = (q, sc, z)"
    by (metis surj_pair)
  have "length row = C" using row assms by (auto simp: rect_def)
  moreover have "length q = length row" using q by (auto simp: quant_row_def Let_def)
  moreover have "0 \<le> x \<and> x < 2 ^ bits" if "x \<in> set q" for x
    using quant_row_codes [OF q] that \<open>length q = length row\<close> by (metis in_set_conv_nth)
  ultimately show "case t of (q, _, _) \<Rightarrow> length q = C \<and> (\<forall>x \<in> set q. 0 \<le> x \<and> x < 2 ^ bits)"
    by (simp add: t q)
qed

text \<open>The part the K and the V path share: quantise, pack, unpack and rescale the rows.\<close>

lemma rows_roundtrip:
  assumes m: "rect C m" and v: "variance_normalize m n = (bal, sc, sr)"
    and bits: "0 < bits" "bits \<le> 8" "C mod (8 div bits) = 0"
    and to16: "\<forall>x \<in> set (stored_scales bits bal sc sr). \<bar>to16 x - x\<bar> \<le> \<delta> * \<bar>x\<bar> + \<eta>"
    and de: "0 \<le> \<delta>" "0 \<le> \<eta>"
  shows "\<exists>rows ps us. batch_rows quantile None bal bits = Inr rows \<and>
    map_res (\<lambda>(q, _, _). pack_lowbit q bits) rows = Inr ps \<and>
    map_res (\<lambda>p. unpack_lowbit p C bits) ps = Inr us \<and>
    length rows = length m \<and> length ps = length m \<and> (\<forall>p \<in> set ps. length p = C div (8 div bits)) \<and>
    length us = length m \<and> (\<forall>u \<in> set us. length u = C) \<and>
    (\<forall>r < length m. \<forall>c < C.
      \<bar>dequant_rows us (map2 (\<lambda>s (_, sc, _). to16 (s * sc)) sr rows)
         (map2 (\<lambda>s (_, _, zp). to16 (s * zp)) sr rows) (map to16 sc) ! r ! c - m ! r ! c\<bar>
      \<le> cell_bound \<delta> \<eta> bits (bal ! r) (sr ! r) (sc ! c))"
proof -
  define rows where "rows = map (\<lambda>row. quant_row bits (Min (set row)) (Max (set row)) row) bal"
  note f = variance_normalize_facts [OF m v]
  from pack_rows [OF bits, of rows] rtn_rows_ok [OF f(5)] obtain ps us where
    ps: "map_res (\<lambda>(q, _, _). pack_lowbit q bits) rows = Inr ps"
    "map_res (\<lambda>p. unpack_lowbit p C bits) ps = Inr us"
    and us: "map (map uint) us = map fst rows" and lps: "length ps = length rows"
    and wps: "\<forall>p \<in> set ps. length p = C div (8 div bits)"
    unfolding rows_def by blast
  have rows: "batch_rows quantile None bal bits = Inr rows"
    using rect_cols [OF f(5)] m by (simp add: batch_rows_def rtn_range_def rows_def rect_def)
  have len: "length rows = length m" "length sr = length m" "length sc = C"
    using f by (simp_all add: rows_def scale_ok_def)
  have "\<bar>dequant_rows us (map2 (\<lambda>s (_, sc, _). to16 (s * sc)) sr rows)
         (map2 (\<lambda>s (_, _, zp). to16 (s * zp)) sr rows) (map to16 sc) ! r ! c - m ! r ! c\<bar>
      \<le> cell_bound \<delta> \<eta> bits (bal ! r) (sr ! r) (sc ! c)" if r: "r < length m" and c: "c < C" for r c
  proof -
    obtain q S z where q: "quant_row bits (Min (set (bal ! r))) (Max (set (bal ! r))) (bal ! r) = (q, S, z)"
      by (metis surj_pair)
    have row: "rows ! r = (q, S, z)" using r f(6) q by (simp add: rows_def)
    have cb: "c < length (bal ! r)" using f(5,6) r c by (simp add: rect_nth)
    then have lq: "length q = C" using quant_row_codes(1) [OF q] f(5,6) r by (simp add: rect_nth)
    have "dequant_rows us (map2 (\<lambda>s (_, sc, _). to16 (s * sc)) sr rows)
        (map2 (\<lambda>s (_, _, zp). to16 (s * zp)) sr rows) (map to16 sc) ! r ! c =
        (of_int (q ! c) * to16 (sr ! r * S) + to16 (sr ! r * z)) * to16 (sc ! c)"
      using r c row lq len by (subst dequant_rows_cell [OF us]) simp_all
    moreover have "m ! r ! c = bal ! r ! c * sr ! r * sc ! c"
      using variance_normalize_cell [OF m v r c] by (simp add: ac_simps)
    moreover have "S = rtn_step bits (bal ! r)" "z = Min (set (bal ! r))"
      using q by (auto simp: quant_row_def Let_def rtn_step_def)
    then have "sr ! r * S \<in> set (stored_scales bits bal sc sr)"
      "sr ! r * z \<in> set (stored_scales bits bal sc sr)" "sc ! c \<in> set (stored_scales bits bal sc sr)"
      using r c f(6) len by (auto simp: stored_scales_def set_zip)
    note e = bspec [OF to16 this(1)] bspec [OF to16 this(2)] bspec [OF to16 this(3)]
    moreover have "0 < sr ! r" "0 < sc ! c" using f(2,3) r c by (simp_all add: scale_ok_pos)
    note cell_error [OF q cb bits(1) e this de]
    ultimately show ?thesis by simp
  qed
  moreover have "length us = length rows" using us by (metis length_map)
  moreover have "length u = C" if "u \<in> set us" for u
  proof -
    have "map uint u \<in> set (map fst rows)" using that by (simp flip: us)
    then show ?thesis using rtn_rows_ok [OF f(5), of bits] by (auto simp flip: rows_def dest!: bspec)
  qed
  ultimately show ?thesis using rows ps lps wps len by metis
qed

text \<open>Both paths of one tile: the stored fields, their shapes and the error of reading them back.\<close>

lemma store_tiles:
  assumes m: "rect C m" and v: "variance_normalize m n = (bal, sc, sr)"
    and bits: "0 < bits" "bits \<le> 8" "C mod (8 div bits) = 0"
    and to16: "\<forall>x \<in> set (stored_scales bits bal sc sr). \<bar>to16 x - x\<bar> \<le> \<delta> * \<bar>x\<bar> + \<eta>"
    and de: "0 \<le> \<delta>" "0 \<le> \<eta>"
  obtains ps a z b K where
    "kvarn_store_tile_k_batch_from_sinkhorn quantile None to16 [(bal, sc, sr)] bits =
       Inr [\<lparr>q_packed_K = ps, s_col_K = map to16 a, zp_K = map to16 z, s_row_K = map to16 b\<rparr>]"
    "kvarn_store_tile_v_batch_from_sinkhorn quantile None to16 [(bal, sc, sr)] bits =
       Inr [\<lparr>q_packed_V = ps, s_col_V = map to16 b, s_row_V = map to16 a, zp_V = map to16 z\<rparr>]"
    "kvarn_dequant_tile_k ps (map to16 a) (map to16 z) (map to16 b) C bits = Inr K"
    "kvarn_dequant_tile_v ps (map to16 b) (map to16 a) (map to16 z) C bits = Inr K"
    "length ps = length m" "\<forall>p \<in> set ps. length p = C div (8 div bits)"
    "length a = length m" "length z = length m" "length b = C" "rect C K" "length K = length m"
    "\<forall>r < length m. \<forall>c < C. \<bar>K ! r ! c - m ! r ! c\<bar> \<le> cell_bound \<delta> \<eta> bits (bal ! r) (sr ! r) (sc ! c)"
proof -
  note f = variance_normalize_facts [OF m v]
  from rows_roundtrip [OF assms] obtain rows ps us where
    st: "batch_rows quantile None bal bits = Inr rows"
    "map_res (\<lambda>(q, _, _). pack_lowbit q bits) rows = Inr ps"
    "map_res (\<lambda>p. unpack_lowbit p C bits) ps = Inr us"
    and shape: "length rows = length m" "length ps = length m" "\<forall>p \<in> set ps. length p = C div (8 div bits)"
      "length us = length m" "\<forall>u \<in> set us. length u = C"
    and err: "\<forall>r < length m. \<forall>c < C.
      \<bar>dequant_rows us (map2 (\<lambda>s (_, sc, _). to16 (s * sc)) sr rows)
         (map2 (\<lambda>s (_, _, zp). to16 (s * zp)) sr rows) (map to16 sc) ! r ! c - m ! r ! c\<bar>
      \<le> cell_bound \<delta> \<eta> bits (bal ! r) (sr ! r) (sc ! c)" by blast
  let ?a = "map2 (\<lambda>s (_, sc, _). s * sc) sr rows" and ?z = "map2 (\<lambda>s (_, _, zp). s * zp) sr rows"
  have a: "map to16 ?a = map2 (\<lambda>s (_, sc, _). to16 (s * sc)) sr rows"
    and z: "map to16 ?z = map2 (\<lambda>s (_, _, zp). to16 (s * zp)) sr rows" by auto
  have len: "length sc = C" "length sr = length m" using f(2,3) by (simp_all add: scale_ok_def)
  then have "rect C (dequant_rows us (map to16 ?a) (map to16 ?z) (map to16 sc))"
    "length (dequant_rows us (map to16 ?a) (map to16 ?z) (map to16 sc)) = length m"
    using shape m by (intro rect_dequant [where n = "length m"]; simp add: rect_def)+
  note shK = this [unfolded a z]
  show thesis
  proof (rule that [of ps ?a ?z sc])
    show "length ?a = length m" "length ?z = length m" "length sc = C" using len shape by simp_all
  qed (use shK st shape err in \<open>simp_all add: kvarn_store_tile_k_batch_from_sinkhorn_def
      kvarn_store_tile_v_batch_from_sinkhorn_def kvarn_dequant_tile_k_def kvarn_dequant_tile_v_def
      a z del: map_map\<close>)
qed



text \<open>
  At four bits with the default range the batched K and V stores, fed with the
  result of the single-tile normalisation, are the reference per-tile stores, errors included.
\<close>

lemma store_batch_eq_single:
  "kvarn_store_tile_k_batch_from_sinkhorn quantile None to16 [variance_normalize m n] 4 =
     bind_res (kvarn_store_tile_k to16 m 4 n) (\<lambda>s. Inr [s]) \<and>
   kvarn_store_tile_v_batch_from_sinkhorn quantile None to16 [variance_normalize m n] 4 =
     bind_res (kvarn_store_tile_v to16 m 4 n) (\<lambda>s. Inr [s])"
proof -
  obtain bal sc sr where v: "variance_normalize m n = (bal, sc, sr)" by (metis surj_pair)
  have "batch_rows quantile None bal 4 = asymmetric_rtn_per_row bal 4"
    by (simp add: batch_rows_def asymmetric_rtn_per_row_def rtn_range_def)
  then show ?thesis
    by (simp add: kvarn_store_tile_k_batch_from_sinkhorn_def kvarn_store_tile_v_batch_from_sinkhorn_def
        kvarn_store_tile_k_def kvarn_store_tile_v_def v pack_lowbit_nibble bind_res_assoc)
qed

end
