(* ===== verification/KVarN_Sinkhorn_Kernel.thy ===== *)
theory KVarN_Sinkhorn_Kernel
  imports KVarN_Quant
begin

text \<open>
  The Triton port of the variance normalisation
  (\<^verbatim>\<open>vllm/v1/attention/ops/triton_kvarn_sinkhorn.py\<close>): one kernel program per tile, with the standard
  deviation computed from the sum and the sum of squares instead of the centred sum, and the driver
  that routes large tiles to the batched PyTorch routine. Over the reals the kernel is proved equal to
  the reference \<^const>\<open>variance_normalize\<close>, pass by pass.
\<close>

section \<open>Definitions\<close>

definition kernel_std :: "real list \<Rightarrow> real" where
  "kernel_std xs =
     (let n = real (length xs);
          mu = sum_list xs / n;
          var = sum_list (map (\<lambda>x. x * x) xs) / n - mu * mu
      in sqrt (max (var * n / (n - 1)) 0))"

definition kernel_imbalance :: "tile \<Rightarrow> real" where
  "kernel_imbalance t =
     (let col_std = map kernel_std (columns t); row_std = map kernel_std t
      in Max (set col_std) / max (Min (set col_std)) (1 / 10 ^ 8)
       + Max (set row_std) / max (Min (set row_std)) (1 / 10 ^ 8))"

definition kernel_log_update :: "real list \<Rightarrow> real list list \<Rightarrow> real list" where
  "kernel_log_update logs vecs =
     map2 (\<lambda>l v. max (min (l + ln (max (min (kernel_std v) CLIP_STD_MAX) CLIP_STD_MIN)) LOG_S_MAX)
                    LOG_S_MIN) logs vecs"

definition kernel_init :: "tile \<Rightarrow> sink_state" where
  "kernel_init t =
     (let lc = replicate (tile_cols t) 0; lr = replicate (length t) 0
      in \<lparr>log_s_col = lc, log_s_row = lr, cur = t, imb_best = kernel_imbalance t,
          sc_best = map exp lc, sr_best = map exp lr\<rparr>)"

definition kernel_iter :: "tile \<Rightarrow> sink_state \<Rightarrow> sink_state" where
  "kernel_iter t s =
     (let lc = kernel_log_update (log_s_col s) (columns (cur s));
          cur1 = div_scales t (map exp lc) (map exp (log_s_row s));
          lr = kernel_log_update (log_s_row s) cur1;
          s_col_lin = map exp lc; s_row_lin = map exp lr;
          cur2 = div_scales t s_col_lin s_row_lin;
          imb = kernel_imbalance cur2;
          better = (imb \<le> imb_best s)
      in s\<lparr>log_s_col := lc, log_s_row := lr, cur := cur2,
           sc_best := (if better then s_col_lin else sc_best s),
           sr_best := (if better then s_row_lin else sr_best s),
           imb_best := (if better then imb else imb_best s)\<rparr>)"

definition sinkhorn_log_kernel :: "tile \<Rightarrow> nat \<Rightarrow> tile \<times> real list \<times> real list" where
  "sinkhorn_log_kernel t iterations =
     (let s = (kernel_iter t ^^ iterations) (kernel_init t)
      in (div_scales t (sc_best s) (sr_best s), sc_best s, sr_best s))"

text \<open>All tiles of a batch have the shape of the first.\<close>

definition kvarn_sinkhorn_triton :: "tile list \<Rightarrow> nat \<Rightarrow> (tile \<times> real list \<times> real list) list" where
  "kvarn_sinkhorn_triton tiles iterations =
     (case tiles of
        [] \<Rightarrow> []
      | t # _ \<Rightarrow> if max (length t) (tile_cols t) > 256 then variance_normalize_batched tiles iterations
                 else map (\<lambda>t. sinkhorn_log_kernel t iterations) tiles)"

section \<open>The two forms of the standard deviation\<close>

lemma sum_list_mult_right: "sum_list (map (\<lambda>x. c * x) xs) = c * sum_list xs" for c :: real
  by (induction xs) (simp_all add: algebra_simps)

lemma sum_sq_centred:
  fixes xs :: "real list"
  shows "sum_list (map (\<lambda>x. (x - c)\<^sup>2) xs) =
    sum_list (map (\<lambda>x. x * x) xs) - 2 * c * sum_list xs + real (length xs) * (c * c)"
  by (induction xs) (simp_all add: algebra_simps power2_eq_square)

lemma sum_sq_nonneg: "0 \<le> sum_list (map (\<lambda>x. (x - c)\<^sup>2) xs)" for c :: real
  by (induction xs) simp_all

lemma kernel_std_eq_std:
  assumes "2 \<le> length xs"
  shows "kernel_std xs = std xs"
proof -
  define n where "n = real (length xs)"
  define S where "S = sum_list (map (\<lambda>x. (x - mean xs)\<^sup>2) xs)"
  have n: "2 \<le> n" using assms by (simp add: n_def)
  have "sum_list xs = n * mean xs" using n by (simp add: mean_def flip: n_def)
  then have S: "S = sum_list (map (\<lambda>x. x * x) xs) - n * (mean xs * mean xs)"
    by (simp add: S_def sum_sq_centred flip: n_def)
  have "(sum_list (map (\<lambda>x. x * x) xs) / n - mean xs * mean xs) * n = S"
    using n by (simp add: S left_diff_distrib)
  then have "kernel_std xs = sqrt (max (S / (n - 1)) 0)"
    unfolding kernel_std_def Let_def mean_def n_def by simp
  moreover have "0 \<le> S / (n - 1)" using n sum_sq_nonneg by (simp add: S_def)
  ultimately show ?thesis by (simp add: std_def S_def n_def)
qed

section \<open>The kernel follows the reference\<close>

definition big :: "nat \<Rightarrow> tile \<Rightarrow> bool" where
  "big C m \<longleftrightarrow> rect C m \<and> 2 \<le> C \<and> 2 \<le> length m"

lemma columns_long: "big C m \<Longrightarrow> v \<in> set (columns m) \<Longrightarrow> 2 \<le> length v"
  by (auto simp: columns_def big_def)

lemma rows_long: "big C m \<Longrightarrow> v \<in> set m \<Longrightarrow> 2 \<le> length v"
  by (auto simp: big_def rect_def)

lemma kernel_imbalance_eq: "big C m \<Longrightarrow> kernel_imbalance m = imbalance m"
  by (simp add: kernel_imbalance_def imbalance_def kernel_std_eq_std columns_long rows_long
      cong: map_cong image_cong)

lemma clamp_swap: "lo \<le> hi \<Longrightarrow> max (min x hi) lo = clamp lo hi x"
  by (auto simp: clamp_def)

lemma kernel_log_update_eq:
  assumes "\<And>v. v \<in> set vecs \<Longrightarrow> 2 \<le> length v"
  shows "kernel_log_update logs vecs = log_update logs vecs"
  unfolding kernel_log_update_def log_update_def
  by (intro map_cong refl)
    (auto simp: kernel_std_eq_std assms clamp_swap CLIP_STD_MIN_def CLIP_STD_MAX_def
      LOG_S_MIN_def LOG_S_MAX_def dest: set_zip_rightD)

lemma kernel_init_eq:
  assumes "big C m"
  shows "kernel_init m = sink_init m"
proof -
  have "rect C m" using assms by (simp add: big_def)
  then show ?thesis
    by (simp add: kernel_init_def sink_init_def Let_def div_scales_one kernel_imbalance_eq [OF assms]
        rect_cols)
qed

lemma kernel_iter_eq:
  assumes m: "big C m" and s: "sink_inv C m s"
  shows "kernel_iter m s = sink_iter m s"
proof -
  have r: "rect C m" using m by (simp add: big_def)
  have "big C (cur s)" using m s by (simp add: big_def sink_inv_def)
  then have kc: "kernel_log_update (log_s_col s) (columns (cur s)) =
      log_update (log_s_col s) (columns (cur s))" (is "_ = ?lc")
    by (intro kernel_log_update_eq) (rule columns_long)
  have "length (map exp ?lc) = C" "length (map exp (log_s_row s)) = length m"
    using s by (auto simp: log_update_def sink_inv_def log_ok_def length_columns)
  then have "big C (div_scales m (map exp ?lc) (map exp (log_s_row s)))" (is "big C ?c1")
    using m r rect_div_scales [OF r] by (simp add: big_def)
  then have kr: "kernel_log_update (log_s_row s) ?c1 = log_update (log_s_row s) ?c1"
    by (intro kernel_log_update_eq) (rule rows_long)
  note sh = sink_pass_shape [OF r s]
  have "big C (cur (sink_pass m s))" using m sh by (simp add: big_def)
  then have "kernel_imbalance (cur (sink_pass m s)) = imbalance (cur (sink_pass m s))"
    by (rule kernel_imbalance_eq)
  then show ?thesis
    by (simp add: kernel_iter_def sink_iter_def sink_pass_def Let_def kc kr)
qed

lemma sinkhorn_log_kernel_eq:
  assumes "big C m"
  shows "sinkhorn_log_kernel m n = variance_normalize m n"
proof -
  have r: "rect C m" using assms by (simp add: big_def)
  have "(kernel_iter m ^^ n) (kernel_init m) = (sink_iter m ^^ n) (sink_init m)"
    by (induction n) (simp_all add: kernel_init_eq [OF assms] kernel_iter_eq [OF assms] sink_inv_iters r)
  then show ?thesis by (simp add: sinkhorn_log_kernel_def variance_normalize_def Let_def)
qed

lemma sinkhorn_triton_eq:
  assumes "\<forall>m \<in> set ms. \<exists>C. big C m"
  shows "kvarn_sinkhorn_triton ms n = map (\<lambda>m. variance_normalize m n) ms"
proof -
  have "variance_normalize_batched ms n = map (\<lambda>m. variance_normalize m n) ms"
    using assms by (intro variance_normalize_batched_map) (auto simp: big_def)
  moreover have "map (\<lambda>m. sinkhorn_log_kernel m n) ms = map (\<lambda>m. variance_normalize m n) ms"
    using assms sinkhorn_log_kernel_eq by (intro map_cong) auto
  ultimately show ?thesis by (cases ms) (simp_all add: kvarn_sinkhorn_triton_def)
qed

text \<open>
  Property C23. The Triton driver computes the reference normalisation: whichever route it
  takes (its kernel, which derives each standard deviation from the sum and the sum of squares, or
  the batched PyTorch routine for tiles above 256), every tile with at least two rows and two
  columns gets exactly what the single-tile reference computes.
\<close>

theorem kvarn_sinkhorn_triton_reference:
  assumes "\<forall>m \<in> set ms. \<exists>C. big C m"
  shows "kvarn_sinkhorn_triton ms n = map (\<lambda>m. variance_normalize m n) ms"
  using assms by (rule sinkhorn_triton_eq)

theorem kvarn_sinkhorn_triton_reference_witness:
  "kvarn_sinkhorn_triton [[[1, 2], [3, 5]], [[0, 7], [1, 1]]] 3 =
   [variance_normalize [[1, 2], [3, 5]] 3, variance_normalize [[0, 7], [1, 1]] 3]"
proof -
  have "\<forall>m \<in> set [[[1, 2], [3, 5]], [[0, 7], [1, 1]]]. \<exists>C. big C m"
    by (auto simp: big_def rect_def)
  from kvarn_sinkhorn_triton_reference [OF this, of 3] show ?thesis by simp
qed

end
