(* ===== verification/KVarN_Record.thy ===== *)
theory KVarN_Record
  imports KVarN_Config KVarN_Sinkhorn_Kernel
begin

unbundle bit_operations_syntax

text \<open>
  The byte record of a quantised tile in the paged cache (\<^verbatim>\<open>vllm/v1/attention/backends/kvarn_attn.py\<close>):
  \<open>_sinkhorn_pack_kv\<close>, \<open>_write_packed\<close>, the record that the vectorised flush concatenates, and the
  field reads of \<open>_read_block_dequantized\<close>. Offsets and lengths come from \<^typ>\<open>kvarn_config\<close>.

  What torch provides is gathered in \<open>torch_env\<close>: the cast of a number to the bit pattern of an fp16
  value, the value of such a pattern, and the quantile. Little-endian byte order is the only fact about
  the patterns that the reinterpreting views use.
\<close>

type_synonym half = "16 word"

record torch_env =
  half_of :: "real \<Rightarrow> half"
  of_half :: "half \<Rightarrow> real"
  quantile_of :: "real \<Rightarrow> real list \<Rightarrow> real"
  rtn_quantile :: "real option"

definition to16 :: "torch_env \<Rightarrow> real \<Rightarrow> real" where
  "to16 T x = of_half T (half_of T x)"

section \<open>Definitions: views and slice assignment\<close>

definition half_bytes :: "half \<Rightarrow> byte list" where
  "half_bytes w = [ucast w, ucast (drop_bit 8 w)]"

definition bytes_half :: "byte \<Rightarrow> byte \<Rightarrow> half" where
  "bytes_half l h = ucast l OR push_bit 8 (ucast h)"

fun halves :: "byte list \<Rightarrow> half list" where
  "halves (l # h # bs) = bytes_half l h # halves bs"
| "halves _ = []"

text \<open>
  \<open>t.view(torch.float16)\<close> of a byte tensor needs an even length and an even storage offset.
\<close>

definition view16 :: "nat \<Rightarrow> byte list \<Rightarrow> half list res" where
  "view16 off bs = (if even off \<and> even (length bs) then Inr (halves bs) else Inl RuntimeError)"

definition view2 :: "nat \<Rightarrow> nat \<Rightarrow> 'a list \<Rightarrow> 'a list list res" where
  "view2 r c xs =
     (if length xs = r * c then Inr (map (\<lambda>i. py_slice xs (i * c) (i * c + c)) [0 ..< r])
      else Inl RuntimeError)"

text \<open>\<open>flat[a : a + n] = bs\<close>.\<close>

definition assign_slice :: "'a list \<Rightarrow> nat \<Rightarrow> nat \<Rightarrow> 'a list \<Rightarrow> 'a list res" where
  "assign_slice flat a n bs =
     (let len = length (py_slice flat a (a + n))
      in bind_res (broadcast len bs) (\<lambda>bs'. Inr (take a flat @ bs' @ drop (a + len) flat)))"

text \<open>\<open>flat[a : a + n].view(torch.float16)[:] = hs\<close>; \<open>base\<close> is the storage offset of \<open>flat\<close>.\<close>

definition assign_half :: "nat \<Rightarrow> byte list \<Rightarrow> nat \<Rightarrow> nat \<Rightarrow> half list \<Rightarrow> byte list res" where
  "assign_half base flat a n hs =
     bind_res (view16 (base + a) (py_slice flat a (a + n))) (\<lambda>v.
       bind_res (broadcast (length v) hs) (\<lambda>hs'. assign_slice flat a n (concat (map half_bytes hs'))))"

section \<open>Definitions: quantise a batch of tiles\<close>

definition batch_shape :: "tile list \<Rightarrow> nat \<times> nat" where
  "batch_shape ts = (case ts of [] \<Rightarrow> (0, 0) | t # _ \<Rightarrow> (length t, tile_cols t))"

definition sinkhorn_pack_kv ::
  "torch_env \<Rightarrow> tile list \<Rightarrow> tile list \<Rightarrow> kvarn_config \<Rightarrow> (k_store list \<times> v_store list) res" where
  "sinkhorn_pack_kv T K_tiles V_tiles c =
     (let iters = nat (sinkhorn_iters c);
          store_k = kvarn_store_tile_k_batch_from_sinkhorn (quantile_of T) (rtn_quantile T) (to16 T);
          store_v = kvarn_store_tile_v_batch_from_sinkhorn (quantile_of T) (rtn_quantile T) (to16 T)
      in if batch_shape K_tiles = batch_shape V_tiles then
           let nk = length K_tiles; out = kvarn_sinkhorn_triton (K_tiles @ V_tiles) iters
           in bind_res (store_k (take nk out) (nat (key_bits c))) (\<lambda>K_out.
              bind_res (store_v (drop nk out) (nat (value_bits c))) (\<lambda>V_out. Inr (K_out, V_out)))
         else
           bind_res (store_k (kvarn_sinkhorn_triton K_tiles iters) (nat (key_bits c))) (\<lambda>K_out.
           bind_res (store_v (kvarn_sinkhorn_triton V_tiles iters) (nat (value_bits c))) (\<lambda>V_out.
             Inr (K_out, V_out))))"

section \<open>Definitions: writing and reading a record\<close>

text \<open>\<open>_write_packed\<close> on the flat bytes of one (block, head).\<close>

definition write_record ::
  "torch_env \<Rightarrow> kvarn_config \<Rightarrow> nat \<Rightarrow> byte list \<Rightarrow> k_store \<Rightarrow> v_store \<Rightarrow> byte list res" where
  "write_record T c base flat sk sv =
     (let D2 = nat (head_dim c * 2); G2 = nat (group c * 2); h = map (half_of T)
      in bind_res (assign_slice flat (nat (k_packed_offset c)) (nat (k_packed_bytes c))
           (concat (q_packed_K sk))) (\<lambda>f1.
         bind_res (assign_half base f1 (nat (k_s_col_offset c)) D2 (h (s_col_K sk))) (\<lambda>f2.
         bind_res (assign_half base f2 (nat (k_zp_offset c)) D2 (h (zp_K sk))) (\<lambda>f3.
         bind_res (assign_half base f3 (nat (k_s_row_offset c)) G2 (h (s_row_K sk))) (\<lambda>f4.
         bind_res (assign_slice f4 (nat (v_packed_offset c)) (nat (v_packed_bytes c))
           (concat (q_packed_V sv))) (\<lambda>f5.
         bind_res (assign_half base f5 (nat (v_s_col_offset c)) D2 (h (s_col_V sv))) (\<lambda>f6.
         bind_res (assign_half base f6 (nat (v_s_row_offset c)) G2 (h (s_row_V sv))) (\<lambda>f7.
           assign_half base f7 (nat (v_zp_offset c)) G2 (h (zp_V sv))))))))))"

type_synonym kv_cache = "byte list list list"

definition write_packed ::
  "torch_env \<Rightarrow> kvarn_config \<Rightarrow> kv_cache \<Rightarrow> nat \<Rightarrow> nat \<Rightarrow> k_store \<Rightarrow> v_store \<Rightarrow> kv_cache res" where
  "write_packed T c kvc bid hd_i sk sv =
     (if bid < length kvc \<and> hd_i < length (kvc ! bid) then
        let flat = kvc ! bid ! hd_i;
            base = (bid * length (kvc ! bid) + hd_i) * length flat
        in bind_res (write_record T c base flat sk sv) (\<lambda>flat'.
             Inr (kvc[bid := (kvc ! bid)[hd_i := flat']]))
      else Inl IndexError)"

text \<open>The record of the vectorised flush: the fields concatenated in offset order, zero padded.\<close>

definition record_parts :: "torch_env \<Rightarrow> k_store \<Rightarrow> v_store \<Rightarrow> byte list list" where
  "record_parts T sk sv =
     (let u8 = (\<lambda>xs. concat (map (\<lambda>x. half_bytes (half_of T x)) xs))
      in [concat (q_packed_K sk), u8 (s_col_K sk), u8 (zp_K sk), u8 (s_row_K sk),
          concat (q_packed_V sv), u8 (s_col_V sv), u8 (s_row_V sv), u8 (zp_V sv)])"

definition record_bytes :: "torch_env \<Rightarrow> kvarn_config \<Rightarrow> k_store \<Rightarrow> v_store \<Rightarrow> byte list" where
  "record_bytes T c sk sv =
     (let rec = concat (record_parts T sk sv); n = nat (tile_bytes_aligned c)
      in if length rec < n then rec @ replicate (n - length rec) 0 else rec)"

text \<open>The two field groups \<open>_read_block_dequantized\<close> takes from one flat record.\<close>

definition read_k ::
  "torch_env \<Rightarrow> kvarn_config \<Rightarrow> nat \<Rightarrow> byte list \<Rightarrow> tile res" where
  "read_k T c base flat =
     (let D = nat (head_dim c); G = nat (group c); bits = nat (key_bits c);
          seg = (\<lambda>off n. py_slice flat (nat off) (nat off + n));
          half = (\<lambda>off n. bind_res (view16 (base + nat off) (seg off n)) (\<lambda>hs. Inr (map (of_half T) hs)))
      in if bits = 0 then Inl ZeroDivisionError
         else if 8 div bits = 0 then Inl ZeroDivisionError
         else
         bind_res (view2 D (G div (8 div bits)) (seg (k_packed_offset c) (nat (k_packed_bytes c)))) (\<lambda>q.
         bind_res (half (k_s_col_offset c) (D * 2)) (\<lambda>s_col.
         bind_res (half (k_zp_offset c) (D * 2)) (\<lambda>zp.
         bind_res (half (k_s_row_offset c) (G * 2)) (\<lambda>s_row.
           kvarn_dequant_tile_k q s_col zp s_row G bits)))))"

definition read_v ::
  "torch_env \<Rightarrow> kvarn_config \<Rightarrow> nat \<Rightarrow> byte list \<Rightarrow> tile res" where
  "read_v T c base flat =
     (let D = nat (head_dim c); G = nat (group c); bits = nat (value_bits c);
          seg = (\<lambda>off n. py_slice flat (nat off) (nat off + n));
          half = (\<lambda>off n. bind_res (view16 (base + nat off) (seg off n)) (\<lambda>hs. Inr (map (of_half T) hs)))
      in if bits = 0 then Inl ZeroDivisionError
         else if 8 div bits = 0 then Inl ZeroDivisionError
         else
         bind_res (view2 G (D div (8 div bits)) (seg (v_packed_offset c) (nat (v_packed_bytes c)))) (\<lambda>q.
         bind_res (half (v_s_col_offset c) (D * 2)) (\<lambda>s_col.
         bind_res (half (v_s_row_offset c) (G * 2)) (\<lambda>s_row.
         bind_res (half (v_zp_offset c) (G * 2)) (\<lambda>zp.
           kvarn_dequant_tile_v q s_col s_row zp D bits)))))"

section \<open>Byte views\<close>

lemma bytes_half_bytes: "bytes_half (ucast w) (ucast (drop_bit 8 w)) = w"
  by (rule bit_word_eqI)
    (auto simp: bytes_half_def bit_simps word_size dest: bit_imp_le_length)

lemma halves_concat [simp]: "halves (concat (map half_bytes ws)) = ws"
  by (induction ws) (simp_all add: half_bytes_def bytes_half_bytes)

lemma length_half_bytes [simp]: "length (half_bytes w) = 2"
  by (simp add: half_bytes_def)

lemma length_concat_half [simp]: "length (concat (map half_bytes ws)) = 2 * length ws"
  by (induction ws) simp_all

lemma length_halves: "length (halves bs) = length bs div 2"
  by (induction bs rule: halves.induct) simp_all

section \<open>Slices of concatenations\<close>

lemma py_slice_middle:
  "length xs = a \<Longrightarrow> length ys = n \<Longrightarrow> py_slice (xs @ ys @ zs) a (a + n) = ys"
  by (simp add: py_slice_def)

lemma assign_slice_step:
  assumes "length P = a" "length bs = n" "a + n \<le> length flat"
  shows "assign_slice (P @ drop a flat) a n bs = Inr ((P @ bs) @ drop (a + n) flat)"
  using assms by (simp add: assign_slice_def broadcast_def Let_def length_py_slice add.commute)

lemma assign_half_step:
  assumes "length P = a" "2 * length hs = n" "a + n \<le> length flat" "even (base + a)"
  shows "assign_half base (P @ drop a flat) a n hs =
    Inr ((P @ concat (map half_bytes hs)) @ drop (a + n) flat)"
proof -
  have "length (py_slice (P @ drop a flat) a (a + n)) = n"
    using assms(1,3) by (simp add: length_py_slice)
  moreover have "even n" using assms(2) by auto
  ultimately have "view16 (base + a) (py_slice (P @ drop a flat) a (a + n)) =
      Inr (halves (py_slice (P @ drop a flat) a (a + n)))"
    "length (halves (py_slice (P @ drop a flat) a (a + n))) = length hs"
    using assms(2,4) by (auto simp: view16_def length_halves)
  then show ?thesis
    using assms by (simp add: assign_half_def broadcast_def assign_slice_step)
qed

lemma view2_concat:
  assumes "\<forall>row \<in> set q. length row = c" "length q = r"
  shows "view2 r c (concat q) = Inr q"
proof -
  have len: "length (concat (take i q)) = i * c" if "i \<le> length q" for i
    using that assms(1) by (induction i) (simp_all add: take_Suc_conv_app_nth)
  have "py_slice (concat q) (i * c) (i * c + c) = q ! i" if "i < length q" for i
  proof -
    have "concat q = concat (take i q) @ q ! i @ concat (drop (Suc i) q)"
      using that by (metis append_take_drop_id concat.simps(2) concat_append Cons_nth_drop_Suc)
    then show ?thesis using that assms(1) len [of i] by (simp add: py_slice_middle)
  qed
  then have "map (\<lambda>i. py_slice (concat q) (i * c) (i * c + c)) [0 ..< r] = q"
    using assms(2) by (intro nth_equalityI) simp_all
  moreover have "length (concat q) = r * c" using len [of "length q"] assms(2) by simp
  ultimately show ?thesis by (simp add: view2_def)
qed

section \<open>Writing and reading a record\<close>

definition record_cfg :: "kvarn_config \<Rightarrow> bool" where
  "record_cfg c \<longleftrightarrow> cfg_ok c \<and> even (k_packed_bytes c) \<and> even (v_packed_bytes c)"

definition k_fits :: "kvarn_config \<Rightarrow> k_store \<Rightarrow> bool" where
  "k_fits c sk \<longleftrightarrow>
     length (concat (q_packed_K sk)) = nat (k_packed_bytes c) \<and> length (s_col_K sk) = nat (head_dim c) \<and>
     length (zp_K sk) = nat (head_dim c) \<and> length (s_row_K sk) = nat (group c)"

definition v_fits :: "kvarn_config \<Rightarrow> v_store \<Rightarrow> bool" where
  "v_fits c sv \<longleftrightarrow>
     length (concat (q_packed_V sv)) = nat (v_packed_bytes c) \<and> length (s_col_V sv) = nat (head_dim c) \<and>
     length (s_row_V sv) = nat (group c) \<and> length (zp_V sv) = nat (group c)"

lemma nat_offsets:
  assumes "cfg_ok c"
  shows "nat (k_packed_offset c) = 0" "nat (k_s_col_offset c) = nat (k_packed_bytes c)"
    "nat (k_zp_offset c) = nat (k_packed_bytes c) + 2 * nat (head_dim c)"
    "nat (k_s_row_offset c) = nat (k_packed_bytes c) + 4 * nat (head_dim c)"
    "nat (v_packed_offset c) = nat (k_packed_bytes c) + 4 * nat (head_dim c) + 2 * nat (group c)"
    "nat (v_s_col_offset c) =
       nat (k_packed_bytes c) + 4 * nat (head_dim c) + 2 * nat (group c) + nat (v_packed_bytes c)"
    "nat (v_s_row_offset c) =
       nat (k_packed_bytes c) + 6 * nat (head_dim c) + 2 * nat (group c) + nat (v_packed_bytes c)"
    "nat (v_zp_offset c) =
       nat (k_packed_bytes c) + 6 * nat (head_dim c) + 4 * nat (group c) + nat (v_packed_bytes c)"
    "nat (tile_bytes c) =
       nat (k_packed_bytes c) + 6 * nat (head_dim c) + 6 * nat (group c) + nat (v_packed_bytes c)"
    "nat (head_dim c * 2) = 2 * nat (head_dim c)" "nat (group c * 2) = 2 * nat (group c)"
  using assms cfg_ok_packed_nonneg [OF assms]
  by (simp_all add: tile_offset_defs tile_bytes_def k_scale_bytes_def v_scale_bytes_def cfg_ok_def
      nat_add_distrib nat_mult_distrib)

lemma length_record_parts:
  assumes "cfg_ok c" "k_fits c sk" "v_fits c sv"
  shows "length (concat (record_parts T sk sv)) = nat (tile_bytes c)"
proof -
  have "length (concat (map (\<lambda>x. half_bytes (half_of T x)) xs)) = 2 * length xs" for xs
    by (induction xs) simp_all
  then show ?thesis
    using assms by (simp add: record_parts_def k_fits_def v_fits_def nat_offsets)
qed

lemma write_record_eq:
  assumes c: "record_cfg c" and fits: "k_fits c sk" "v_fits c sv"
    and base: "even base" and len: "nat (tile_bytes c) \<le> length flat"
  shows "write_record T c base flat sk sv =
    Inr (concat (record_parts T sk sv) @ drop (nat (tile_bytes c)) flat)"
proof -
  have ok: "cfg_ok c" and ev: "even (nat (k_packed_bytes c))" "even (nat (v_packed_bytes c))"
    using c by (auto simp: record_cfg_def even_nat_iff dest: cfg_ok_packed_nonneg)
  note no = nat_offsets [OF ok]
  define u8 where "u8 = (\<lambda>xs. concat (map half_bytes (map (half_of T) xs)))"
  have lu [simp]: "length (u8 xs) = 2 * length xs" for xs by (simp only: u8_def length_concat_half length_map)
  define p1 p2 p3 p4 p5 p6 p7 p8 where ps: "p1 = concat (q_packed_K sk)" "p2 = p1 @ u8 (s_col_K sk)"
    "p3 = p2 @ u8 (zp_K sk)" "p4 = p3 @ u8 (s_row_K sk)" "p5 = p4 @ concat (q_packed_V sv)"
    "p6 = p5 @ u8 (s_col_V sv)" "p7 = p6 @ u8 (s_row_V sv)" "p8 = p7 @ u8 (zp_V sv)"
  define a1 a2 a3 a4 a5 a6 a7 where as: "a1 = nat (k_s_col_offset c)" "a2 = nat (k_zp_offset c)"
    "a3 = nat (k_s_row_offset c)" "a4 = nat (v_packed_offset c)" "a5 = nat (v_s_col_offset c)"
    "a6 = nat (v_s_row_offset c)" "a7 = nat (v_zp_offset c)"
  note fs = fits [unfolded k_fits_def v_fits_def]
  have l: "length p1 = a1" "length p2 = a2" "length p3 = a3" "length p4 = a4" "length p5 = a5"
    "length p6 = a6" "length p7 = a7"
    using fs by (simp_all add: ps as no)
  have e: "even (base + a1)" "even (base + a2)" "even (base + a3)" "even (base + a5)"
    "even (base + a6)" "even (base + a7)" using base ev by (simp_all add: as no)
  have h: "assign_half base (p @ drop a flat) a n (map (half_of T) xs) =
      Inr ((p @ u8 xs) @ drop (a + n) flat)"
    if "length p = a" "2 * length xs = n" "a + n \<le> length flat" "even (base + a)" for p a n xs
    using assign_half_step [of p a "map (half_of T) xs" n flat base] that by (simp add: u8_def)
  have sm: "a1 + nat (head_dim c * 2) = a2" "a2 + nat (head_dim c * 2) = a3"
    "a3 + nat (group c * 2) = a4" "a4 + nat (v_packed_bytes c) = a5" "a5 + nat (head_dim c * 2) = a6"
    "a6 + nat (group c * 2) = a7" "a7 + nat (group c * 2) = nat (tile_bytes c)"
    by (simp_all add: as no)
  then have bd: "a1 \<le> length flat" "a2 \<le> length flat" "a3 \<le> length flat" "a4 \<le> length flat"
    "a5 \<le> length flat" "a6 \<le> length flat" "a7 \<le> length flat" using len by linarith+
  have ln: "2 * length (s_col_K sk) = nat (head_dim c * 2)" "2 * length (zp_K sk) = nat (head_dim c * 2)"
    "2 * length (s_row_K sk) = nat (group c * 2)" "2 * length (s_col_V sv) = nat (head_dim c * 2)"
    "2 * length (s_row_V sv) = nat (group c * 2)" "2 * length (zp_V sv) = nat (group c * 2)"
    "length (concat (q_packed_V sv)) = nat (v_packed_bytes c)" using fs by (simp_all add: no)
  have "assign_slice flat 0 (nat (k_packed_bytes c)) p1 = Inr (p1 @ drop a1 flat)"
    using assign_slice_step [of "[]" 0 p1 "nat (k_packed_bytes c)" flat] fs bd(1)
    by (simp add: no(2) ps(1) as(1))
  moreover have "assign_half base (p1 @ drop a1 flat) a1 (nat (head_dim c * 2)) (map (half_of T) (s_col_K sk)) =
      Inr (p2 @ drop a2 flat)"
    using h [OF l(1) ln(1) _ e(1)] bd unfolding sm ps(2) by blast
  moreover have "assign_half base (p2 @ drop a2 flat) a2 (nat (head_dim c * 2)) (map (half_of T) (zp_K sk)) =
      Inr (p3 @ drop a3 flat)"
    using h [OF l(2) ln(2) _ e(2)] bd unfolding sm ps(3) by blast
  moreover have "assign_half base (p3 @ drop a3 flat) a3 (nat (group c * 2)) (map (half_of T) (s_row_K sk)) =
      Inr (p4 @ drop a4 flat)"
    using h [OF l(3) ln(3) _ e(3)] bd unfolding sm ps(4) by blast
  moreover have "assign_slice (p4 @ drop a4 flat) a4 (nat (v_packed_bytes c)) (concat (q_packed_V sv)) =
      Inr (p5 @ drop a5 flat)"
    using assign_slice_step [OF l(4) ln(7), of flat] bd unfolding sm ps(5) by blast
  moreover have "assign_half base (p5 @ drop a5 flat) a5 (nat (head_dim c * 2)) (map (half_of T) (s_col_V sv)) =
      Inr (p6 @ drop a6 flat)"
    using h [OF l(5) ln(4) _ e(4)] bd unfolding sm ps(6) by blast
  moreover have "assign_half base (p6 @ drop a6 flat) a6 (nat (group c * 2)) (map (half_of T) (s_row_V sv)) =
      Inr (p7 @ drop a7 flat)"
    using h [OF l(6) ln(5) _ e(5)] bd unfolding sm ps(7) by blast
  moreover have "assign_half base (p7 @ drop a7 flat) a7 (nat (group c * 2)) (map (half_of T) (zp_V sv)) =
      Inr (p8 @ drop (nat (tile_bytes c)) flat)"
    using h [OF l(7) ln(6) _ e(6)] len unfolding sm ps(8) by blast
  moreover have "concat (record_parts T sk sv) = p8"
    by (simp add: record_parts_def ps u8_def comp_def)
  ultimately show ?thesis
    unfolding write_record_def Let_def by (simp add: no(1) ps(1) flip: as)
qed

lemma slice_of_parts:
  assumes "i < length ps" "length (concat (take i ps)) = a" "length (ps ! i) = n"
  shows "py_slice (concat ps @ rest) a (a + n) = ps ! i"
proof -
  have "concat ps @ rest = concat (take i ps) @ ps ! i @ (concat (drop (Suc i) ps) @ rest)"
    using assms(1)
    by (metis append.assoc append_take_drop_id concat.simps(2) concat_append Cons_nth_drop_Suc)
  then show ?thesis using assms by (simp add: py_slice_middle)
qed

definition k_rows_ok :: "kvarn_config \<Rightarrow> k_store \<Rightarrow> bool" where
  "k_rows_ok c sk \<longleftrightarrow> length (q_packed_K sk) = nat (head_dim c) \<and>
     (\<forall>row \<in> set (q_packed_K sk). length row = nat (group c) div (8 div nat (key_bits c)))"

definition v_rows_ok :: "kvarn_config \<Rightarrow> v_store \<Rightarrow> bool" where
  "v_rows_ok c sv \<longleftrightarrow> length (q_packed_V sv) = nat (group c) \<and>
     (\<forall>row \<in> set (q_packed_V sv). length row = nat (head_dim c) div (8 div nat (value_bits c)))"

lemma record_slice:
  fixes T :: torch_env and rest :: "byte list"
  assumes c: "record_cfg c" and fits: "k_fits c sk" "v_fits c sv"
  defines "R \<equiv> concat (record_parts T sk sv) @ rest"
  defines "u8 \<equiv> (\<lambda>xs. concat (map half_bytes (map (half_of T) xs)))"
  shows "py_slice R (nat (k_packed_offset c)) (nat (k_packed_offset c) + nat (k_packed_bytes c)) =
      concat (q_packed_K sk)"
    "py_slice R (nat (k_s_col_offset c)) (nat (k_s_col_offset c) + nat (head_dim c) * 2) = u8 (s_col_K sk)"
    "py_slice R (nat (k_zp_offset c)) (nat (k_zp_offset c) + nat (head_dim c) * 2) = u8 (zp_K sk)"
    "py_slice R (nat (k_s_row_offset c)) (nat (k_s_row_offset c) + nat (group c) * 2) = u8 (s_row_K sk)"
    "py_slice R (nat (v_packed_offset c)) (nat (v_packed_offset c) + nat (v_packed_bytes c)) =
      concat (q_packed_V sv)"
    "py_slice R (nat (v_s_col_offset c)) (nat (v_s_col_offset c) + nat (head_dim c) * 2) = u8 (s_col_V sv)"
    "py_slice R (nat (v_s_row_offset c)) (nat (v_s_row_offset c) + nat (group c) * 2) = u8 (s_row_V sv)"
    "py_slice R (nat (v_zp_offset c)) (nat (v_zp_offset c) + nat (group c) * 2) = u8 (zp_V sv)"
proof -
  have ok: "cfg_ok c" using c by (simp add: record_cfg_def)
  note no = nat_offsets [OF ok]
  note fs = fits [unfolded k_fits_def v_fits_def]
  have lu [simp]: "length (u8 xs) = 2 * length xs" for xs by (simp only: u8_def length_concat_half length_map)
  have parts: "record_parts T sk sv =
      [concat (q_packed_K sk), u8 (s_col_K sk), u8 (zp_K sk), u8 (s_row_K sk),
       concat (q_packed_V sv), u8 (s_col_V sv), u8 (s_row_V sv), u8 (zp_V sv)]"
    by (simp add: record_parts_def u8_def comp_def)
  have sl: "i < 8 \<Longrightarrow> length (concat (take i (record_parts T sk sv))) = a \<Longrightarrow>
      length (record_parts T sk sv ! i) = n \<Longrightarrow> py_slice R a (a + n) = record_parts T sk sv ! i" for i a n
    unfolding R_def by (rule slice_of_parts) (simp_all add: parts)
  show "py_slice R (nat (k_packed_offset c)) (nat (k_packed_offset c) + nat (k_packed_bytes c)) = concat (q_packed_K sk)"
    using sl [of 0 "nat (k_packed_offset c)" "nat (k_packed_bytes c)"] fs by (simp add: parts no)
  show "py_slice R (nat (k_s_col_offset c)) (nat (k_s_col_offset c) + nat (head_dim c) * 2) = u8 (s_col_K sk)"
    using sl [of 1 "nat (k_s_col_offset c)" "nat (head_dim c) * 2"] fs by (simp add: parts no)
  show "py_slice R (nat (k_zp_offset c)) (nat (k_zp_offset c) + nat (head_dim c) * 2) = u8 (zp_K sk)"
    using sl [of 2 "nat (k_zp_offset c)" "nat (head_dim c) * 2"] fs by (simp add: parts no)
  show "py_slice R (nat (k_s_row_offset c)) (nat (k_s_row_offset c) + nat (group c) * 2) = u8 (s_row_K sk)"
    using sl [of 3 "nat (k_s_row_offset c)" "nat (group c) * 2"] fs by (simp add: parts no)
  show "py_slice R (nat (v_packed_offset c)) (nat (v_packed_offset c) + nat (v_packed_bytes c)) = concat (q_packed_V sv)"
    using sl [of 4 "nat (v_packed_offset c)" "nat (v_packed_bytes c)"] fs by (simp add: parts no)
  show "py_slice R (nat (v_s_col_offset c)) (nat (v_s_col_offset c) + nat (head_dim c) * 2) = u8 (s_col_V sv)"
    using sl [of 5 "nat (v_s_col_offset c)" "nat (head_dim c) * 2"] fs by (simp add: parts no)
  show "py_slice R (nat (v_s_row_offset c)) (nat (v_s_row_offset c) + nat (group c) * 2) = u8 (s_row_V sv)"
    using sl [of 6 "nat (v_s_row_offset c)" "nat (group c) * 2"] fs by (simp add: parts no)
  show "py_slice R (nat (v_zp_offset c)) (nat (v_zp_offset c) + nat (group c) * 2) = u8 (zp_V sv)"
    using sl [of 7 "nat (v_zp_offset c)" "nat (group c) * 2"] fs by (simp add: parts no)
qed


lemma even_offsets:
  assumes "record_cfg c"
  shows "even (nat (k_s_col_offset c))" "even (nat (k_zp_offset c))" "even (nat (k_s_row_offset c))"
    "even (nat (v_s_col_offset c))" "even (nat (v_s_row_offset c))" "even (nat (v_zp_offset c))"
proof -
  have ok: "cfg_ok c" and ev: "even (nat (k_packed_bytes c))" "even (nat (v_packed_bytes c))"
    using assms by (auto simp: record_cfg_def even_nat_iff dest: cfg_ok_packed_nonneg)
  show "even (nat (k_s_col_offset c))" "even (nat (k_zp_offset c))" "even (nat (k_s_row_offset c))"
    "even (nat (v_s_col_offset c))" "even (nat (v_s_row_offset c))" "even (nat (v_zp_offset c))"
    using ev by (simp_all add: nat_offsets [OF ok])
qed

lemma view16_u8: "even off \<Longrightarrow> view16 off (concat (map half_bytes ws)) = Inr ws"
  by (simp add: view16_def)

lemma read_k_record:
  assumes c: "record_cfg c" and fits: "k_fits c sk" "v_fits c sv" and rows: "k_rows_ok c sk"
    and bits: "0 < key_bits c" "key_bits c \<le> 8" and base: "even base"
  shows "read_k T c base (concat (record_parts T sk sv) @ rest) =
    kvarn_dequant_tile_k (q_packed_K sk) (map (to16 T) (s_col_K sk)) (map (to16 T) (zp_K sk))
      (map (to16 T) (s_row_K sk)) (nat (group c)) (nat (key_bits c))"
proof -
  have "0 < nat (key_bits c)" "nat (key_bits c) \<le> 8" using bits by auto
  then have "0 < 8 div nat (key_bits c)" by (simp add: div_greater_zero_iff)
  moreover have "view2 (nat (head_dim c)) (nat (group c) div (8 div nat (key_bits c))) (concat (q_packed_K sk)) =
      Inr (q_packed_K sk)"
    using rows by (intro view2_concat) (simp_all add: k_rows_ok_def)
  moreover have "map (of_half T) (map (half_of T) xs) = map (to16 T) xs" for xs
    by (simp add: to16_def)
  ultimately show ?thesis
    using bits base even_offsets [OF c]
    by (simp add: read_k_def Let_def record_slice [OF c fits] view16_u8 del: map_map)
qed

lemma read_v_record:
  assumes c: "record_cfg c" and fits: "k_fits c sk" "v_fits c sv" and rows: "v_rows_ok c sv"
    and bits: "0 < value_bits c" "value_bits c \<le> 8" and base: "even base"
  shows "read_v T c base (concat (record_parts T sk sv) @ rest) =
    kvarn_dequant_tile_v (q_packed_V sv) (map (to16 T) (s_col_V sv)) (map (to16 T) (s_row_V sv))
      (map (to16 T) (zp_V sv)) (nat (head_dim c)) (nat (value_bits c))"
proof -
  have "0 < nat (value_bits c)" "nat (value_bits c) \<le> 8" using bits by auto
  then have "0 < 8 div nat (value_bits c)" by (simp add: div_greater_zero_iff)
  moreover have "view2 (nat (group c)) (nat (head_dim c) div (8 div nat (value_bits c)))
      (concat (q_packed_V sv)) = Inr (q_packed_V sv)"
    using rows by (intro view2_concat) (simp_all add: v_rows_ok_def)
  moreover have "map (of_half T) (map (half_of T) xs) = map (to16 T) xs" for xs
    by (simp add: to16_def)
  ultimately show ?thesis
    using bits base even_offsets [OF c]
    by (simp add: read_v_def Let_def record_slice [OF c fits] view16_u8 del: map_map)
qed

text \<open>
  Property C30. Reading a record back is dequantising what was stored: after the eight
  slice assignments of \<open>_write_packed\<close> into the bytes of a (block, head), the K and V reads of
  \<open>_read_block_dequantized\<close> see exactly the stored codes and scales (the scales through their fp16
  patterns), nothing raises, and the bytes behind the record are untouched.
\<close>

theorem write_read_record:
  assumes "record_cfg c" "k_fits c sk" "v_fits c sv" "k_rows_ok c sk" "v_rows_ok c sv"
    and "0 < key_bits c" "key_bits c \<le> 8" "0 < value_bits c" "value_bits c \<le> 8"
    and "even base" "nat (tile_bytes c) \<le> length flat"
  shows "\<exists>flat'. write_record T c base flat sk sv = Inr flat' \<and> length flat' = length flat \<and>
    drop (nat (tile_bytes c)) flat' = drop (nat (tile_bytes c)) flat \<and>
    read_k T c base flat' =
      kvarn_dequant_tile_k (q_packed_K sk) (map (to16 T) (s_col_K sk)) (map (to16 T) (zp_K sk))
        (map (to16 T) (s_row_K sk)) (nat (group c)) (nat (key_bits c)) \<and>
    read_v T c base flat' =
      kvarn_dequant_tile_v (q_packed_V sv) (map (to16 T) (s_col_V sv)) (map (to16 T) (s_row_V sv))
        (map (to16 T) (zp_V sv)) (nat (head_dim c)) (nat (value_bits c))"
proof -
  have ok: "cfg_ok c" using assms(1) by (simp add: record_cfg_def)
  then show ?thesis
    using assms
    by (simp add: write_record_eq read_k_record read_v_record length_record_parts)
qed

definition small_cfg :: kvarn_config where
  "small_cfg = \<lparr>head_dim = 4, key_bits = 4, value_bits = 2, group = 4, sinkhorn_iters = 8,
     sink_tokens = 4, boundary_skip_layers = 0\<rparr>"

definition small_k :: k_store where
  "small_k = \<lparr>q_packed_K = [[1, 2], [3, 4], [5, 6], [7, 8]], s_col_K = [1, 2, 3, 4],
     zp_K = [0, 0, 1, 1], s_row_K = [1, 1, 1, 2]\<rparr>"

definition small_v :: v_store where
  "small_v = \<lparr>q_packed_V = [[1], [2], [3], [4]], s_col_V = [1, 2, 3, 4],
     s_row_V = [1, 1, 1, 2], zp_V = [0, 0, 1, 1]\<rparr>"

definition int_env :: torch_env where
  "int_env = \<lparr>half_of = (\<lambda>x. word_of_int \<lfloor>x\<rfloor>), of_half = (\<lambda>w. of_int (uint w)),
     quantile_of = (\<lambda>_ _. 0), rtn_quantile = None\<rparr>"

lemma small_ok:
  "record_cfg small_cfg" "k_fits small_cfg small_k" "v_fits small_cfg small_v"
  "k_rows_ok small_cfg small_k" "v_rows_ok small_cfg small_v" "nat (tile_bytes small_cfg) = 60"
  by (simp_all add: record_cfg_def cfg_ok_def k_fits_def v_fits_def k_rows_ok_def v_rows_ok_def
      small_cfg_def small_k_def small_v_def tile_size_defs cdiv_def)

theorem write_read_record_witness:
  "\<exists>flat'. write_record int_env small_cfg 0 (replicate 64 0) small_k small_v = Inr flat' \<and>
     read_k int_env small_cfg 0 flat' =
       kvarn_dequant_tile_k (q_packed_K small_k) (map (to16 int_env) (s_col_K small_k))
         (map (to16 int_env) (zp_K small_k)) (map (to16 int_env) (s_row_K small_k)) 4 4"
proof -
  have "0 < key_bits small_cfg" "key_bits small_cfg \<le> 8" "0 < value_bits small_cfg"
    "value_bits small_cfg \<le> 8" "nat (tile_bytes small_cfg) \<le> length (replicate 64 (0 :: byte))"
    "nat (group small_cfg) = 4" "nat (key_bits small_cfg) = 4"
    using small_ok(6) by (simp_all add: small_cfg_def)
  then show ?thesis
    using write_read_record [OF small_ok(1-5), of 0 "replicate 64 0" int_env] by auto
qed

text \<open>
  Property C31. The vectorised flush and \<open>_write_packed\<close> produce the same record: the
  concatenated and zero-padded bytes have the aligned length and agree with the eight slice
  assignments on all \<open>tile_bytes\<close> bytes of the record, whatever the block held before.
\<close>

theorem record_bytes_eq_write:
  assumes "record_cfg c" "k_fits c sk" "v_fits c sv" "even base"
    and "nat (tile_bytes c) \<le> length flat"
  shows "length (record_bytes T c sk sv) = nat (tile_bytes_aligned c) \<and>
    (\<exists>flat'. write_record T c base flat sk sv = Inr flat' \<and>
      take (nat (tile_bytes c)) (record_bytes T c sk sv) = take (nat (tile_bytes c)) flat')"
proof -
  have ok: "cfg_ok c" using assms(1) by (simp add: record_cfg_def)
  have "nat (tile_bytes c) \<le> nat (tile_bytes_aligned c)"
    using tile_bytes_le_aligned [OF ok] by (rule nat_mono)
  then show ?thesis
    using assms ok tile_bytes_le_aligned [OF ok]
    by (auto simp: write_record_eq record_bytes_def length_record_parts Let_def)
qed

theorem record_bytes_eq_write_witness:
  "length (record_bytes int_env small_cfg small_k small_v) = 64 \<and>
   (\<exists>flat'. write_record int_env small_cfg 0 (replicate 64 7) small_k small_v = Inr flat' \<and>
     take 60 (record_bytes int_env small_cfg small_k small_v) = take 60 flat')"
proof -
  have "nat (tile_bytes_aligned small_cfg) = 64"
    by (simp add: tile_bytes_aligned_def small_cfg_def tile_size_defs cdiv_def)
  moreover have "nat (tile_bytes small_cfg) \<le> length (replicate 64 (7 :: byte))"
    using small_ok(6) by simp
  ultimately show ?thesis
    using record_bytes_eq_write [OF small_ok(1-3), of 0 "replicate 64 7" int_env] small_ok(6)
    by simp
qed

end
