(* ===== verification/KVarN_Flush.thy ===== *)
theory KVarN_Flush
  imports KVarN_Record
begin

text \<open>
  Flushing a full fp16 tail tile into the quantised cache and reading it back
  (\<open>_hadamard_cached\<close>, \<open>_flush_tail\<close>, \<open>_batched_flush\<close> and \<open>_read_block_dequantized\<close> of
  \<^verbatim>\<open>vllm/v1/attention/backends/kvarn_attn.py\<close>). A layer's implementation object holds its fp16 tail
  pool, indexed by slot, token, head and channel, its cache tensor and the tail tracker; the map from
  blocks to slots is shared by the layers of a group.
\<close>

section \<open>Definitions: Hadamard rotation\<close>

definition double_had :: "tile \<Rightarrow> tile" where
  "double_had H = map (\<lambda>r. r @ r) H @ map (\<lambda>r. r @ map uminus r) H"

text \<open>The loop starts from a one-by-one matrix; the test for an empty one never fires.\<close>

function had_grow :: "nat \<Rightarrow> tile \<Rightarrow> tile" where
  "had_grow d H = (if length H < d \<and> H \<noteq> [] then had_grow d (double_had H) else H)"
  by pat_completeness auto
termination
  by (relation "measure (\<lambda>(d, H). d - length H)") (auto simp: double_had_def intro!: diff_less_mono2)

declare had_grow.simps [simp del]

definition hadamard :: "nat \<Rightarrow> tile" where
  "hadamard d = map (map (\<lambda>x. x / sqrt (real d))) (had_grow d [[1]])"

definition dot :: "real list \<Rightarrow> real list \<Rightarrow> real" where
  "dot xs ys = sum_list (map2 (*) xs ys)"

definition matmul :: "tile \<Rightarrow> tile \<Rightarrow> tile" where
  "matmul A B = map (\<lambda>row. map (dot row) (columns B)) A"

section \<open>Definitions: layers, flush and read\<close>

type_synonym pool = "real list list list list"

record impl =
  group_key :: string
  tail_K_pool :: pool
  tail_V_pool :: pool
  cache :: kv_cache
  tails :: "nat list"

type_synonym slot_maps = "(string, (nat, nat) dict) dict"

definition slot_of :: "slot_maps \<Rightarrow> impl \<Rightarrow> nat \<Rightarrow> nat option" where
  "slot_of b2s im bid =
     (case dict_get b2s (group_key im) of None \<Rightarrow> None | Some d \<Rightarrow> dict_get d bid)"

text \<open>\<open>K_rot.permute(1, 2, 0)\<close> and \<open>V_rot.permute(1, 0, 2)\<close> of a slot's tokens, heads, channels.\<close>

definition k_tiles :: "kvarn_config \<Rightarrow> nat \<Rightarrow> real list list list \<Rightarrow> tile list" where
  "k_tiles c Hk K =
     map (\<lambda>h. map (\<lambda>d. map (\<lambda>g. K ! g ! h ! d) [0 ..< nat (group c)]) [0 ..< nat (head_dim c)]) [0 ..< Hk]"

definition v_tiles :: "kvarn_config \<Rightarrow> nat \<Rightarrow> real list list list \<Rightarrow> tile list" where
  "v_tiles c Hk V =
     map (\<lambda>h. map (\<lambda>g. map (\<lambda>d. V ! g ! h ! d) [0 ..< nat (head_dim c)]) [0 ..< nat (group c)]) [0 ..< Hk]"

definition write_heads ::
  "torch_env \<Rightarrow> kvarn_config \<Rightarrow> nat \<Rightarrow> (nat \<times> k_store \<times> v_store) list \<Rightarrow> kv_cache \<Rightarrow> kv_cache res" where
  "write_heads T c bid stores kvc =
     fold_res (\<lambda>(h, sk, sv) kvc. write_packed T c kvc bid h sk sv) stores kvc"

definition flush_tail ::
  "torch_env \<Rightarrow> kvarn_config \<Rightarrow> nat \<Rightarrow> slot_maps \<Rightarrow> nat \<Rightarrow> impl \<Rightarrow> impl res" where
  "flush_tail T c Hk b2s bid im =
     (case slot_of b2s im bid of
        None \<Rightarrow> Inr (im\<lparr>tails := removeAll bid (tails im)\<rparr>)
      | Some slot \<Rightarrow>
          if slot < length (tail_K_pool im) \<and> slot < length (tail_V_pool im) then
            bind_res (sinkhorn_pack_kv T (k_tiles c Hk (tail_K_pool im ! slot))
                (v_tiles c Hk (tail_V_pool im ! slot)) c) (\<lambda>(K_out, V_out).
              bind_res (write_heads T c bid (zip [0 ..< Hk] (zip K_out V_out)) (cache im)) (\<lambda>kvc.
                Inr (im\<lparr>tails := removeAll bid (tails im), cache := kvc\<rparr>)))
          else Inl IndexError)"

definition read_head ::
  "torch_env \<Rightarrow> kvarn_config \<Rightarrow> kv_cache \<Rightarrow> nat \<Rightarrow> nat \<Rightarrow> (tile \<times> tile) res" where
  "read_head T c kvc bid h =
     (if bid < length kvc \<and> h < length (kvc ! bid) then
        let flat = kvc ! bid ! h; base = (bid * length (kvc ! bid) + h) * length flat;
            H = hadamard (nat (head_dim c))
        in bind_res (read_k T c base flat) (\<lambda>K_rot.
           bind_res (read_v T c base flat) (\<lambda>V_rot.
             Inr (map (map (to16 T)) (matmul (columns K_rot) H), map (map (to16 T)) (matmul V_rot H))))
      else Inl IndexError)"

definition read_block_dequantized ::
  "torch_env \<Rightarrow> kvarn_config \<Rightarrow> nat \<Rightarrow> kv_cache \<Rightarrow> nat \<Rightarrow> (tile list \<times> tile list) res" where
  "read_block_dequantized T c Hk kvc bid =
     bind_res (map_res (read_head T c kvc bid) [0 ..< Hk]) (\<lambda>outs.
       Inr (map (\<lambda>g. map (\<lambda>(K, _). K ! g) outs) [0 ..< nat (group c)],
            map (\<lambda>g. map (\<lambda>(_, V). V ! g) outs) [0 ..< nat (group c)]))"

section \<open>The Hadamard matrix is orthogonal\<close>

definition ident :: "nat \<Rightarrow> tile" where
  "ident n = map (\<lambda>i. map (\<lambda>j. if i = j then 1 else 0) [0 ..< n]) [0 ..< n]"

fun sylvester :: "nat \<Rightarrow> tile" where
  "sylvester 0 = [[1]]"
| "sylvester (Suc n) = double_had (sylvester n)"

lemma sylvester_shape: "length (sylvester n) = 2 ^ n \<and> (\<forall>r \<in> set (sylvester n). length r = 2 ^ n)"
  by (induction n) (auto simp: double_had_def)

lemma length_sylvester [simp]: "length (sylvester n) = 2 ^ n"
  by (simp add: sylvester_shape)

lemma length_sylvester_row [simp]: "i < 2 ^ n \<Longrightarrow> length (sylvester n ! i) = 2 ^ n"
  using sylvester_shape by simp

lemma double_had_nth:
  assumes "i < 2 * length H"
  shows "double_had H ! i = (if i < length H then H ! i @ H ! i
    else H ! (i - length H) @ map uminus (H ! (i - length H)))"
  using assms by (auto simp: double_had_def nth_append)

lemma had_grow_sylvester:
  "k \<le> n \<Longrightarrow> had_grow (2 ^ n) (sylvester k) = sylvester n"
proof (induction "n - k" arbitrary: k)
  case 0
  then show ?case by (simp add: had_grow.simps)
next
  case (Suc m)
  then have "k < n" by simp
  then have "(2::nat) ^ k < 2 ^ n" by simp
  moreover have "sylvester k \<noteq> []" by (metis length_sylvester list.size(3) power_not_zero zero_neq_numeral)
  ultimately have "had_grow (2 ^ n) (sylvester k) = had_grow (2 ^ n) (sylvester (Suc k))"
    by (subst had_grow.simps) simp
  also have "\<dots> = sylvester n" using Suc.hyps \<open>k < n\<close> by (intro Suc.hyps(1)) simp_all
  finally show ?case .
qed

lemma dot_append: "length xs = length ys \<Longrightarrow> dot (xs @ xs') (ys @ ys') = dot xs ys + dot xs' ys'"
  by (simp add: dot_def)

lemma dot_uminus: "dot (map uminus xs) ys = - dot xs ys" "dot xs (map uminus ys) = - dot xs ys"
proof -
  show "dot (map uminus xs) ys = - dot xs ys"
    unfolding dot_def by (induction xs ys rule: list_induct2') simp_all
  show "dot xs (map uminus ys) = - dot xs ys"
    unfolding dot_def by (induction xs ys rule: list_induct2') simp_all
qed

lemma sylvester_dot:
  "i < 2 ^ n \<Longrightarrow> j < 2 ^ n \<Longrightarrow> dot (sylvester n ! i) (sylvester n ! j) = (if i = j then 2 ^ n else 0)"
proof (induction n arbitrary: i j)
  case 0
  then show ?case by (simp add: dot_def)
next
  case (Suc n)
  let ?S = "sylvester n" and ?m = "2 ^ n :: nat"
  have red: "i < ?m \<or> (\<exists>i'. i = ?m + i' \<and> i' < ?m)" "j < ?m \<or> (\<exists>j'. j = ?m + j' \<and> j' < ?m)"
    using Suc.prems by (metis add_less_cancel_left le_Suc_ex linorder_not_less mult_2 power_Suc)+
  have same: "dot (?S ! a) (?S ! b) = (if a = b then 2 ^ n else 0)" if "a < ?m" "b < ?m" for a b
    using Suc.IH that by blast
  show ?case
    using red Suc.prems
    by (auto simp: double_had_nth dot_append dot_uminus same)
qed

lemma sylvester_sym: "i < 2 ^ n \<Longrightarrow> j < 2 ^ n \<Longrightarrow> sylvester n ! i ! j = sylvester n ! j ! i"
proof (induction n arbitrary: i j)
  case 0
  then show ?case by simp
next
  case (Suc n)
  let ?m = "2 ^ n :: nat"
  have red: "i < ?m \<or> (\<exists>i'. i = ?m + i' \<and> i' < ?m)" "j < ?m \<or> (\<exists>j'. j = ?m + j' \<and> j' < ?m)"
    using Suc.prems by (metis add_less_cancel_left le_Suc_ex linorder_not_less mult_2 power_Suc)+
  show ?case
    using red Suc.prems Suc.IH by (auto simp: double_had_nth nth_append)
qed

lemma hadamard_eq: "hadamard (2 ^ n) = map (map (\<lambda>x. x / sqrt (2 ^ n))) (sylvester n)"
  using had_grow_sylvester [of 0 n] by (simp add: hadamard_def)

lemma dot_sum: "length xs = n \<Longrightarrow> length ys = n \<Longrightarrow> dot xs ys = (\<Sum>i<n. xs ! i * ys ! i)"
  by (simp add: dot_def sum_list_sum_nth atLeast0LessThan)

lemma hadamard_entry:
  "i < 2 ^ n \<Longrightarrow> j < 2 ^ n \<Longrightarrow> hadamard (2 ^ n) ! i ! j = sylvester n ! i ! j / sqrt (2 ^ n)"
  by (simp add: hadamard_eq)

lemma hadamard_rect: "rect (2 ^ n) (hadamard (2 ^ n))" "length (hadamard (2 ^ n)) = 2 ^ n"
proof -
  have "sylvester n \<noteq> []" by (metis length_sylvester list.size(3) power_not_zero zero_neq_numeral)
  then show "rect (2 ^ n) (hadamard (2 ^ n))" "length (hadamard (2 ^ n)) = 2 ^ n"
    using sylvester_shape [of n] by (auto simp: rect_def hadamard_eq)
qed

lemma hadamard_orthogonal:
  assumes "i < 2 ^ n" "k < 2 ^ n"
  shows "(\<Sum>j<2 ^ n. hadamard (2 ^ n) ! i ! j * hadamard (2 ^ n) ! j ! k) = (if i = k then 1 else 0)"
proof -
  have "hadamard (2 ^ n) ! i ! j * hadamard (2 ^ n) ! j ! k =
      (sylvester n ! i ! j * sylvester n ! k ! j) / 2 ^ n" if "j < 2 ^ n" for j
    using that assms by (simp add: hadamard_entry sylvester_sym [of j n k])
  then have "(\<Sum>j<2 ^ n. hadamard (2 ^ n) ! i ! j * hadamard (2 ^ n) ! j ! k) =
      (\<Sum>j<2 ^ n. sylvester n ! i ! j * sylvester n ! k ! j) / 2 ^ n"
    by (simp add: sum_divide_distrib)
  also have "\<dots> = dot (sylvester n ! i) (sylvester n ! k) / 2 ^ n"
    using assms by (simp add: dot_sum [of _ "2 ^ n"])
  finally show ?thesis using assms by (simp add: sylvester_dot)
qed

lemma matmul_cell:
  assumes "rect n A" "rect m B" "length B = n" "r < length A" "k < m"
  shows "matmul A B ! r ! k = (\<Sum>j<n. A ! r ! j * B ! j ! k)"
proof -
  have "length (A ! r) = n" "tile_cols B = m" using assms by (simp_all add: rect_nth rect_cols)
  then have "matmul A B ! r ! k = dot (A ! r) (map (\<lambda>row. row ! k) B)"
    using assms by (simp add: matmul_def columns_def)
  also have "\<dots> = (\<Sum>j<n. A ! r ! j * map (\<lambda>row. row ! k) B ! j)"
    using \<open>length (A ! r) = n\<close> assms(3) by (intro dot_sum) simp_all
  finally show ?thesis using assms(3) by simp
qed

lemma rect_matmul:
  assumes "rect n A" "rect m B"
  shows "rect m (matmul A B)" "length (matmul A B) = length A"
  using assms rect_cols [OF assms(2)] by (auto simp: rect_def matmul_def columns_def)

text \<open>
  Property C39. The Hadamard rotation is its own inverse: for every power-of-two head
  dimension, rotating rows by the normalised matrix the loop builds and rotating them back with the
  same matrix gives the rows again.
\<close>

theorem hadamard_involution:
  assumes "rect (2 ^ n) A"
  shows "matmul (matmul A (hadamard (2 ^ n))) (hadamard (2 ^ n)) = A"
proof (rule nth_equalityI)
  let ?H = "hadamard (2 ^ n)"
  note HR = hadamard_rect [of n]
  note AH = rect_matmul [OF assms HR(1)]
  note AHH = rect_matmul [OF AH(1) HR(1)]
  show "length (matmul (matmul A ?H) ?H) = length A" using AH AHH by simp
  fix r assume "r < length (matmul (matmul A ?H) ?H)"
  then have r: "r < length A" using AH AHH by simp
  show "matmul (matmul A ?H) ?H ! r = A ! r"
  proof (rule nth_equalityI)
    show "length (matmul (matmul A ?H) ?H ! r) = length (A ! r)"
      using AHH AH r assms by (simp add: rect_nth)
    fix k assume "k < length (matmul (matmul A ?H) ?H ! r)"
    then have k: "k < 2 ^ n" using AHH AH r by (simp add: rect_nth)
    have "matmul (matmul A ?H) ?H ! r ! k = (\<Sum>j<2 ^ n. (\<Sum>i<2 ^ n. A ! r ! i * ?H ! i ! j) * ?H ! j ! k)"
      using AH r k assms HR by (simp add: matmul_cell)
    also have "\<dots> = (\<Sum>j<2 ^ n. \<Sum>i<2 ^ n. A ! r ! i * (?H ! i ! j * ?H ! j ! k))"
      by (simp add: sum_distrib_right mult.assoc)
    also have "\<dots> = (\<Sum>i<2 ^ n. A ! r ! i * (\<Sum>j<2 ^ n. ?H ! i ! j * ?H ! j ! k))"
      by (subst sum.swap) (simp add: sum_distrib_left)
    also have "\<dots> = (\<Sum>i<2 ^ n. A ! r ! i * (if i = k then 1 else 0))"
      using k by (intro sum.cong) (simp_all add: hadamard_orthogonal)
    also have "\<dots> = A ! r ! k" using k by (simp add: if_distrib cong: if_cong)
    finally show "matmul (matmul A ?H) ?H ! r ! k = A ! r ! k" .
  qed
qed

theorem hadamard_involution_witness:
  "matmul (matmul [[1, 2, 3, 5]] (hadamard 4)) (hadamard 4) = [[1, 2, 3, 5]]"
proof -
  have "rect (2 ^ 2) [[1, 2, 3, 5 :: real]]" by (simp add: rect_def)
  from hadamard_involution [OF this] show ?thesis by simp
qed

section \<open>Quantising a batch is quantising its tiles\<close>

text \<open>The configurations of the presets: bit widths 2 or 4, dimensions divisible by 4.\<close>

definition tile_cfg :: "kvarn_config \<Rightarrow> bool" where
  "tile_cfg c \<longleftrightarrow> 0 < head_dim c \<and> 4 dvd head_dim c \<and> 0 < group c \<and> 4 dvd group c \<and>
     key_bits c \<in> {2, 4} \<and> value_bits c \<in> {2, 4}"

lemma preset_tile_cfg:
  assumes "from_cache_dtype ei es d hsize = Inr c" and "supports_head_size hsize"
  shows "tile_cfg c"
  using assms(1)
  by (rule presets_cases) (use assms(2) in \<open>auto simp: tile_cfg_def supports_head_size_def\<close>)

lemma tile_cfg_packed:
  assumes "tile_cfg c"
  shows "k_packed_bytes c = head_dim c * (group c div (8 div key_bits c))"
    "v_packed_bytes c = group c * (head_dim c div (8 div value_bits c))"
    "even (k_packed_bytes c)" "even (v_packed_bytes c)"
proof -
  obtain d g where dg: "head_dim c = 4 * d" "group c = 4 * g" "0 < d" "0 < g"
    using assms by (auto simp: tile_cfg_def elim!: dvdE)
  have kb: "key_bits c = 2 \<or> key_bits c = 4" and vb: "value_bits c = 2 \<or> value_bits c = 4"
    using assms by (auto simp: tile_cfg_def)
  have ex: "cdiv (32 * n) 8 = 4 * n" "cdiv (64 * n) 8 = 8 * n" for n :: int
    by (simp_all add: cdiv_exact)
  have "head_dim c * group c = 16 * (d * g)" "group c * head_dim c = 16 * (d * g)"
    by (simp_all add: dg)
  then show "k_packed_bytes c = head_dim c * (group c div (8 div key_bits c))"
    "v_packed_bytes c = group c * (head_dim c div (8 div value_bits c))"
    "even (k_packed_bytes c)" "even (v_packed_bytes c)"
    using kb vb by (auto simp: k_packed_bytes_def v_packed_bytes_def ex dg)
qed

lemma tile_cfg_record: "tile_cfg c \<Longrightarrow> record_cfg c"
  using tile_cfg_packed [of c] by (auto simp: record_cfg_def cfg_ok_def tile_cfg_def)

lemma tile_cfg_nat:
  assumes "tile_cfg c"
  shows "0 < nat (key_bits c)" "nat (key_bits c) \<le> 8" "nat (group c) mod (8 div nat (key_bits c)) = 0"
    "0 < nat (value_bits c)" "nat (value_bits c) \<le> 8"
    "nat (head_dim c) mod (8 div nat (value_bits c)) = 0"
    "2 \<le> nat (head_dim c)" "2 \<le> nat (group c)"
    "nat (k_packed_bytes c) = nat (head_dim c) * (nat (group c) div (8 div nat (key_bits c)))"
    "nat (v_packed_bytes c) = nat (group c) * (nat (head_dim c) div (8 div nat (value_bits c)))"
    "even (nat (tile_bytes_aligned c))"
proof -
  obtain d g where dg: "head_dim c = 4 * d" "group c = 4 * g" "0 < d" "0 < g"
    using assms by (auto simp: tile_cfg_def elim!: dvdE)
  have kb: "key_bits c = 2 \<or> key_bits c = 4" and vb: "value_bits c = 2 \<or> value_bits c = 4"
    using assms by (auto simp: tile_cfg_def)
  have n: "nat (head_dim c) = 4 * nat d" "nat (group c) = 4 * nat g" using dg by (simp_all add: nat_mult_distrib)
  show "0 < nat (key_bits c)" "nat (key_bits c) \<le> 8" "nat (group c) mod (8 div nat (key_bits c)) = 0"
    "0 < nat (value_bits c)" "nat (value_bits c) \<le> 8"
    "nat (head_dim c) mod (8 div nat (value_bits c)) = 0"
    "2 \<le> nat (head_dim c)" "2 \<le> nat (group c)"
    using kb vb dg(3,4) by (auto simp: n)
  show "nat (k_packed_bytes c) = nat (head_dim c) * (nat (group c) div (8 div nat (key_bits c)))"
    "nat (v_packed_bytes c) = nat (group c) * (nat (head_dim c) div (8 div nat (value_bits c)))"
    using kb vb dg by (auto simp: tile_cfg_packed [OF assms] n nat_mult_distrib)
  have "even (tile_bytes_aligned c)"
    by (auto simp: tile_bytes_aligned_def Let_def dg(2))
  then show "even (nat (tile_bytes_aligned c))" by (cases "0 \<le> tile_bytes_aligned c") (simp_all add: even_nat_iff)
qed

lemma k_batch_map:
  assumes "\<And>x. x \<in> set xs \<Longrightarrow>
    kvarn_store_tile_k_batch_from_sinkhorn q e h [g x] bits = Inr [f x]"
  shows "kvarn_store_tile_k_batch_from_sinkhorn q e h (map g xs) bits = Inr (map f xs)"
  unfolding kvarn_store_tile_k_batch_from_sinkhorn_def map_res_map
  by (rule map_res_Inr)
    (use assms in \<open>auto simp: kvarn_store_tile_k_batch_from_sinkhorn_def bind_res_eq_Inr\<close>)

lemma v_batch_map:
  assumes "\<And>x. x \<in> set xs \<Longrightarrow>
    kvarn_store_tile_v_batch_from_sinkhorn q e h [g x] bits = Inr [f x]"
  shows "kvarn_store_tile_v_batch_from_sinkhorn q e h (map g xs) bits = Inr (map f xs)"
  unfolding kvarn_store_tile_v_batch_from_sinkhorn_def map_res_map
  by (rule map_res_Inr)
    (use assms in \<open>auto simp: kvarn_store_tile_v_batch_from_sinkhorn_def bind_res_eq_Inr\<close>)

lemma sinkhorn_pack_kv_map:
  assumes big: "\<forall>m \<in> set Ks. \<exists>C. big C m" "\<forall>m \<in> set Vs. \<exists>C. big C m"
    and k: "\<And>m. m \<in> set Ks \<Longrightarrow> kvarn_store_tile_k_batch_from_sinkhorn (quantile_of T) (rtn_quantile T)
      (to16 T) [variance_normalize m (nat (sinkhorn_iters c))] (nat (key_bits c)) = Inr [f m]"
    and v: "\<And>m. m \<in> set Vs \<Longrightarrow> kvarn_store_tile_v_batch_from_sinkhorn (quantile_of T) (rtn_quantile T)
      (to16 T) [variance_normalize m (nat (sinkhorn_iters c))] (nat (value_bits c)) = Inr [g m]"
  shows "sinkhorn_pack_kv T Ks Vs c = Inr (map f Ks, map g Vs)"
proof -
  let ?n = "nat (sinkhorn_iters c)"
  have "kvarn_sinkhorn_triton (Ks @ Vs) ?n =
      map (\<lambda>m. variance_normalize m ?n) Ks @ map (\<lambda>m. variance_normalize m ?n) Vs"
    using big by (subst sinkhorn_triton_eq) auto
  then show ?thesis
    using big k_batch_map [of Ks _ _ _ "\<lambda>m. variance_normalize m ?n" _ f, OF k]
      v_batch_map [of Vs _ _ _ "\<lambda>m. variance_normalize m ?n" _ g, OF v]
    by (simp add: sinkhorn_pack_kv_def Let_def sinkhorn_triton_eq)
qed

section \<open>Flushing and reading back\<close>

text \<open>
  What a half-precision cast is assumed to satisfy: casting twice is casting once, and the error on
  the scales of a tile is bounded.
\<close>

definition cast_idem :: "torch_env \<Rightarrow> bool" where
  "cast_idem T \<longleftrightarrow> (\<forall>x. to16 T (to16 T x) = to16 T x)"

definition scales_ok :: "torch_env \<Rightarrow> real \<Rightarrow> real \<Rightarrow> nat \<Rightarrow> nat \<Rightarrow> tile \<Rightarrow> bool" where
  "scales_ok T \<delta> \<eta> iters bits m \<longleftrightarrow>
     (case variance_normalize m iters of (bal, sc, sr) \<Rightarrow>
        \<forall>x \<in> set (stored_scales bits bal sc sr). \<bar>to16 T x - x\<bar> \<le> \<delta> * \<bar>x\<bar> + \<eta>)"

definition tile_bound :: "real \<Rightarrow> real \<Rightarrow> nat \<Rightarrow> nat \<Rightarrow> tile \<Rightarrow> nat \<Rightarrow> nat \<Rightarrow> real" where
  "tile_bound \<delta> \<eta> iters bits m r k =
     (case variance_normalize m iters of (bal, sc, sr) \<Rightarrow>
        cell_bound \<delta> \<eta> bits (bal ! r) (sr ! r) (sc ! k))"

definition near :: "real \<Rightarrow> real \<Rightarrow> nat \<Rightarrow> nat \<Rightarrow> tile \<Rightarrow> tile \<Rightarrow> bool" where
  "near \<delta> \<eta> iters bits m K \<longleftrightarrow> rect (tile_cols m) K \<and> length K = length m \<and>
     (\<forall>r < length m. \<forall>k < tile_cols m. \<bar>K ! r ! k - m ! r ! k\<bar> \<le> tile_bound \<delta> \<eta> iters bits m r k)"

text \<open>\<open>sk\<close> (\<open>sv\<close>) is what the stores make of the tile \<open>m\<close>, has the record's shape and reads back near it.\<close>

definition k_stored :: "torch_env \<Rightarrow> real \<Rightarrow> real \<Rightarrow> kvarn_config \<Rightarrow> tile \<Rightarrow> k_store \<Rightarrow> bool" where
  "k_stored T \<delta> \<eta> c m sk \<longleftrightarrow>
     kvarn_store_tile_k_batch_from_sinkhorn (quantile_of T) (rtn_quantile T) (to16 T)
       [variance_normalize m (nat (sinkhorn_iters c))] (nat (key_bits c)) = Inr [sk] \<and>
     k_fits c sk \<and> k_rows_ok c sk \<and>
     (\<exists>K. kvarn_dequant_tile_k (q_packed_K sk) (map (to16 T) (s_col_K sk)) (map (to16 T) (zp_K sk))
        (map (to16 T) (s_row_K sk)) (nat (group c)) (nat (key_bits c)) = Inr K \<and>
      near \<delta> \<eta> (nat (sinkhorn_iters c)) (nat (key_bits c)) m K)"

definition v_stored :: "torch_env \<Rightarrow> real \<Rightarrow> real \<Rightarrow> kvarn_config \<Rightarrow> tile \<Rightarrow> v_store \<Rightarrow> bool" where
  "v_stored T \<delta> \<eta> c m sv \<longleftrightarrow>
     kvarn_store_tile_v_batch_from_sinkhorn (quantile_of T) (rtn_quantile T) (to16 T)
       [variance_normalize m (nat (sinkhorn_iters c))] (nat (value_bits c)) = Inr [sv] \<and>
     v_fits c sv \<and> v_rows_ok c sv \<and>
     (\<exists>V. kvarn_dequant_tile_v (q_packed_V sv) (map (to16 T) (s_col_V sv)) (map (to16 T) (s_row_V sv))
        (map (to16 T) (zp_V sv)) (nat (head_dim c)) (nat (value_bits c)) = Inr V \<and>
      near \<delta> \<eta> (nat (sinkhorn_iters c)) (nat (value_bits c)) m V)"

lemma k_tile_path:
  assumes c: "tile_cfg c" and m: "rect (nat (group c)) m" "length m = nat (head_dim c)"
    and T: "rtn_quantile T = None" "cast_idem T" and de: "0 \<le> \<delta>" "0 \<le> \<eta>"
    and sc: "scales_ok T \<delta> \<eta> (nat (sinkhorn_iters c)) (nat (key_bits c)) m"
  shows "\<exists>sk. k_stored T \<delta> \<eta> c m sk"
proof -
  obtain bal s_c s_r where v: "variance_normalize m (nat (sinkhorn_iters c)) = (bal, s_c, s_r)"
    by (metis surj_pair)
  note n = tile_cfg_nat [OF c]
  have "\<forall>x \<in> set (stored_scales (nat (key_bits c)) bal s_c s_r). \<bar>to16 T x - x\<bar> \<le> \<delta> * \<bar>x\<bar> + \<eta>"
    using sc by (simp add: scales_ok_def v)
  from store_tiles [OF m(1) v n(1-3) this de, of "quantile_of T"] obtain ps a z b K where
    st: "kvarn_store_tile_k_batch_from_sinkhorn (quantile_of T) None (to16 T) [(bal, s_c, s_r)] (nat (key_bits c)) =
       Inr [\<lparr>q_packed_K = ps, s_col_K = map (to16 T) a, zp_K = map (to16 T) z, s_row_K = map (to16 T) b\<rparr>]"
    and dq: "kvarn_dequant_tile_k ps (map (to16 T) a) (map (to16 T) z) (map (to16 T) b) (nat (group c))
       (nat (key_bits c)) = Inr K"
    and sh: "length ps = length m" "\<forall>p \<in> set ps. length p = nat (group c) div (8 div nat (key_bits c))"
      "length a = length m" "length z = length m" "length b = nat (group c)"
      "rect (nat (group c)) K" "length K = length m"
    and err: "\<forall>r < length m. \<forall>k < nat (group c). \<bar>K ! r ! k - m ! r ! k\<bar> \<le>
       cell_bound \<delta> \<eta> (nat (key_bits c)) (bal ! r) (s_r ! r) (s_c ! k)" by metis
  let ?sk = "\<lparr>q_packed_K = ps, s_col_K = map (to16 T) a, zp_K = map (to16 T) z, s_row_K = map (to16 T) b\<rparr>"
  have idem: "map (to16 T) (map (to16 T) xs) = map (to16 T) xs" for xs
    using T(2) by (simp add: cast_idem_def)
  have "length (concat ps) = nat (k_packed_bytes c)"
    using sh(1) m(2) by (simp add: n(9) length_concat_uniform [OF sh(2)])
  then have "k_fits c ?sk" "k_rows_ok c ?sk" using sh m(2) by (simp_all add: k_fits_def k_rows_ok_def)
  moreover have "near \<delta> \<eta> (nat (sinkhorn_iters c)) (nat (key_bits c)) m K"
    using err sh by (simp add: near_def tile_bound_def v rect_cols [OF m(1)])
  ultimately have "k_stored T \<delta> \<eta> c m ?sk" using st dq T(1) by (simp add: k_stored_def v idem del: map_map)
  then show ?thesis ..
qed

lemma v_tile_path:
  assumes c: "tile_cfg c" and m: "rect (nat (head_dim c)) m" "length m = nat (group c)"
    and T: "rtn_quantile T = None" "cast_idem T" and de: "0 \<le> \<delta>" "0 \<le> \<eta>"
    and sc: "scales_ok T \<delta> \<eta> (nat (sinkhorn_iters c)) (nat (value_bits c)) m"
  shows "\<exists>sv. v_stored T \<delta> \<eta> c m sv"
proof -
  obtain bal s_c s_r where v: "variance_normalize m (nat (sinkhorn_iters c)) = (bal, s_c, s_r)"
    by (metis surj_pair)
  note n = tile_cfg_nat [OF c]
  have "\<forall>x \<in> set (stored_scales (nat (value_bits c)) bal s_c s_r). \<bar>to16 T x - x\<bar> \<le> \<delta> * \<bar>x\<bar> + \<eta>"
    using sc by (simp add: scales_ok_def v)
  from store_tiles [OF m(1) v n(4-6) this de, of "quantile_of T"] obtain ps a z b V where
    st: "kvarn_store_tile_v_batch_from_sinkhorn (quantile_of T) None (to16 T) [(bal, s_c, s_r)] (nat (value_bits c)) =
       Inr [\<lparr>q_packed_V = ps, s_col_V = map (to16 T) b, s_row_V = map (to16 T) a, zp_V = map (to16 T) z\<rparr>]"
    and dq: "kvarn_dequant_tile_v ps (map (to16 T) b) (map (to16 T) a) (map (to16 T) z) (nat (head_dim c))
       (nat (value_bits c)) = Inr V"
    and sh: "length ps = length m" "\<forall>p \<in> set ps. length p = nat (head_dim c) div (8 div nat (value_bits c))"
      "length a = length m" "length z = length m" "length b = nat (head_dim c)"
      "rect (nat (head_dim c)) V" "length V = length m"
    and err: "\<forall>r < length m. \<forall>k < nat (head_dim c). \<bar>V ! r ! k - m ! r ! k\<bar> \<le>
       cell_bound \<delta> \<eta> (nat (value_bits c)) (bal ! r) (s_r ! r) (s_c ! k)" by metis
  let ?sv = "\<lparr>q_packed_V = ps, s_col_V = map (to16 T) b, s_row_V = map (to16 T) a, zp_V = map (to16 T) z\<rparr>"
  have idem: "map (to16 T) (map (to16 T) xs) = map (to16 T) xs" for xs
    using T(2) by (simp add: cast_idem_def)
  have "length (concat ps) = nat (v_packed_bytes c)"
    using sh(1) m(2) by (simp add: n(10) length_concat_uniform [OF sh(2)])
  then have "v_fits c ?sv" "v_rows_ok c ?sv" using sh m(2) by (simp_all add: v_fits_def v_rows_ok_def)
  moreover have "near \<delta> \<eta> (nat (sinkhorn_iters c)) (nat (value_bits c)) m V"
    using err sh by (simp add: near_def tile_bound_def v rect_cols [OF m(1)])
  ultimately have "v_stored T \<delta> \<eta> c m ?sv" using st dq T(1) by (simp add: v_stored_def v idem del: map_map)
  then show ?thesis ..
qed

text \<open>The bytes a (block, head) holds after the record of a store was written over \<open>flat\<close>.\<close>

definition flushed_bytes :: "torch_env \<Rightarrow> kvarn_config \<Rightarrow> k_store \<times> v_store \<Rightarrow> byte list \<Rightarrow> byte list" where
  "flushed_bytes T c s flat =
     (case s of (sk, sv) \<Rightarrow> concat (record_parts T sk sv) @ drop (nat (tile_bytes c)) flat)"

definition cache_ok :: "kvarn_config \<Rightarrow> nat \<Rightarrow> kv_cache \<Rightarrow> bool" where
  "cache_ok c Hk kvc \<longleftrightarrow>
     (\<forall>blk \<in> set kvc. length blk = Hk \<and> (\<forall>flat \<in> set blk. length flat = nat (tile_bytes_aligned c)))"

lemma cache_ok_nth:
  assumes "cache_ok c Hk kvc" "bid < length kvc"
  shows "length (kvc ! bid) = Hk" "h < Hk \<Longrightarrow> length (kvc ! bid ! h) = nat (tile_bytes_aligned c)"
proof -
  have b: "kvc ! bid \<in> set kvc" using assms(2) by simp
  then show l: "length (kvc ! bid) = Hk" using assms(1) by (simp add: cache_ok_def)
  assume "h < Hk"
  then have "kvc ! bid ! h \<in> set (kvc ! bid)" using l by simp
  then show "length (kvc ! bid ! h) = nat (tile_bytes_aligned c)"
    using assms(1) b by (simp add: cache_ok_def)
qed

lemma write_packed_eq:
  assumes c: "tile_cfg c" and kvc: "bid < length kvc" "h < length (kvc ! bid)"
    and len: "length (kvc ! bid ! h) = nat (tile_bytes_aligned c)" and s: "k_fits c sk" "v_fits c sv"
  shows "write_packed T c kvc bid h sk sv =
    Inr (kvc[bid := (kvc ! bid)[h := flushed_bytes T c (sk, sv) (kvc ! bid ! h)]])"
proof -
  note rc = tile_cfg_record [OF c]
  have "nat (tile_bytes c) \<le> nat (tile_bytes_aligned c)"
    using tile_bytes_le_aligned rc by (intro nat_mono) (simp add: record_cfg_def)
  then show ?thesis
    using kvc len tile_cfg_nat(11) [OF c]
    by (simp add: write_packed_def Let_def write_record_eq [OF rc s] flushed_bytes_def)
qed

lemma write_heads_prefix:
  assumes c: "tile_cfg c" and kvc: "bid < length kvc" "cache_ok c Hk kvc"
    and s: "length ss = Hk" "\<And>sk sv. (sk, sv) \<in> set ss \<Longrightarrow> k_fits c sk \<and> v_fits c sv" and n: "n \<le> Hk"
  shows "write_heads T c bid (zip [0 ..< n] (take n ss)) kvc =
    Inr (kvc[bid := map2 (flushed_bytes T c) (take n ss) (kvc ! bid) @ drop n (kvc ! bid)])"
  using n
proof (induction n)
  case 0
  then show ?case by (simp add: write_heads_def)
next
  case (Suc n)
  let ?f = "flushed_bytes T c" and ?blk = "kvc ! bid"
  let ?mid = "map2 ?f (take n ss) ?blk @ drop n ?blk"
  note lk = cache_ok_nth [OF kvc(2,1)]
  obtain sk sv where sn: "ss ! n = (sk, sv)" by (cases "ss ! n")
  have fits: "k_fits c sk" "v_fits c sv" using s sn Suc.prems by (metis Suc_le_lessD nth_mem)+
  have lm: "length (map2 ?f (take n ss) ?blk) = n" using s(1) lk(1) Suc.prems by simp
  have mid: "?mid ! n = ?blk ! n" "length ?mid = Hk"
    using lm lk(1) Suc.prems by (simp_all add: nth_append)
  have "zip [0 ..< Suc n] (take (Suc n) ss) = zip [0 ..< n] (take n ss) @ [(n, sk, sv)]"
    using Suc.prems s(1) sn by (simp add: take_Suc_conv_app_nth)
  then have "write_heads T c bid (zip [0 ..< Suc n] (take (Suc n) ss)) kvc =
      write_packed T c (kvc[bid := ?mid]) bid n sk sv"
    using Suc by (simp add: write_heads_def fold_res_append)
  also have "\<dots> = Inr (kvc[bid := ?mid[n := ?f (sk, sv) (?blk ! n)]])"
    using write_packed_eq [OF c _ _ _ fits, of bid "kvc[bid := ?mid]" n T] kvc(1) Suc.prems mid lk(2) [of n]
    by simp
  also have "?mid[n := ?f (sk, sv) (?blk ! n)] =
      map2 ?f (take n ss) ?blk @ ?f (sk, sv) (?blk ! n) # drop (Suc n) ?blk"
    using lm lk(1) Suc.prems by (simp add: list_update_append flip: Cons_nth_drop_Suc)
  also have "map2 ?f (take n ss) ?blk @ ?f (sk, sv) (?blk ! n) # drop (Suc n) ?blk =
      (map2 ?f (take n ss) ?blk @ [?f (ss ! n) (?blk ! n)]) @ drop (Suc n) ?blk" by (simp add: sn)
  also have "map2 ?f (take n ss) ?blk @ [?f (ss ! n) (?blk ! n)] = map2 ?f (take (Suc n) ss) ?blk"
    using Suc.prems s(1) lk(1) by (intro nth_equalityI) (auto simp: nth_append less_Suc_eq)
  finally show ?case .
qed

lemma length_tiles [simp]: "length (k_tiles c Hk K) = Hk" "length (v_tiles c Hk V) = Hk"
  by (simp_all add: k_tiles_def v_tiles_def)

lemma k_tiles_shape:
  assumes "tile_cfg c" "m \<in> set (k_tiles c Hk K)"
  shows "big (nat (group c)) m" "rect (nat (group c)) m" "length m = nat (head_dim c)"
  using assms tile_cfg_nat(7,8) [OF assms(1)] by (auto simp: k_tiles_def big_def rect_def)

lemma v_tiles_shape:
  assumes "tile_cfg c" "m \<in> set (v_tiles c Hk V)"
  shows "big (nat (head_dim c)) m" "rect (nat (head_dim c)) m" "length m = nat (group c)"
  using assms tile_cfg_nat(7,8) [OF assms(1)] by (auto simp: v_tiles_def big_def rect_def)

text \<open>Read results of a head's bytes: both rotated tiles are near what the pool slot held.\<close>

definition head_near ::
  "torch_env \<Rightarrow> real \<Rightarrow> real \<Rightarrow> kvarn_config \<Rightarrow> tile \<Rightarrow> tile \<Rightarrow> nat \<Rightarrow> byte list \<Rightarrow> bool" where
  "head_near T \<delta> \<eta> c mk mv base flat \<longleftrightarrow>
     (\<exists>K V. read_k T c base flat = Inr K \<and> read_v T c base flat = Inr V \<and>
        near \<delta> \<eta> (nat (sinkhorn_iters c)) (nat (key_bits c)) mk K \<and>
        near \<delta> \<eta> (nat (sinkhorn_iters c)) (nat (value_bits c)) mv V)"

text \<open>The same for a whole batch of slots, as the batched flushes stack them.\<close>

definition slot_ok :: "torch_env \<Rightarrow> real \<Rightarrow> real \<Rightarrow> kvarn_config \<Rightarrow> nat \<Rightarrow> impl \<Rightarrow> nat \<Rightarrow> bool" where
  "slot_ok T \<delta> \<eta> c Hk im slot \<longleftrightarrow> slot < length (tail_K_pool im) \<and> slot < length (tail_V_pool im) \<and>
     (\<forall>m \<in> set (k_tiles c Hk (tail_K_pool im ! slot)).
        scales_ok T \<delta> \<eta> (nat (sinkhorn_iters c)) (nat (key_bits c)) m) \<and>
     (\<forall>m \<in> set (v_tiles c Hk (tail_V_pool im ! slot)).
        scales_ok T \<delta> \<eta> (nat (sinkhorn_iters c)) (nat (value_bits c)) m)"

definition env_ok :: "torch_env \<Rightarrow> real \<Rightarrow> real \<Rightarrow> kvarn_config \<Rightarrow> bool" where
  "env_ok T \<delta> \<eta> c \<longleftrightarrow> tile_cfg c \<and> rtn_quantile T = None \<and> cast_idem T \<and> 0 \<le> \<delta> \<and> 0 \<le> \<eta>"

lemma pack_kv_stored:
  assumes env: "env_ok T \<delta> \<eta> c" and slots: "\<forall>(im, slot) \<in> set ps. slot_ok T \<delta> \<eta> c Hk im slot"
  defines "Ks \<equiv> concat (map (\<lambda>(im, slot). k_tiles c Hk (tail_K_pool im ! slot)) ps)"
    and "Vs \<equiv> concat (map (\<lambda>(im, slot). v_tiles c Hk (tail_V_pool im ! slot)) ps)"
  obtains f g where "sinkhorn_pack_kv T Ks Vs c = Inr (map f Ks, map g Vs)"
    "\<And>m. m \<in> set Ks \<Longrightarrow> k_stored T \<delta> \<eta> c m (f m)" "\<And>m. m \<in> set Vs \<Longrightarrow> v_stored T \<delta> \<eta> c m (g m)"
proof -
  have c: "tile_cfg c" and T: "rtn_quantile T = None" "cast_idem T" and de: "0 \<le> \<delta>" "0 \<le> \<eta>"
    using env by (simp_all add: env_ok_def)
  have sh: "big (nat (group c)) m" "rect (nat (group c)) m" "length m = nat (head_dim c)"
    "scales_ok T \<delta> \<eta> (nat (sinkhorn_iters c)) (nat (key_bits c)) m" if "m \<in> set Ks" for m
    using that slots k_tiles_shape [OF c] by (auto simp: Ks_def slot_ok_def)
  have sh': "big (nat (head_dim c)) m" "rect (nat (head_dim c)) m" "length m = nat (group c)"
    "scales_ok T \<delta> \<eta> (nat (sinkhorn_iters c)) (nat (value_bits c)) m" if "m \<in> set Vs" for m
    using that slots v_tiles_shape [OF c] by (auto simp: Vs_def slot_ok_def)
  from k_tile_path [OF c _ _ T de] sh obtain f where f: "\<And>m. m \<in> set Ks \<Longrightarrow> k_stored T \<delta> \<eta> c m (f m)"
    by metis
  from v_tile_path [OF c _ _ T de] sh' obtain g where g: "\<And>m. m \<in> set Vs \<Longrightarrow> v_stored T \<delta> \<eta> c m (g m)"
    by metis
  have "sinkhorn_pack_kv T Ks Vs c = Inr (map f Ks, map g Vs)"
    using sh(1) sh'(1) f g by (intro sinkhorn_pack_kv_map) (auto simp: k_stored_def v_stored_def)
  then show thesis using f g by (rule that)
qed

lemma stored_head_near:
  assumes "tile_cfg c" "k_stored T \<delta> \<eta> c mk sk" "v_stored T \<delta> \<eta> c mv sv" "even base"
  shows "head_near T \<delta> \<eta> c mk mv base (flushed_bytes T c (sk, sv) flat)"
proof -
  have "0 < key_bits c" "key_bits c \<le> 8" "0 < value_bits c" "value_bits c \<le> 8"
    using assms(1) by (auto simp: tile_cfg_def)
  then show ?thesis
    using assms tile_cfg_record [OF assms(1)]
    by (auto simp: head_near_def flushed_bytes_def k_stored_def v_stored_def read_k_record read_v_record)
qed

text \<open>
  The hypotheses of a flush: the environment casts reasonably on the scales of the slot's tiles, the
  range is the default one, the slot and the block exist and the cache has the published shape.
\<close>

definition flush_ok ::
  "torch_env \<Rightarrow> real \<Rightarrow> real \<Rightarrow> kvarn_config \<Rightarrow> nat \<Rightarrow> slot_maps \<Rightarrow> nat \<Rightarrow> nat \<Rightarrow> impl \<Rightarrow> bool" where
  "flush_ok T \<delta> \<eta> c Hk b2s bid slot im \<longleftrightarrow>
     env_ok T \<delta> \<eta> c \<and> slot_of b2s im bid = Some slot \<and> slot_ok T \<delta> \<eta> c Hk im slot \<and>
     bid < length (cache im) \<and> cache_ok c Hk (cache im)"

lemma flush_tail_eq:
  assumes ok: "flush_ok T \<delta> \<eta> c Hk b2s bid slot im"
  shows "\<exists>blk. length blk = Hk \<and>
    flush_tail T c Hk b2s bid im =
      Inr (im\<lparr>tails := removeAll bid (tails im), cache := (cache im)[bid := blk]\<rparr>) \<and>
    (\<forall>h < Hk. length (blk ! h) = nat (tile_bytes_aligned c) \<and>
      drop (nat (tile_bytes c)) (blk ! h) = drop (nat (tile_bytes c)) (cache im ! bid ! h) \<and>
      (\<forall>base. even base \<longrightarrow> head_near T \<delta> \<eta> c (k_tiles c Hk (tail_K_pool im ! slot) ! h)
        (v_tiles c Hk (tail_V_pool im ! slot) ! h) base (blk ! h)))"
proof -
  let ?Ks = "k_tiles c Hk (tail_K_pool im ! slot)" and ?Vs = "v_tiles c Hk (tail_V_pool im ! slot)"
  have env: "env_ok T \<delta> \<eta> c" and c: "tile_cfg c" and sl: "slot_ok T \<delta> \<eta> c Hk im slot"
    and kvc: "bid < length (cache im)" "cache_ok c Hk (cache im)"
    using ok by (simp_all add: flush_ok_def env_ok_def)
  obtain f g where pk: "sinkhorn_pack_kv T ?Ks ?Vs c = Inr (map f ?Ks, map g ?Vs)"
    and f: "\<And>m. m \<in> set ?Ks \<Longrightarrow> k_stored T \<delta> \<eta> c m (f m)"
    and g: "\<And>m. m \<in> set ?Vs \<Longrightarrow> v_stored T \<delta> \<eta> c m (g m)" 
    using pack_kv_stored [OF env, of "[(im, slot)]"] sl by auto
  define ss where "ss = zip (map f ?Ks) (map g ?Vs)"
  define blk where "blk = map2 (flushed_bytes T c) ss (cache im ! bid)"
  have lss: "length ss = Hk" and lblk: "length blk = Hk"
    using cache_ok_nth(1) [OF kvc(2,1)] by (simp_all add: ss_def blk_def)
  have nth: "blk ! h = flushed_bytes T c (f (?Ks ! h), g (?Vs ! h)) (cache im ! bid ! h)" if "h < Hk" for h
    using that cache_ok_nth(1) [OF kvc(2,1)] by (simp add: blk_def ss_def)
  have fits: "k_fits c sk \<and> v_fits c sv" if "(sk, sv) \<in> set ss" for sk sv
    using that f g by (auto simp: ss_def set_zip k_stored_def v_stored_def)
  have "write_heads T c bid (zip [0 ..< Hk] ss) (cache im) = Inr ((cache im)[bid := blk])"
    using write_heads_prefix [OF c kvc lss fits order_refl] cache_ok_nth(1) [OF kvc(2,1)] lss
    by (simp add: blk_def)
  then have fl: "flush_tail T c Hk b2s bid im =
      Inr (im\<lparr>tails := removeAll bid (tails im), cache := (cache im)[bid := blk]\<rparr>)"
    using ok by (simp add: flush_tail_def flush_ok_def slot_ok_def pk ss_def)
  have "k_fits c (f (?Ks ! h)) \<and> v_fits c (g (?Vs ! h))" if "h < Hk" for h
    using that f g by (simp add: k_stored_def v_stored_def)
  then have "length (concat (record_parts T (f (?Ks ! h)) (g (?Vs ! h)))) = nat (tile_bytes c)" if "h < Hk" for h
    using that tile_cfg_record [OF c] by (simp add: length_record_parts record_cfg_def)
  moreover have "nat (tile_bytes c) \<le> nat (tile_bytes_aligned c)"
    using tile_bytes_le_aligned tile_cfg_record [OF c] by (intro nat_mono) (simp add: record_cfg_def)
  ultimately have "length (blk ! h) = nat (tile_bytes_aligned c) \<and>
      drop (nat (tile_bytes c)) (blk ! h) = drop (nat (tile_bytes c)) (cache im ! bid ! h)" if "h < Hk" for h
    using that cache_ok_nth(2) [OF kvc(2,1) that] by (simp add: nth flushed_bytes_def)
  moreover have "head_near T \<delta> \<eta> c (?Ks ! h) (?Vs ! h) base (blk ! h)" if "h < Hk" "even base" for h base
    using that stored_head_near [OF c f g] by (simp add: nth)
  ultimately show ?thesis using lblk fl by blast
qed

definition block_near ::
  "torch_env \<Rightarrow> real \<Rightarrow> real \<Rightarrow> kvarn_config \<Rightarrow> nat \<Rightarrow> real list list list \<Rightarrow> real list list list \<Rightarrow>
   tile list \<Rightarrow> tile list \<Rightarrow> bool" where
  "block_near T \<delta> \<eta> c Hk PK PV Ko Vo \<longleftrightarrow>
     (\<forall>h < Hk. \<exists>K V.
        near \<delta> \<eta> (nat (sinkhorn_iters c)) (nat (key_bits c)) (k_tiles c Hk PK ! h) K \<and>
        near \<delta> \<eta> (nat (sinkhorn_iters c)) (nat (value_bits c)) (v_tiles c Hk PV ! h) V \<and>
        (\<forall>g < nat (group c).
          Ko ! g ! h = map (to16 T) (matmul (columns K) (hadamard (nat (head_dim c))) ! g) \<and>
          Vo ! g ! h = map (to16 T) (matmul V (hadamard (nat (head_dim c))) ! g)))"

lemma read_block_near:
  assumes c: "tile_cfg c" and kvc: "bid < length kvc" "cache_ok c Hk kvc"
    and near: "\<And>h base. h < Hk \<Longrightarrow> even base \<Longrightarrow>
      head_near T \<delta> \<eta> c (k_tiles c Hk PK ! h) (v_tiles c Hk PV ! h) base (kvc ! bid ! h)"
  shows "\<exists>Ko Vo. read_block_dequantized T c Hk kvc bid = Inr (Ko, Vo) \<and> block_near T \<delta> \<eta> c Hk PK PV Ko Vo"
proof -
  let ?H = "hadamard (nat (head_dim c))"
  let ?base = "\<lambda>h. (bid * Hk + h) * nat (tile_bytes_aligned c)"
  note len = cache_ok_nth [OF kvc(2,1)]
  have "\<exists>K V. read_k T c (?base h) (kvc ! bid ! h) = Inr K \<and> read_v T c (?base h) (kvc ! bid ! h) = Inr V \<and>
      near \<delta> \<eta> (nat (sinkhorn_iters c)) (nat (key_bits c)) (k_tiles c Hk PK ! h) K \<and>
      near \<delta> \<eta> (nat (sinkhorn_iters c)) (nat (value_bits c)) (v_tiles c Hk PV ! h) V" if "h < Hk" for h
    using near [OF that, of "?base h"] tile_cfg_nat(11) [OF c] by (simp add: head_near_def)
  then obtain K V where
    rd: "\<And>h. h < Hk \<Longrightarrow> read_k T c (?base h) (kvc ! bid ! h) = Inr (K h) \<and>
      read_v T c (?base h) (kvc ! bid ! h) = Inr (V h)"
    and nr: "\<And>h. h < Hk \<Longrightarrow>
      near \<delta> \<eta> (nat (sinkhorn_iters c)) (nat (key_bits c)) (k_tiles c Hk PK ! h) (K h) \<and>
      near \<delta> \<eta> (nat (sinkhorn_iters c)) (nat (value_bits c)) (v_tiles c Hk PV ! h) (V h)" by metis
  let ?out = "\<lambda>h. (map (map (to16 T)) (matmul (columns (K h)) ?H), map (map (to16 T)) (matmul (V h) ?H))"
  have "read_head T c kvc bid h = Inr (?out h)" if "h < Hk" for h
    using that kvc(1) len rd by (simp add: read_head_def Let_def)
  then have heads: "map_res (read_head T c kvc bid) [0 ..< Hk] = Inr (map ?out [0 ..< Hk])"
    by (intro map_res_Inr) simp
  have cols: "g < length (matmul (columns (K h)) ?H)" "g < length (matmul (V h) ?H)"
    if "h < Hk" "g < nat (group c)" for h g
  proof -
    have m: "k_tiles c Hk PK ! h \<in> set (k_tiles c Hk PK)" "v_tiles c Hk PV ! h \<in> set (v_tiles c Hk PV)"
      using that by simp_all
    show "g < length (matmul (columns (K h)) ?H)" "g < length (matmul (V h) ?H)"
      using nr [OF that(1)] that k_tiles_shape [OF c m(1)] v_tiles_shape [OF c m(2)]
      by (auto simp: near_def matmul_def length_columns rect_cols)
  qed
  define Ko Vo where "Ko = map (\<lambda>g. map (\<lambda>(K, _). K ! g) (map ?out [0 ..< Hk])) [0 ..< nat (group c)]"
    and "Vo = map (\<lambda>g. map (\<lambda>(_, V). V ! g) (map ?out [0 ..< Hk])) [0 ..< nat (group c)]"
  have "read_block_dequantized T c Hk kvc bid = Inr (Ko, Vo)"
    by (simp add: read_block_dequantized_def heads Ko_def Vo_def del: map_map)
  moreover have "block_near T \<delta> \<eta> c Hk PK PV Ko Vo"
    unfolding block_near_def
  proof (intro allI impI)
    fix h assume "h < Hk"
    then show "\<exists>K V.
        near \<delta> \<eta> (nat (sinkhorn_iters c)) (nat (key_bits c)) (k_tiles c Hk PK ! h) K \<and>
        near \<delta> \<eta> (nat (sinkhorn_iters c)) (nat (value_bits c)) (v_tiles c Hk PV ! h) V \<and>
        (\<forall>g < nat (group c). Ko ! g ! h = map (to16 T) (matmul (columns K) ?H ! g) \<and>
          Vo ! g ! h = map (to16 T) (matmul V ?H ! g))"
      using nr cols by (intro exI [of _ "K h"] exI [of _ "V h"]) (simp add: Ko_def Vo_def)
  qed
  ultimately show ?thesis by blast
qed


text \<open>A layer with one slot, one head and a four-by-four tile.\<close>

definition one_impl :: impl where
  "one_impl = \<lparr>group_key = ''g'',
     tail_K_pool = [[[[1, 2, 3, 4]], [[5, 6, 7, 8]], [[2, 2, 1, 1]], [[0, 1, 0, 1]]]],
     tail_V_pool = [[[[1, 2, 3, 4]], [[5, 6, 7, 8]], [[2, 2, 1, 1]], [[0, 1, 0, 1]]]],
     cache = [[replicate 64 0], [replicate 64 0]], tails = [1]\<rparr>"

lemma int_env_to16: "to16 int_env x = of_int (\<lfloor>x\<rfloor> mod 65536)"
  by (simp add: to16_def int_env_def uint_word_of_int del: of_int_uint)

lemma int_env_err: "\<bar>to16 int_env x - x\<bar> \<le> 1 * \<bar>x\<bar> + 65536"
proof -
  have "0 \<le> \<lfloor>x\<rfloor> mod 65536" "\<lfloor>x\<rfloor> mod 65536 < 65536" by simp_all
  then have "0 \<le> (of_int (\<lfloor>x\<rfloor> mod 65536) :: real)" "(of_int (\<lfloor>x\<rfloor> mod 65536) :: real) \<le> 65536"
    by linarith+
  then show ?thesis unfolding int_env_to16 by linarith
qed

lemma one_impl_ok: "flush_ok int_env 1 65536 small_cfg 1 [(''g'', [(1, 0)])] 1 0 one_impl"
proof -
  have "cast_idem int_env" by (simp add: cast_idem_def int_env_to16)
  moreover have "scales_ok int_env 1 65536 n bits m" for n bits m
    unfolding scales_ok_def using int_env_err by (auto split: prod.split)
  moreover have "nat (tile_bytes_aligned small_cfg) = 64"
    by (simp add: tile_bytes_aligned_def small_cfg_def tile_size_defs cdiv_def)
  ultimately show ?thesis
    by (simp add: flush_ok_def env_ok_def slot_ok_def cache_ok_def tile_cfg_def slot_of_def
        small_cfg_def one_impl_def int_env_def)
qed


end
