(* ===== verification/KVarN_Tiles.thy ===== *)
theory KVarN_Tiles
  imports KVarN_Config "HOL-Library.Multiset"
begin

text \<open>
  The tile lifecycle of \<open>KVarNMetadataBuilder\<close> (\<^verbatim>\<open>vllm/v1/attention/backends/kvarn_attn.py\<close>): the
  expansion of the block table to tile rows (\<open>_tile_row_table\<close>), the allocator state that
  \<open>_ensure_pool\<close> creates, and the part of \<open>build\<close> that gives every tile written in a step a slot of
  the fp16 tail pool, decides which tiles are flushed to the quantised cache, and frees their slots.

  Python sets are lists without duplicates. The order in which a set is iterated is not specified, so
  the one loop over a set takes it from an argument \<open>set_iter\<close>. The quantisation a flush triggers on
  every layer is recorded in \<open>flush_log\<close> as the tile and the slot it is read from; its effect on a
  layer is the subject of \<open>KVarN_Flush\<close>. Device copies of the block-to-slot map and of the sink labels
  (\<open>b2s_t\<close>, \<open>is_sink_t\<close>) are part of the state, because the kernels read only those.
\<close>

section \<open>Definitions: tile rows\<close>

definition tile_of :: "nat \<Rightarrow> int \<Rightarrow> nat \<Rightarrow> nat" where
  "tile_of tpr vbid t = nat vbid * tpr + t mod tpr"

definition tile_row :: "nat \<Rightarrow> nat \<Rightarrow> nat \<Rightarrow> nat \<Rightarrow> int list \<Rightarrow> int \<Rightarrow> int list" where
  "tile_row tpr grp max_tiles cols row sl =
     (let n = nat (min ((sl + int grp - 1) div int grp) (int max_tiles))
      in map (\<lambda>t. if t < n \<and> t div tpr < cols \<and> 0 \<le> row ! (t div tpr)
                   then int (tile_of tpr (row ! (t div tpr)) t) else - 1) [0 ..< max_tiles])"

definition tile_row_table :: "int list list \<Rightarrow> nat \<Rightarrow> int list \<Rightarrow> nat \<Rightarrow> nat \<Rightarrow> nat \<Rightarrow> int list list" where
  "tile_row_table block_table cols seq_lens tpr grp max_tiles =
     map (\<lambda>(b, sl). if cols = 0 then replicate max_tiles (- 1)
                     else tile_row tpr grp max_tiles cols (block_table ! b) sl)
       (zip [0 ..< length seq_lens] seq_lens)"

section \<open>Definitions: allocator state\<close>

definition set_add :: "'a \<Rightarrow> 'a list \<Rightarrow> 'a list" where
  "set_add x xs = (if x \<in> set xs then xs else xs @ [x])"

record tile_state =
  dict_map :: "(nat, nat) dict"
  free_slots :: "nat list"
  sinks :: "nat list"
  retired_sinks :: "nat list"
  block_fill :: "(nat, int) dict"
  b2s_t :: "int list"
  is_sink_t :: "bool list"
  max_known_block_id :: nat
  flush_log :: "(nat \<times> nat) list"

definition pool_size_of :: "int \<Rightarrow> kvarn_config \<Rightarrow> int \<Rightarrow> int \<Rightarrow> int" where
  "pool_size_of env_slots c max_seqs max_tokens =
     (if env_slots > 0 then max env_slots 64 else pool_slots c max_seqs max_tokens)"

definition init_state :: "nat \<Rightarrow> tile_state" where
  "init_state pool_size =
     \<lparr>dict_map = [], free_slots = rev [0 ..< pool_size], sinks = [], retired_sinks = [],
      block_fill = [], b2s_t = [], is_sink_t = [], max_known_block_id = 0, flush_log = []\<rparr>"

text \<open>The lookup tensors grow, and are then rebuilt from the maps.\<close>

definition ensure_mirror :: "nat \<Rightarrow> tile_state \<Rightarrow> tile_state" where
  "ensure_mirror num_blocks_hint st =
     (let n = max num_blocks_hint (max (max_known_block_id st + 1) 1024)
      in if length (b2s_t st) < n then
           st\<lparr>b2s_t := fold (\<lambda>(bid, slot) m. m[bid := int slot]) (dict_map st) (replicate n (- 1)),
              is_sink_t := fold (\<lambda>bid m. m[bid := True]) (sinks st) (replicate n False)\<rparr>
         else st)"

section \<open>Definitions: the tiles a step needs\<close>

record batch =
  seq_lens :: "int list"
  query_lens :: "int list"
  block_table :: "int list list"
  bt_cols :: nat
  slot_mapping :: "int list"

text \<open>Rows of the batch with their lengths; the loops stop at the end of the block table.\<close>

definition requests :: "batch \<Rightarrow> (int list \<times> int \<times> int) list" where
  "requests bt =
     map (\<lambda>b. (block_table bt ! b, seq_lens bt ! b,
               if b < length (query_lens bt) then query_lens bt ! b else 1))
       [0 ..< min (length (seq_lens bt)) (length (block_table bt))]"

definition committed :: "int \<Rightarrow> int \<Rightarrow> int" where
  "committed sl q = max (sl - q) 0"

definition written_tiles :: "nat \<Rightarrow> nat \<Rightarrow> nat \<Rightarrow> int \<Rightarrow> int \<Rightarrow> nat list" where
  "written_tiles grp tpr cols sl q =
     [nat (committed sl q div int grp) ..< nat (min ((sl + int grp - 1) div int grp) (int (cols * tpr)))]"

definition need_request ::
  "nat \<Rightarrow> nat \<Rightarrow> nat \<Rightarrow> int list \<times> int \<times> int \<Rightarrow> nat list \<times> (nat, int) dict \<Rightarrow> nat list \<times> (nat, int) dict" where
  "need_request grp tpr cols req acc =
     (case req of (row, sl, q) \<Rightarrow>
        if cols = 0 \<or> sl \<le> 0 then acc
        else fold (\<lambda>t (needed, fill).
               let vbid = row ! (t div tpr)
               in if vbid < 0 then (needed, fill)
                  else let tr = tile_of tpr vbid t
                       in (set_add tr needed,
                           dict_set tr (min sl (int (t + 1) * int grp) - int t * int grp) fill))
             (written_tiles grp tpr cols sl q) acc)"

definition blocks_needed ::
  "nat \<Rightarrow> nat \<Rightarrow> batch \<Rightarrow> (nat, int) dict \<Rightarrow> nat list \<times> (nat, int) dict" where
  "blocks_needed grp tpr bt fill =
     (case fold (need_request grp tpr (bt_cols bt)) (requests bt) ([], fill) of (needed, fill') \<Rightarrow>
        (fold (\<lambda>s needed. if 0 \<le> s then set_add (nat s div grp) needed else needed)
           (slot_mapping bt) needed, fill'))"

section \<open>Definitions: sinks, flush detection, reclaim, allocation\<close>

definition mark_request ::
  "nat \<Rightarrow> nat \<Rightarrow> int list \<times> int \<times> int \<Rightarrow> nat list \<times> nat list \<times> tile_state \<Rightarrow> nat list \<times> nat list \<times> tile_state" where
  "mark_request tpr cols req acc =
     (case (req, acc) of ((row, _, _), (row0, needed, st)) \<Rightarrow>
        if cols = 0 \<or> row ! 0 < 0 then acc
        else let s0 = nat (row ! 0) * tpr; row0' = set_add s0 row0
             in if s0 \<in> set (sinks st) then (row0', set_add s0 needed, st)
                else if s0 \<in> set needed then
                  (row0', needed, st\<lparr>sinks := set_add s0 (sinks st), is_sink_t := (is_sink_t st)[s0 := True]\<rparr>)
                else (row0', needed, st))"

definition unretire :: "nat list \<Rightarrow> nat \<Rightarrow> tile_state \<Rightarrow> tile_state" where
  "unretire row0 bid st =
     (let st' = st\<lparr>retired_sinks := removeAll bid (retired_sinks st)\<rparr>
      in if bid \<notin> set row0 \<and> bid \<in> set (sinks st') then
           st'\<lparr>sinks := removeAll bid (sinks st'), is_sink_t := (is_sink_t st')[bid := False]\<rparr>
         else st')"

definition unretire_needed :: "nat list \<Rightarrow> nat list \<Rightarrow> tile_state \<Rightarrow> tile_state" where
  "unretire_needed row0 needed st =
     fold (unretire row0) (filter (\<lambda>b. b \<in> set needed) (retired_sinks st)) st"

text \<open>The walk back from the committed boundary; it never looks at tile 0.\<close>

fun walk_back ::
  "nat \<Rightarrow> int list \<Rightarrow> nat list \<Rightarrow> nat list \<Rightarrow> nat \<Rightarrow> nat list \<Rightarrow> nat list res" where
  "walk_back tpr row snk held 0 ids = Inr ids"
| "walk_back tpr row snk held (Suc t) ids =
     (if Suc t div tpr \<ge> length row then Inl IndexError
      else let vbid = row ! (Suc t div tpr)
      in if vbid < 0 then Inr ids
         else let tr = tile_of tpr vbid (Suc t)
              in if tr \<in> set ids \<or> tr \<in> set snk \<or> tr \<notin> set held then Inr ids
                 else walk_back tpr row snk held t (ids @ [tr]))"

definition detect_flush ::
  "nat \<Rightarrow> nat \<Rightarrow> nat \<Rightarrow> tile_state \<Rightarrow> int list \<times> int \<times> int \<Rightarrow> nat list \<Rightarrow> nat list res" where
  "detect_flush grp tpr cols st req ids =
     (case req of (row, sl, q) \<Rightarrow>
        if cols = 0 \<or> sl \<le> 0 then Inr ids
        else walk_back tpr row (sinks st) (dict_keys (dict_map st))
               (nat (committed sl q div int grp - 1)) ids)"

definition reclaim :: "nat \<Rightarrow> nat \<Rightarrow> nat list \<times> nat list \<times> tile_state \<Rightarrow> nat list \<times> nat list \<times> tile_state" where
  "reclaim grp bid acc =
     (case acc of (ids, disc, st) \<Rightarrow>
        let full = (case dict_get (block_fill st) bid of None \<Rightarrow> False | Some n \<Rightarrow> int grp \<le> n)
        in if full \<and> bid \<in> set (sinks st) then
             (ids, disc, st\<lparr>retired_sinks := set_add bid (retired_sinks st)\<rparr>)
           else
             let st' = (if bid \<in> set (sinks st) then
                          st\<lparr>sinks := removeAll bid (sinks st), is_sink_t := (is_sink_t st)[bid := False]\<rparr>
                        else st)
             in if full then (ids @ [bid], disc, st') else (ids, disc @ [bid], st'))"

definition reclaim_unneeded ::
  "nat \<Rightarrow> nat list \<Rightarrow> nat list \<Rightarrow> tile_state \<Rightarrow> nat list \<times> nat list \<times> tile_state" where
  "reclaim_unneeded grp needed ids st =
     fold (reclaim grp) (filter (\<lambda>b. b \<notin> set needed \<and> b \<notin> set ids) (dict_keys (dict_map st))) (ids, [], st)"

definition log_flush :: "nat list \<Rightarrow> tile_state \<Rightarrow> tile_state" where
  "log_flush ids st =
     st\<lparr>flush_log := flush_log st @
        concat (map (\<lambda>bid. case dict_get (dict_map st) bid of None \<Rightarrow> [] | Some s \<Rightarrow> [(bid, s)]) ids)\<rparr>"

text \<open>\<open>dict_map.pop(bid, None)\<close>, the fill entry, and the slot back to the free list.\<close>

definition free_tile :: "nat \<Rightarrow> tile_state \<Rightarrow> tile_state" where
  "free_tile bid st =
     (let st' = st\<lparr>dict_map := dict_del bid (dict_map st), block_fill := dict_del bid (block_fill st)\<rparr>
      in case dict_get (dict_map st) bid of
           None \<Rightarrow> st'
         | Some slot \<Rightarrow> st'\<lparr>free_slots := free_slots st' @ [slot], b2s_t := (b2s_t st')[bid := - 1]\<rparr>)"

definition discard_tile :: "nat \<Rightarrow> tile_state \<Rightarrow> tile_state res" where
  "discard_tile bid st =
     (case dict_get (dict_map st) bid of None \<Rightarrow> Inl KeyError | Some _ \<Rightarrow> Inr (free_tile bid st))"

definition evict_retired :: "tile_state \<Rightarrow> tile_state" where
  "evict_retired st =
     (case retired_sinks st of
        [] \<Rightarrow> st
      | old # rest \<Rightarrow>
          let st1 = log_flush [old] (st\<lparr>retired_sinks := rest\<rparr>);
              st2 = st1\<lparr>dict_map := dict_del old (dict_map st1), block_fill := dict_del old (block_fill st1),
                        sinks := removeAll old (sinks st1), is_sink_t := (is_sink_t st1)[old := False],
                        b2s_t := (b2s_t st1)[old := - 1]\<rparr>
          in case dict_get (dict_map st1) old of
               None \<Rightarrow> st2
             | Some slot \<Rightarrow> st2\<lparr>free_slots := free_slots st2 @ [slot]\<rparr>)"

definition allocate :: "nat \<Rightarrow> tile_state \<Rightarrow> tile_state res" where
  "allocate bid st =
     (if bid \<in> set (dict_keys (dict_map st)) then Inr st
      else let st1 = (if free_slots st = [] \<and> retired_sinks st \<noteq> [] then evict_retired st else st)
           in if free_slots st1 = [] then Inl RuntimeError
              else let slot = last (free_slots st1)
                   in Inr (st1\<lparr>free_slots := butlast (free_slots st1),
                               dict_map := dict_set bid slot (dict_map st1),
                               b2s_t := (b2s_t st1)[bid := int slot],
                               max_known_block_id := max (max_known_block_id st1) bid\<rparr>))"

section \<open>Definitions: one step of the builder\<close>

definition flush_phase ::
  "bool \<Rightarrow> nat \<Rightarrow> nat \<Rightarrow> batch \<Rightarrow> nat list \<Rightarrow> tile_state \<Rightarrow> (nat list \<times> nat list \<times> tile_state) res" where
  "flush_phase fast grp tpr bt needed st =
     (if fast then Inr ([], [], st)
      else bind_res (fold_res (detect_flush grp tpr (bt_cols bt) st) (requests bt) []) (\<lambda>ids.
             Inr (reclaim_unneeded grp needed ids st)))"

definition build_alloc ::
  "(nat list \<Rightarrow> nat list) \<Rightarrow> bool \<Rightarrow> nat \<Rightarrow> nat \<Rightarrow> batch \<Rightarrow> tile_state \<Rightarrow> tile_state res" where
  "build_alloc set_iter fast grp tpr bt st0 =
     (case blocks_needed grp tpr bt (block_fill st0) of (needed0, fill) \<Rightarrow>
      let st1 = ensure_mirror (foldr max needed0 0 + 1) (st0\<lparr>block_fill := fill\<rparr>)
      in case fold (mark_request tpr (bt_cols bt)) (requests bt) ([], needed0, st1) of (row0, needed, st2) \<Rightarrow>
         let st3 = unretire_needed row0 needed st2
         in bind_res (flush_phase fast grp tpr bt needed st3) (\<lambda>(ids, disc, st4).
            let st5 = fold free_tile ids (log_flush ids st4)
            in bind_res (fold_res discard_tile disc st5) (\<lambda>st6.
               fold_res allocate (set_iter needed) st6)))"

section \<open>Definitions: the other metadata of a step\<close>

definition cu_seqlens_k :: "int list \<Rightarrow> int list" where
  "cu_seqlens_k sls = fold (\<lambda>sl acc. acc @ [last acc + sl]) sls [0]"

text \<open>The verify plan: one virtual row per decode token with its causal length.\<close>

definition vq_plan :: "bool \<Rightarrow> nat \<Rightarrow> int list \<Rightarrow> int list \<Rightarrow> (nat \<times> int) list" where
  "vq_plan non_causal num_decodes sls qls =
     concat (map (\<lambda>b. let ql = (if b < length qls then qls ! b else 1);
                          com = committed (sls ! b) ql
                      in map (\<lambda>j. (b, if non_causal then com + ql else com + int j + 1)) [0 ..< nat ql])
       [0 ..< num_decodes])"

definition vq_qlen :: "bool \<Rightarrow> nat \<Rightarrow> int list \<Rightarrow> int" where
  "vq_qlen non_causal num_decodes qls =
     (let uniform = fold (\<lambda>b u. let ql = (if b < length qls then qls ! b else 1)
                                  in if ql \<noteq> u then 0 else u) [0 ..< num_decodes] (qls ! 0)
      in if uniform \<ge> 2 \<and> \<not> non_causal then uniform else 0)"

definition has_cached_multiquery :: "int list \<Rightarrow> int list \<Rightarrow> bool" where
  "has_cached_multiquery sls qls \<longleftrightarrow>
     list_ex (\<lambda>b. qls ! b > 1 \<and> sls ! b > qls ! b) [0 ..< min (length sls) (length qls)]"

section \<open>The tile table\<close>

lemma set_set_add [simp]: "set (set_add x xs) = insert x (set xs)"
  by (auto simp: set_add_def)

lemma distinct_set_add [simp]: "distinct (set_add x xs) = distinct xs"
  by (auto simp: set_add_def)

text \<open>
  The tile table is the block table seen in tiles: entry \<open>t\<close> of request \<open>b\<close> is
  tile \<open>t mod tpr\<close> of the request's block \<open>t div tpr\<close> exactly when \<open>t\<close> lies below the request's
  length in tiles, inside the table and on an allocated block, and -1 otherwise; two different
  tiles of requests with distinct blocks never share a row.
\<close>

lemma tile_row_table_correct:
  assumes "b < length sls" "t < max_tiles" "0 < grp" "0 < tpr"
  shows "tile_row_table table cols sls tpr grp max_tiles ! b ! t =
      (if int t * int grp < sls ! b \<and> t div tpr < cols \<and> 0 \<le> table ! b ! (t div tpr)
       then table ! b ! (t div tpr) * int tpr + int (t mod tpr) else - 1) \<and>
    (\<forall>b' < length sls. \<forall>t' < max_tiles.
      let T = tile_row_table table cols sls tpr grp max_tiles
      in T ! b ! t = T ! b' ! t' \<longrightarrow> T ! b ! t \<noteq> - 1 \<longrightarrow>
        table ! b ! (t div tpr) = table ! b' ! (t' div tpr) \<and> t mod tpr = t' mod tpr)"
proof -
  have ceil: "t < nat (min ((sl + int grp - 1) div int grp) (int max_tiles)) \<longleftrightarrow> int t * int grp < sl"
    if "t < max_tiles" for t sl
  proof -
    have "int t < (sl + int grp - 1) div int grp \<longleftrightarrow> (int t + 1) * int grp \<le> sl + int grp - 1"
      using assms(3) mult_le_iff_le_div [of "int grp" "int t + 1" "sl + int grp - 1"] by auto
    also have "\<dots> \<longleftrightarrow> int t * int grp < sl" by (auto simp: algebra_simps)
    finally show ?thesis using that by linarith
  qed
  have entry: "tile_row_table table cols sls tpr grp max_tiles ! b ! t =
      (if int t * int grp < sls ! b \<and> t div tpr < cols \<and> 0 \<le> table ! b ! (t div tpr)
       then table ! b ! (t div tpr) * int tpr + int (t mod tpr) else - 1)"
    if "b < length sls" "t < max_tiles" for b t
    using that by (simp add: tile_row_table_def tile_row_def tile_of_def Let_def ceil)
  have inj: "x * int tpr + int (t mod tpr) = y * int tpr + int (t' mod tpr) \<Longrightarrow>
      x = y \<and> t mod tpr = t' mod tpr" for x y t t'
  proof -
    assume eq: "x * int tpr + int (t mod tpr) = y * int tpr + int (t' mod tpr)"
    have "(x * int tpr + int (t mod tpr)) div int tpr = x" "(y * int tpr + int (t' mod tpr)) div int tpr = y"
      using assms(4) by (simp_all add: div_mult_self3)
    with eq show ?thesis by auto
  qed
  let ?T = "tile_row_table table cols sls tpr grp max_tiles"
  have "table ! b ! (t div tpr) = table ! b' ! (t' div tpr) \<and> t mod tpr = t' mod tpr"
    if "b' < length sls" "t' < max_tiles" "?T ! b ! t = ?T ! b' ! t'" "?T ! b ! t \<noteq> - 1" for b' t'
  proof (rule inj)
    have "?T ! b ! t = table ! b ! (t div tpr) * int tpr + int (t mod tpr)"
      using entry [OF assms(1,2)] that(4) by presburger
    moreover have "?T ! b' ! t' = table ! b' ! (t' div tpr) * int tpr + int (t' mod tpr)"
      using entry [OF that(1,2)] that(3,4) by presburger
    ultimately show "table ! b ! (t div tpr) * int tpr + int (t mod tpr) =
        table ! b' ! (t' div tpr) * int tpr + int (t' mod tpr)" using that(3) by simp
  qed
  with entry [OF assms(1,2)] show ?thesis unfolding Let_def by blast
qed

lemma tile_row_table_correct_witness:
  "tile_row_table [[7, 3], [2, - 1]] 2 [200, 100] 2 64 6 =
     [[14, 15, 6, 7, - 1, - 1], [4, 5, - 1, - 1, - 1, - 1]] \<and>
   tile_row_table [[7, 3], [2, - 1]] 2 [200, 100] 2 64 6 ! 0 ! 3 = 7"
proof -
  have "tile_row_table [[7, 3], [2, - 1]] 2 [200, 100] 2 64 6 =
     [[14, 15, 6, 7, - 1, - 1], [4, 5, - 1, - 1, - 1, - 1]]" by code_simp
  then show ?thesis
    using tile_row_table_correct [of 0 "[200, 100]" 3 6 64 2 "[[7, 3], [2, - 1]]" 2] by simp
qed

section \<open>The allocator invariant\<close>

text \<open>
  \<open>slots_ok\<close>: the held and the free slots are a partition of the pool. \<open>mirror_ok\<close>: the device tensors
  agree with the maps. \<open>life_ok\<close>: sinks hold a slot (or are about to get one), retired sinks are complete.
\<close>

abbreviation held :: "tile_state \<Rightarrow> nat set" where
  "held st \<equiv> fst ` set (dict_map st)"

definition slots_ok :: "nat \<Rightarrow> tile_state \<Rightarrow> bool" where
  "slots_ok n st \<longleftrightarrow> dict_ok (dict_map st) \<and> distinct (map snd (dict_map st) @ free_slots st) \<and>
     set (map snd (dict_map st) @ free_slots st) = {..<n}"

definition slot_entry :: "tile_state \<Rightarrow> nat \<Rightarrow> int" where
  "slot_entry st b = (case dict_get (dict_map st) b of None \<Rightarrow> - 1 | Some s \<Rightarrow> int s)"

definition mirror_ok :: "tile_state \<Rightarrow> bool" where
  "mirror_ok st \<longleftrightarrow> length (is_sink_t st) = length (b2s_t st) \<and>
     (\<forall>b < length (b2s_t st). b2s_t st ! b = slot_entry st b) \<and>
     (\<forall>b < length (is_sink_t st). is_sink_t st ! b \<longleftrightarrow> b \<in> set (sinks st))"

definition fill_of :: "tile_state \<Rightarrow> nat \<Rightarrow> int" where
  "fill_of st b = (case dict_get (block_fill st) b of None \<Rightarrow> 0 | Some k \<Rightarrow> k)"

definition life_ok :: "nat \<Rightarrow> nat set \<Rightarrow> tile_state \<Rightarrow> bool" where
  "life_ok grp needed st \<longleftrightarrow> set (sinks st) \<subseteq> held st \<union> needed \<and> distinct (retired_sinks st) \<and>
     set (retired_sinks st) \<subseteq> held st \<inter> set (sinks st) \<and>
     (\<forall>b \<in> set (retired_sinks st) - needed. int grp \<le> fill_of st b)"

definition alloc_inv :: "nat \<Rightarrow> nat \<Rightarrow> tile_state \<Rightarrow> bool" where
  "alloc_inv n grp st \<longleftrightarrow> slots_ok n st \<and> mirror_ok st \<and> life_ok grp {} st \<and>
     (\<forall>b \<in> held st. b \<le> max_known_block_id st)"

lemma alloc_inv_init: "alloc_inv n grp (init_state n)"
  by (auto simp: alloc_inv_def slots_ok_def mirror_ok_def life_ok_def init_state_def)

subsection \<open>Freeing a tile\<close>

lemma snd_delete:
  assumes "dict_ok d" "map_of d k = Some v"
  shows "mset (map snd d) = add_mset v (mset (map snd (AList.delete k d)))"
  using assms
proof (induction d)
  case (Cons p d)
  obtain k' v' where p: "p = (k', v')" by (cases p)
  show ?case
  proof (cases "k' = k")
    case True
    then have "k \<notin> fst ` set d" using Cons.prems p by auto
    then have "AList.delete k d = d" by (simp add: delete_idem)
    with True p Cons.prems show ?thesis by simp
  qed (use Cons p in auto)
qed simp

lemma nth_upd: "j < length xs \<Longrightarrow> xs[i := v] ! j = (if j = i then v else xs ! j)"
  by (cases "i < length xs") auto

lemma mset_slots_free:
  assumes "dict_ok (dict_map st)"
  shows "mset (map snd (dict_map (free_tile b st)) @ free_slots (free_tile b st)) =
    mset (map snd (dict_map st) @ free_slots st)"
proof (cases "dict_get (dict_map st) b")
  case None
  then have "AList.delete b (dict_map st) = dict_map st"
    by (simp add: delete_idem map_of_eq_None_iff)
  with None show ?thesis by (simp add: free_tile_def Let_def)
next
  case (Some s)
  from snd_delete [OF assms this] show ?thesis by (simp add: free_tile_def Let_def Some)
qed

lemma slots_ok_mset:
  assumes "slots_ok n st" "dict_ok (dict_map st')"
    and "mset (map snd (dict_map st') @ free_slots st') = mset (map snd (dict_map st) @ free_slots st)"
  shows "slots_ok n st'"
  using assms mset_eq_setD [OF assms(3)] mset_eq_imp_distinct_iff [OF assms(3)]
  by (simp only: slots_ok_def)

lemma free_tile_facts [simp]:
  "dict_map (free_tile b st) = dict_del b (dict_map st)"
  "sinks (free_tile b st) = sinks st" "retired_sinks (free_tile b st) = retired_sinks st"
  "block_fill (free_tile b st) = dict_del b (block_fill st)"
  "is_sink_t (free_tile b st) = is_sink_t st" "max_known_block_id (free_tile b st) = max_known_block_id st"
  "flush_log (free_tile b st) = flush_log st" "length (b2s_t (free_tile b st)) = length (b2s_t st)"
  by (simp_all add: free_tile_def Let_def split: option.split)

lemma slots_ok_free:
  assumes "slots_ok n st"
  shows "slots_ok n (free_tile b st)"
proof -
  have "dict_ok (dict_map st)" using assms by (simp add: slots_ok_def)
  then show ?thesis by (intro slots_ok_mset [OF assms _ mset_slots_free]) simp_all
qed

lemma mirror_ok_free:
  assumes "mirror_ok st"
  shows "mirror_ok (free_tile b st)"
proof (cases "dict_get (dict_map st) b")
  case None
  with assms show ?thesis by (auto simp: mirror_ok_def slot_entry_def free_tile_def Let_def)
next
  case (Some s)
  with assms show ?thesis
    by (auto simp: mirror_ok_def slot_entry_def free_tile_def Let_def nth_upd)
qed

definition phase_ok :: "nat \<Rightarrow> nat \<Rightarrow> nat set \<Rightarrow> tile_state \<Rightarrow> bool" where
  "phase_ok n grp N st \<longleftrightarrow> slots_ok n st \<and> mirror_ok st \<and> life_ok grp N st \<and>
     set (retired_sinks st) \<inter> N = {} \<and> (\<forall>b \<in> held st. b \<le> max_known_block_id st)"

lemma phase_ok_free:
  assumes "phase_ok n grp N st" "b \<notin> set (sinks st)"
  shows "phase_ok n grp N (free_tile b st)"
proof -
  have "b \<notin> set (retired_sinks st)" using assms by (auto simp: phase_ok_def life_ok_def)
  then have "life_ok grp N (free_tile b st)"
    using assms by (auto simp: phase_ok_def life_ok_def fill_of_def)
  then show ?thesis using assms by (auto simp: phase_ok_def slots_ok_free mirror_ok_free)
qed

lemma phase_ok_free_all:
  assumes "phase_ok n grp N st" "set bs \<inter> set (sinks st) = {}"
  shows "phase_ok n grp N (fold free_tile bs st)" "held (fold free_tile bs st) = held st - set bs"
    "sinks (fold free_tile bs st) = sinks st" "retired_sinks (fold free_tile bs st) = retired_sinks st"
    "length (b2s_t (fold free_tile bs st)) = length (b2s_t st)" "flush_log (fold free_tile bs st) = flush_log st"
  using assms by (induction bs arbitrary: st) (auto simp: phase_ok_free)

lemma discard_all:
  assumes "distinct bs" "set bs \<subseteq> held st"
  shows "fold_res discard_tile bs st = Inr (fold free_tile bs st)"
  using assms
proof (induction bs arbitrary: st)
  case (Cons b bs)
  then obtain s where "dict_get (dict_map st) b = Some s"
    by (cases "dict_get (dict_map st) b") (auto simp: map_of_eq_None_iff)
  then have "discard_tile b st = Inr (free_tile b st)" by (simp add: discard_tile_def)
  moreover have "set bs \<subseteq> held (free_tile b st)" using Cons.prems by auto
  ultimately show ?case using Cons by simp
qed simp

subsection \<open>Allocating a slot\<close>

lemma evict_facts:
  assumes ok: "phase_ok n grp N st" and r: "retired_sinks st = old # rest"
  shows "phase_ok n grp N (evict_retired st)" "held (evict_retired st) = held st - {old}"
    "retired_sinks (evict_retired st) = rest" "free_slots (evict_retired st) \<noteq> []"
    "length (b2s_t (evict_retired st)) = length (b2s_t st)" "old \<notin> N"
    "max_known_block_id (evict_retired st) = max_known_block_id st"
proof -
  have "old \<in> held st" and N: "old \<notin> N" using ok r by (auto simp: phase_ok_def life_ok_def)
  then obtain s where s: "dict_get (dict_map st) old = Some s"
    by (metis map_of_eq_None_iff not_None_eq)
  let ?e = "evict_retired st"
  have e: "dict_map ?e = dict_del old (dict_map st)" "free_slots ?e = free_slots st @ [s]"
    "sinks ?e = removeAll old (sinks st)" "retired_sinks ?e = rest"
    "block_fill ?e = dict_del old (block_fill st)" "is_sink_t ?e = (is_sink_t st)[old := False]"
    "b2s_t ?e = (b2s_t st)[old := - 1]" "max_known_block_id ?e = max_known_block_id st"
    by (simp_all add: evict_retired_def r Let_def log_flush_def s)
  have sl: "slots_ok n st" "dict_ok (dict_map st)" using ok by (simp_all add: phase_ok_def slots_ok_def)
  have "slots_ok n ?e"
    by (rule slots_ok_mset [OF sl(1)]) (use sl(2) snd_delete [OF sl(2) s] in \<open>simp_all add: e\<close>)
  moreover have "mirror_ok ?e"
    using ok by (simp add: phase_ok_def mirror_ok_def slot_entry_def e nth_upd)
  moreover have L: "set (sinks st) \<subseteq> held st \<union> N" "distinct (old # rest)"
    "set (old # rest) \<subseteq> held st \<inter> set (sinks st)" "\<forall>b \<in> set (old # rest) - N. int grp \<le> fill_of st b"
    using ok r by (simp_all add: phase_ok_def life_ok_def)
  have "fill_of ?e b = fill_of st b" if "b \<in> set rest" for b
    using L(2) that by (auto simp: fill_of_def e)
  then have "life_ok grp N ?e" unfolding life_ok_def e using L by (intro conjI) auto
  ultimately show "phase_ok n grp N ?e" using ok r by (auto simp: phase_ok_def e)
  show "held ?e = held st - {old}" "retired_sinks ?e = rest" "free_slots ?e \<noteq> []"
    "length (b2s_t ?e) = length (b2s_t st)" "max_known_block_id ?e = max_known_block_id st" by (simp_all add: e)
  show "old \<notin> N" by (rule N)
qed

definition take_slot :: "nat \<Rightarrow> tile_state \<Rightarrow> tile_state" where
  "take_slot bid st = st\<lparr>free_slots := butlast (free_slots st),
     dict_map := dict_set bid (last (free_slots st)) (dict_map st),
     b2s_t := (b2s_t st)[bid := int (last (free_slots st))],
     max_known_block_id := max (max_known_block_id st) bid\<rparr>"

lemma snd_update_new: "k \<notin> fst ` set d \<Longrightarrow> map snd (AList.update k v d) = map snd d @ [v]"
  by (induction d) auto

lemma take_slot_facts:
  assumes ok: "phase_ok n grp N st" and b: "bid \<notin> held st" "bid \<in> N" and f: "free_slots st \<noteq> []"
  shows "phase_ok n grp N (take_slot bid st)" "held (take_slot bid st) = insert bid (held st)"
    "retired_sinks (take_slot bid st) = retired_sinks st" "length (b2s_t (take_slot bid st)) = length (b2s_t st)"
proof -
  obtain fs s where fs: "free_slots st = fs @ [s]" using f by (metis rev_exhaust)
  have sl: "slots_ok n st" "dict_ok (dict_map st)" using ok by (simp_all add: phase_ok_def slots_ok_def)
  have "slots_ok n (take_slot bid st)"
    by (rule slots_ok_mset [OF sl(1)]) (use sl(2) b in \<open>simp_all add: take_slot_def fs snd_update_new\<close>)
  moreover have "mirror_ok (take_slot bid st)"
    using ok by (simp add: phase_ok_def mirror_ok_def slot_entry_def take_slot_def nth_upd)
  moreover have "life_ok grp N (take_slot bid st)"
    using ok b by (auto simp: phase_ok_def life_ok_def fill_of_def take_slot_def)
  ultimately show "phase_ok n grp N (take_slot bid st)"
    using ok by (auto simp: phase_ok_def take_slot_def intro: le_max_iff_disj [THEN iffD2])
  show "held (take_slot bid st) = insert bid (held st)" "retired_sinks (take_slot bid st) = retired_sinks st"
    "length (b2s_t (take_slot bid st)) = length (b2s_t st)" by (simp_all add: take_slot_def)
qed

definition make_room :: "tile_state \<Rightarrow> tile_state" where
  "make_room st = (if free_slots st = [] \<and> retired_sinks st \<noteq> [] then evict_retired st else st)"

lemma make_room_facts:
  assumes "phase_ok n grp N st"
  shows "phase_ok n grp N (make_room st)" "held (make_room st) \<subseteq> held st" "held st \<inter> N \<subseteq> held (make_room st)"
    "held st \<subseteq> N \<union> set (retired_sinks st) \<Longrightarrow> held (make_room st) \<subseteq> N \<union> set (retired_sinks (make_room st))"
    "length (b2s_t (make_room st)) = length (b2s_t st)"
    "free_slots (make_room st) = [] \<Longrightarrow> free_slots st = [] \<and> retired_sinks st = [] \<and> make_room st = st"
proof -
  have "phase_ok n grp N (make_room st) \<and> held (make_room st) \<subseteq> held st \<and> held st \<inter> N \<subseteq> held (make_room st) \<and>
    (held st \<subseteq> N \<union> set (retired_sinks st) \<longrightarrow> held (make_room st) \<subseteq> N \<union> set (retired_sinks (make_room st))) \<and>
    length (b2s_t (make_room st)) = length (b2s_t st) \<and>
    (free_slots (make_room st) = [] \<longrightarrow> free_slots st = [] \<and> retired_sinks st = [] \<and> make_room st = st)"
  proof (cases "free_slots st = [] \<and> retired_sinks st \<noteq> []")
    case True
    then obtain old rest where r: "retired_sinks st = old # rest" by (auto simp: neq_Nil_conv)
    note e = evict_facts [OF assms r]
    have mr: "make_room st = evict_retired st" using True by (simp add: make_room_def)
    show ?thesis unfolding mr e(2,3,5) r using e(1,4,6) by auto
  qed (use assms in \<open>auto simp: make_room_def\<close>)
  then show "phase_ok n grp N (make_room st)" "held (make_room st) \<subseteq> held st"
    "held st \<inter> N \<subseteq> held (make_room st)"
    "held st \<subseteq> N \<union> set (retired_sinks st) \<Longrightarrow> held (make_room st) \<subseteq> N \<union> set (retired_sinks (make_room st))"
    "length (b2s_t (make_room st)) = length (b2s_t st)"
    "free_slots (make_room st) = [] \<Longrightarrow> free_slots st = [] \<and> retired_sinks st = [] \<and> make_room st = st"
    by blast+
qed

lemma allocate_eq:
  "allocate bid st =
     (if bid \<in> held st then Inr st
      else if free_slots (make_room st) = [] then Inl RuntimeError
      else Inr (take_slot bid (make_room st)))"
  by (simp add: allocate_def make_room_def take_slot_def Let_def)

lemma allocate_facts:
  assumes ok: "phase_ok n grp N st" and b: "bid \<in> N" and a: "allocate bid st = Inr st'"
  shows "phase_ok n grp N st'" "bid \<in> held st'" "held st \<inter> N \<subseteq> held st'"
    "held st \<subseteq> N \<union> set (retired_sinks st) \<Longrightarrow> held st' \<subseteq> N \<union> set (retired_sinks st')"
    "length (b2s_t st') = length (b2s_t st)"
proof -
  note m = make_room_facts [OF ok]
  have "phase_ok n grp N st' \<and> bid \<in> held st' \<and> held st \<inter> N \<subseteq> held st' \<and>
    (held st \<subseteq> N \<union> set (retired_sinks st) \<longrightarrow> held st' \<subseteq> N \<union> set (retired_sinks st')) \<and>
    length (b2s_t st') = length (b2s_t st)"
  proof (cases "bid \<in> held st")
    case True
    then show ?thesis using a ok by (simp add: allocate_eq)
  next
    case False
    then have nb: "bid \<notin> held (make_room st)" using m(2) by blast
    from False a have f: "free_slots (make_room st) \<noteq> []" and st': "st' = take_slot bid (make_room st)"
      by (simp_all add: allocate_eq split: if_splits)
    note t = take_slot_facts [OF m(1) nb b f]
    show ?thesis unfolding st' t(2,3,4) using t(1) m(3,4,5) b by blast
  qed
  then show "phase_ok n grp N st'" "bid \<in> held st'" "held st \<inter> N \<subseteq> held st'"
    "held st \<subseteq> N \<union> set (retired_sinks st) \<Longrightarrow> held st' \<subseteq> N \<union> set (retired_sinks st')"
    "length (b2s_t st') = length (b2s_t st)" by blast+
qed

lemma card_held:
  assumes "slots_ok n st" "free_slots st = []"
  shows "card (held st) = n"
proof -
  have "card (held st) = length (dict_map st)"
    using assms(1) distinct_card [of "dict_keys (dict_map st)"] by (simp add: slots_ok_def)
  also have "\<dots> = card (snd ` set (dict_map st))"
    using assms distinct_card [of "map snd (dict_map st)"] by (simp add: slots_ok_def)
  also have "\<dots> = n" using assms by (simp add: slots_ok_def)
  finally show ?thesis .
qed

text \<open>An allocation can only fail when the step needs more tiles than the pool has slots.\<close>

lemma allocate_succeeds:
  assumes ok: "phase_ok n grp N st" and b: "bid \<in> N" and N: "finite N" "card N \<le> n"
    and h: "held st \<subseteq> N \<union> set (retired_sinks st)"
  shows "\<exists>st'. allocate bid st = Inr st'"
proof (rule ccontr)
  assume "\<not> ?thesis"
  then have out: "bid \<notin> held st" "free_slots (make_room st) = []"
    by (auto simp: allocate_eq split: if_splits)
  note m = make_room_facts(6) [OF ok out(2)]
  have "card (held st) = n" using ok m by (intro card_held) (simp_all add: phase_ok_def)
  moreover have "held st \<subset> N" using h m b out(1) by auto
  note psubset_card_mono [OF N(1) this]
  ultimately show False using N(2) by linarith
qed

lemma allocate_all_conj:
  "phase_ok n grp N st \<Longrightarrow> set bs \<subseteq> N \<Longrightarrow> fold_res allocate bs st = Inr st' \<Longrightarrow>
   phase_ok n grp N st' \<and> set bs \<subseteq> held st' \<and> held st \<inter> N \<subseteq> held st' \<and>
   length (b2s_t st') = length (b2s_t st)"
proof (induction bs arbitrary: st)
  case Nil
  then have "st' = st" by simp
  with Nil.prems(1) show ?case by auto
next
  case (Cons b bs)
  obtain s1 where s1: "allocate b st = Inr s1" "fold_res allocate bs s1 = Inr st'"
    using Cons.prems(3) by (auto simp: bind_res_eq_Inr)
  have bN: "b \<in> N" "set bs \<subseteq> N" using Cons.prems(2) by simp_all
  note f = allocate_facts [OF Cons.prems(1) bN(1) s1(1)]
  note IH = Cons.IH [OF f(1) bN(2) s1(2)]
  have "b \<in> held st'" using IH f(2) bN(1) by blast
  then show ?case using IH f(3,5) by (simp only: list.set insert_subset) blast
qed

lemmas allocate_all = allocate_all_conj [THEN conjunct1]
  allocate_all_conj [THEN conjunct2, THEN conjunct1]
  allocate_all_conj [THEN conjunct2, THEN conjunct2, THEN conjunct1]
  allocate_all_conj [THEN conjunct2, THEN conjunct2, THEN conjunct2]

lemma allocate_all_succeeds:
  assumes "phase_ok n grp N st" "set bs \<subseteq> N" "finite N" "card N \<le> n"
    "held st \<subseteq> N \<union> set (retired_sinks st)"
  shows "\<exists>st'. fold_res allocate bs st = Inr st'"
  using assms
proof (induction bs arbitrary: st)
  case (Cons b bs)
  then have b: "b \<in> N" by simp
  from allocate_succeeds [OF Cons.prems(1) b Cons.prems(3-5)] obtain s1 where s1: "allocate b st = Inr s1"
    by blast
  note f = allocate_facts [OF Cons.prems(1) b s1]
  have "\<exists>st'. fold_res allocate bs s1 = Inr st'"
    using Cons.prems f by (intro Cons.IH) auto
  with s1 show ?case by simp
qed simp

subsection \<open>The tiles a step needs\<close>

lemma need_request_fold:
  assumes "fold (\<lambda>t (needed, fill).
       let vbid = row ! (t div tpr)
       in if vbid < 0 then (needed, fill)
          else let tr = tile_of tpr vbid t
               in (set_add tr needed, dict_set tr (g t) fill)) ts (needed, fill) = (needed', fill')"
  shows "(distinct needed \<longrightarrow> distinct needed') \<and> set needed \<subseteq> set needed' \<and>
    (\<forall>b. b \<notin> set needed' \<longrightarrow> map_of fill' b = map_of fill b)"
  using assms
proof (induction ts arbitrary: needed fill)
  case (Cons t ts)
  show ?case
  proof (cases "row ! (t div tpr) < 0")
    case True
    with Cons show ?thesis by simp
  next
    case False
    let ?tr = "tile_of tpr (row ! (t div tpr)) t"
    from False Cons.prems have "fold (\<lambda>t (needed, fill).
       let vbid = row ! (t div tpr)
       in if vbid < 0 then (needed, fill)
          else let tr = tile_of tpr vbid t
               in (set_add tr needed, dict_set tr (g t) fill)) ts
         (set_add ?tr needed, dict_set ?tr (g t) fill) = (needed', fill')" by (simp add: Let_def)
    note IH = Cons.IH [OF this]
    then have "?tr \<in> set needed'" by auto
    with IH show ?thesis by auto
  qed
qed simp

lemma blocks_needed_facts:
  assumes "blocks_needed grp tpr bt fill = (needed, fill')"
  shows "distinct needed" "b \<notin> set needed \<Longrightarrow> map_of fill' b = map_of fill b"
proof -
  have req: "(distinct n \<longrightarrow> distinct n') \<and> set n \<subseteq> set n' \<and> (\<forall>b. b \<notin> set n' \<longrightarrow> map_of f' b = map_of f b)"
    if "need_request grp tpr cols r (n, f) = (n', f')" for cols r n f n' f'
    using that need_request_fold by (fastforce simp: need_request_def split: prod.splits if_splits)
  have reqs: "(distinct n \<longrightarrow> distinct n') \<and> set n \<subseteq> set n' \<and> (\<forall>b. b \<notin> set n' \<longrightarrow> map_of f' b = map_of f b)"
    if "fold (need_request grp tpr cols) rs (n, f) = (n', f')" for cols rs n f n' f'
    using that
  proof (induction rs arbitrary: n f)
    case (Cons r rs)
    obtain n1 f1 where r: "need_request grp tpr cols r (n, f) = (n1, f1)" by force
    from Cons.IH [of n1 f1] Cons.prems r req [OF r] show ?case by auto
  qed simp
  have sm: "(distinct n \<longrightarrow> distinct (fold (\<lambda>s n. if 0 \<le> s then set_add (nat s div grp) n else n) ss n)) \<and>
      set n \<subseteq> set (fold (\<lambda>s n. if 0 \<le> s then set_add (nat s div grp) n else n) ss n)" for ss :: "int list" and n
  proof (induction ss arbitrary: n)
    case (Cons s ss)
    show ?case using Cons [of "set_add (nat s div grp) n"] Cons [of n] by auto
  qed simp
  obtain n1 f1 where f: "fold (need_request grp tpr (bt_cols bt)) (requests bt) ([], fill) = (n1, f1)" by force
  then have eq: "needed = fold (\<lambda>s n. if 0 \<le> s then set_add (nat s div grp) n else n) (slot_mapping bt) n1"
    "fill' = f1" using assms by (simp_all add: blocks_needed_def)
  show "distinct needed" using reqs [OF f] sm [of n1] by (simp add: eq)
  show "map_of fill' b = map_of fill b" if "b \<notin> set needed"
    using that reqs [OF f] sm [of n1] by (auto simp: eq)
qed

subsection \<open>Lookup tensors\<close>

lemma fold_mirror:
  assumes "dict_ok d" "b < length m"
  shows "fold (\<lambda>(bid, slot) m. m[bid := int slot]) d m ! b =
    (case map_of d b of None \<Rightarrow> m ! b | Some s \<Rightarrow> int s)"
  using assms
proof (induction d arbitrary: m)
  case (Cons p d)
  obtain k v where p: "p = (k, v)" by (cases p)
  have "fold (\<lambda>(bid, slot) m. m[bid := int slot]) (p # d) m ! b =
      (case map_of d b of None \<Rightarrow> m[k := int v] ! b | Some s \<Rightarrow> int s)"
    using Cons p by simp
  moreover have "k = b \<Longrightarrow> map_of d b = None" using Cons.prems p by (simp add: map_of_eq_None_iff)
  ultimately show ?case using Cons.prems p by (auto simp: nth_upd split: option.split)
qed simp

lemma fold_sink_mirror:
  "b < length m \<Longrightarrow> fold (\<lambda>bid m. m[bid := True]) bs m ! b = (b \<in> set bs \<or> m ! b)"
  by (induction bs arbitrary: m) (auto simp: nth_upd)

lemma length_fold_mirror [simp]:
  "length (fold (\<lambda>(bid, slot) m. m[bid := int slot]) d m) = length m"
  "length (fold (\<lambda>bid m. m[bid := True]) bs m2) = length m2"
  by (induction d arbitrary: m) (auto split: prod.split, induction bs arbitrary: m2, auto)

lemma ensure_mirror_facts:
  assumes "mirror_ok st" "dict_ok (dict_map st)"
  shows "mirror_ok (ensure_mirror h st)" "h \<le> length (b2s_t (ensure_mirror h st))"
    "max_known_block_id st < length (b2s_t (ensure_mirror h st))"
    "dict_map (ensure_mirror h st) = dict_map st" "free_slots (ensure_mirror h st) = free_slots st"
    "sinks (ensure_mirror h st) = sinks st" "retired_sinks (ensure_mirror h st) = retired_sinks st"
    "block_fill (ensure_mirror h st) = block_fill st"
    "max_known_block_id (ensure_mirror h st) = max_known_block_id st" "flush_log (ensure_mirror h st) = flush_log st"
proof -
  show "mirror_ok (ensure_mirror h st)"
    using assms
    by (auto simp: ensure_mirror_def Let_def mirror_ok_def slot_entry_def fold_mirror fold_sink_mirror
        split: option.split)
qed (auto simp: ensure_mirror_def Let_def)

end
