(* ===== verification/KVarN_Build.thy ===== *)
theory KVarN_Build
  imports KVarN_Tiles
begin

text \<open>
  Correctness of one step of \<open>KVarNMetadataBuilder.build\<close> over the definitions of \<open>KVarN_Tiles\<close>: what each
  phase keeps of the allocator state, the invariant of the whole step and of every reachable state, that
  a step with enough slots never runs out, and that only complete tiles are flushed.
\<close>

section \<open>Marking sinks and un-retiring\<close>

text \<open>Only the sink labels change while the sinks of a batch are marked.\<close>

definition same_but_sinks :: "tile_state \<Rightarrow> tile_state \<Rightarrow> bool" where
  "same_but_sinks st st' \<longleftrightarrow> dict_map st' = dict_map st \<and> free_slots st' = free_slots st \<and>
     block_fill st' = block_fill st \<and> b2s_t st' = b2s_t st \<and>
     max_known_block_id st' = max_known_block_id st \<and> flush_log st' = flush_log st"

lemma same_but_sinks_refl [simp]: "same_but_sinks st st"
  by (simp add: same_but_sinks_def)

lemma same_but_sinks_trans: "same_but_sinks a b \<Longrightarrow> same_but_sinks b c \<Longrightarrow> same_but_sinks a c"
  by (simp add: same_but_sinks_def)

lemma mirror_ok_sinks:
  assumes "mirror_ok st" "same_but_sinks st st'" "is_sink_t st' = (is_sink_t st)[b := v]"
    and "\<And>x. x \<in> set (sinks st') \<longleftrightarrow> (if x = b then v else x \<in> set (sinks st))"
  shows "mirror_ok st'"
  using assms by (simp add: mirror_ok_def same_but_sinks_def slot_entry_def nth_upd)

definition mark_rel :: "nat list \<Rightarrow> tile_state \<Rightarrow> nat list \<Rightarrow> tile_state \<Rightarrow> bool" where
  "mark_rel n st n' st' \<longleftrightarrow> same_but_sinks st st' \<and> retired_sinks st' = retired_sinks st \<and>
     (mirror_ok st \<longrightarrow> mirror_ok st') \<and> set (sinks st) \<subseteq> set (sinks st') \<and>
     set (sinks st') \<subseteq> set (sinks st) \<union> set n' \<and> set n \<subseteq> set n' \<and> set n' \<subseteq> set n \<union> set (sinks st) \<and>
     (distinct n \<longrightarrow> distinct n')"

lemma mark_rel_refl: "mark_rel n st n st"
  by (simp add: mark_rel_def)

lemma mark_rel_trans:
  assumes "mark_rel n st n1 st1" "mark_rel n1 st1 n2 st2"
  shows "mark_rel n st n2 st2"
proof -
  note d = assms [unfolded mark_rel_def]
  have "same_but_sinks st st2" using d same_but_sinks_trans by blast
  moreover have "set (sinks st2) \<subseteq> set (sinks st) \<union> set n2" using d by blast
  moreover have "set n2 \<subseteq> set n \<union> set (sinks st)" using d by blast
  moreover have "set (sinks st) \<subseteq> set (sinks st2)" "set n \<subseteq> set n2" using d by blast+
  ultimately show ?thesis using d unfolding mark_rel_def by simp
qed

lemma mark_one: "mark_request tpr cols r (row0, n, st) = (row0', n', st') \<Longrightarrow> mark_rel n st n' st'"
proof -
  assume m: "mark_request tpr cols r (row0, n, st) = (row0', n', st')"
  obtain row sl q where r: "r = (row, sl, q)" by (metis prod_cases3)
  define s0 where "s0 = nat (row ! 0) * tpr"
  consider "st' = st" "n' = n" | "st' = st" "n' = set_add s0 n" "s0 \<in> set (sinks st)"
    | "st' = st\<lparr>sinks := set_add s0 (sinks st), is_sink_t := (is_sink_t st)[s0 := True]\<rparr>"
      "n' = n" "s0 \<in> set n"
    using m by (auto simp: mark_request_def r Let_def s0_def split: if_splits)
  then show ?thesis
  proof cases
    case 3
    have "mirror_ok st'" if "mirror_ok st"
      using that by (rule mirror_ok_sinks [where b = s0 and v = True]) (auto simp: 3(1) same_but_sinks_def)
    with 3 show ?thesis by (simp add: mark_rel_def same_but_sinks_def subset_insertI)
  qed (simp_all add: mark_rel_def subset_insertI subset_insertI2)
qed

lemma mark_facts:
  "fold (mark_request tpr cols) rs (row0, n, st) = (row0', n', st') \<Longrightarrow> mark_rel n st n' st'"
proof (induction rs arbitrary: row0 n st)
  case (Cons r rs)
  obtain row0a n1 s1 where m: "mark_request tpr cols r (row0, n, st) = (row0a, n1, s1)"
    by (metis prod_cases3)
  with Cons.prems have "fold (mark_request tpr cols) rs (row0a, n1, s1) = (row0', n', st')" by simp
  from mark_rel_trans [OF mark_one [OF m] Cons.IH [OF this]] show ?case .
qed (simp add: mark_rel_refl)

definition unretire_rel :: "nat set \<Rightarrow> tile_state \<Rightarrow> tile_state \<Rightarrow> bool" where
  "unretire_rel B st st' \<longleftrightarrow> same_but_sinks st st' \<and> (mirror_ok st \<longrightarrow> mirror_ok st') \<and>
     retired_sinks st' = filter (\<lambda>b. b \<notin> B) (retired_sinks st) \<and>
     set (sinks st') \<subseteq> set (sinks st) \<and> set (sinks st) - B \<subseteq> set (sinks st')"

lemma unretire_one: "unretire_rel {b} st (unretire row0 b st)"
proof -
  have "mirror_ok (unretire row0 b st)" if "mirror_ok st"
  proof (cases "b \<notin> set row0 \<and> b \<in> set (sinks st)")
    case True
    then show ?thesis
      by (intro mirror_ok_sinks [OF that, where b = b and v = False])
        (auto simp: unretire_def same_but_sinks_def)
  next
    case False
    then have "unretire row0 b st = st\<lparr>retired_sinks := removeAll b (retired_sinks st)\<rparr>"
      by (auto simp: unretire_def Let_def)
    then show ?thesis using that by (simp add: mirror_ok_def slot_entry_def)
  qed
  moreover have "retired_sinks (unretire row0 b st) = filter (\<lambda>x. x \<notin> {b}) (retired_sinks st)"
    by (auto simp: unretire_def Let_def removeAll_filter_not_eq intro: filter_cong)
  ultimately show ?thesis
    by (auto simp: unretire_rel_def unretire_def Let_def same_but_sinks_def)
qed

lemma unretire_facts: "unretire_rel (set bs) st (fold (unretire row0) bs st)"
proof (induction bs arbitrary: st)
  case Nil
  then show ?case by (simp add: unretire_rel_def)
next
  case (Cons b bs)
  define s1 where "s1 = unretire row0 b st"
  define s2 where "s2 = fold (unretire row0) bs s1"
  have d: "unretire_rel {b} st s1" "unretire_rel (set bs) s1 s2"
    by (simp_all add: s1_def s2_def unretire_one Cons)
  note d = d [unfolded unretire_rel_def]
  have "filter (\<lambda>x. x \<notin> set bs) (filter (\<lambda>x. x \<notin> {b}) xs) = filter (\<lambda>x. x \<notin> set (b # bs)) xs" for xs
    by (induction xs) auto
  moreover have "same_but_sinks st s2" using d same_but_sinks_trans by blast
  moreover have "set (sinks st) - set (b # bs) \<subseteq> set (sinks s2)" using d by auto
  moreover have "set (sinks s2) \<subseteq> set (sinks st)" using d by blast
  ultimately have "unretire_rel (set (b # bs)) st s2" using d unfolding unretire_rel_def by simp
  then show ?case by (simp add: s1_def s2_def)
qed

section \<open>Flush detection\<close>

text \<open>A tile the walk reaches: a later tile of the row than tile 0, at or below the given index.\<close>

definition row_tile :: "nat \<Rightarrow> int list \<Rightarrow> nat \<Rightarrow> nat \<Rightarrow> bool" where
  "row_tile tpr row t tr \<longleftrightarrow> t div tpr < length row \<and> 0 \<le> row ! (t div tpr) \<and>
     tr = tile_of tpr (row ! (t div tpr)) t"

lemma walk_back_facts:
  assumes "walk_back tpr row snk hld t ids = Inr ids'"
  shows "(distinct ids \<longrightarrow> distinct ids') \<and> set ids \<subseteq> set ids' \<and> set ids' \<subseteq> set ids \<union> (set hld - set snk) \<and>
    (\<forall>tr \<in> set ids' - set ids. \<exists>u. 1 \<le> u \<and> u \<le> t \<and> row_tile tpr row u tr)"
  using assms
proof (induction t arbitrary: ids)
  case (Suc t)
  let ?tr = "tile_of tpr (row ! (Suc t div tpr)) (Suc t)"
  consider "ids' = ids"
    | "Suc t div tpr < length row" "0 \<le> row ! (Suc t div tpr)" "?tr \<notin> set ids" "?tr \<notin> set snk" "?tr \<in> set hld"
      "walk_back tpr row snk hld t (ids @ [?tr]) = Inr ids'"
    using Suc.prems by (auto simp: Let_def split: if_splits)
  then show ?case
  proof cases
    case 2
    note IH = Suc.IH [OF 2(6)]
    have "\<exists>u. 1 \<le> u \<and> u \<le> Suc t \<and> row_tile tpr row u tr" if tr: "tr \<in> set ids' - set ids" for tr
    proof (cases "tr = ?tr")
      case True
      then show ?thesis using 2 by (intro exI [of _ "Suc t"]) (simp add: row_tile_def)
    next
      case False
      then have "tr \<in> set ids' - set (ids @ [?tr])" using tr by simp
      with IH obtain u where "1 \<le> u" "u \<le> t" "row_tile tpr row u tr" by blast
      then show ?thesis by (intro exI [of _ u]) simp
    qed
    with 2 IH show ?thesis by auto
  qed simp
qed simp

definition detect_rel ::
  "nat \<Rightarrow> nat \<Rightarrow> nat set \<Rightarrow> (int list \<times> int \<times> int) set \<Rightarrow> nat list \<Rightarrow> nat list \<Rightarrow> bool" where
  "detect_rel grp tpr C R ids ids' \<longleftrightarrow> (distinct ids \<longrightarrow> distinct ids') \<and> set ids \<subseteq> set ids' \<and>
     set ids' \<subseteq> set ids \<union> C \<and>
     (\<forall>tr \<in> set ids' - set ids. \<exists>row sl q u. (row, sl, q) \<in> R \<and> 1 \<le> u \<and>
        int (u + 1) \<le> committed sl q div int grp \<and> row_tile tpr row u tr)"

lemma le_nat_pred: "1 \<le> u \<Longrightarrow> u \<le> nat (x - 1) \<Longrightarrow> int (u + 1) \<le> x"
  by linarith

lemma detect_one:
  assumes "detect_flush grp tpr cols st r ids = Inr ids'"
  shows "detect_rel grp tpr (held st - set (sinks st)) {r} ids ids'"
proof -
  obtain row sl q where r: "r = (row, sl, q)" by (metis prod_cases3)
  define x where "x = committed sl q div int grp"
  show ?thesis
  proof (cases "cols = 0 \<or> sl \<le> 0")
    case True
    then have "ids' = ids" using assms by (simp add: detect_flush_def r)
    then show ?thesis by (simp add: detect_rel_def)
  next
    case False
    then have "walk_back tpr row (sinks st) (dict_keys (dict_map st)) (nat (x - 1)) ids = Inr ids'"
      using assms unfolding detect_flush_def r x_def by simp
    note w = walk_back_facts [OF this]
    have "\<exists>row sl q u. (row, sl, q) \<in> {r} \<and> 1 \<le> u \<and> int (u + 1) \<le> committed sl q div int grp \<and>
        row_tile tpr row u tr" if "tr \<in> set ids' - set ids" for tr
    proof -
      from w that obtain u where u: "1 \<le> u" "u \<le> nat (x - 1)" "row_tile tpr row u tr" by blast
      have "(row, sl, q) \<in> {r}" by (simp add: r)
      with u le_nat_pred [OF u(1,2)] show ?thesis unfolding x_def by blast
    qed
    then show ?thesis using w by (simp add: detect_rel_def)
  qed
qed

lemma detect_flush_facts:
  "fold_res (detect_flush grp tpr cols st) rs ids = Inr ids' \<Longrightarrow>
   detect_rel grp tpr (held st - set (sinks st)) (set rs) ids ids'"
proof (induction rs arbitrary: ids)
  case (Cons r rs)
  then obtain i1 where i1: "detect_flush grp tpr cols st r ids = Inr i1"
    "fold_res (detect_flush grp tpr cols st) rs i1 = Inr ids'" by (auto simp: bind_res_eq_Inr)
  note a = detect_one [OF i1(1)] and b = Cons.IH [OF i1(2)]
  show ?case
    unfolding detect_rel_def
  proof (intro conjI ballI)
    fix tr assume "tr \<in> set ids' - set ids"
    then consider "tr \<in> set i1 - set ids" | "tr \<in> set ids' - set i1" by blast
    then show "\<exists>row sl q u. (row, sl, q) \<in> set (r # rs) \<and> 1 \<le> u \<and>
        int (u + 1) \<le> committed sl q div int grp \<and> row_tile tpr row u tr"
    proof cases
      case 1
      then obtain row sl q u where "(row, sl, q) \<in> {r}" "1 \<le> u" "int (u + 1) \<le> committed sl q div int grp"
        "row_tile tpr row u tr" using a unfolding detect_rel_def by meson
      then show ?thesis by (metis list.set_intros(1) singletonD)
    next
      case 2
      then obtain row sl q u where "(row, sl, q) \<in> set rs" "1 \<le> u" "int (u + 1) \<le> committed sl q div int grp"
        "row_tile tpr row u tr" using b unfolding detect_rel_def by meson
      then show ?thesis by (metis list.set_intros(2))
    qed
  qed (use a b in \<open>unfold detect_rel_def, blast+\<close>)
qed (simp add: detect_rel_def)

section \<open>Reclaiming the tiles of finished requests\<close>

definition full :: "nat \<Rightarrow> tile_state \<Rightarrow> nat \<Rightarrow> bool" where
  "full grp st b \<longleftrightarrow> (case dict_get (block_fill st) b of None \<Rightarrow> False | Some n \<Rightarrow> int grp \<le> n)"

lemma full_iff: "0 < grp \<Longrightarrow> full grp st b \<longleftrightarrow> int grp \<le> fill_of st b"
  by (simp add: full_def fill_of_def split: option.splits)

definition reclaim_rel :: "nat \<Rightarrow> nat list \<Rightarrow> tile_state \<Rightarrow> tile_state \<Rightarrow> bool" where
  "reclaim_rel grp L st st' \<longleftrightarrow> same_but_sinks st st' \<and> (mirror_ok st \<longrightarrow> mirror_ok st') \<and>
     set (sinks st') = set (sinks st) - {b \<in> set L. \<not> full grp st b} \<and>
     set (retired_sinks st') = set (retired_sinks st) \<union> {b \<in> set L. full grp st b \<and> b \<in> set (sinks st)} \<and>
     (distinct (retired_sinks st) \<longrightarrow> distinct (retired_sinks st'))"

lemma reclaim_full:
  "reclaim grp b (ids, disc, st) =
     (if full grp st b \<and> b \<in> set (sinks st) then
        (ids, disc, st\<lparr>retired_sinks := set_add b (retired_sinks st)\<rparr>)
      else if full grp st b then (ids @ [b], disc, st)
      else (ids, disc @ [b],
        if b \<in> set (sinks st) then
          st\<lparr>sinks := removeAll b (sinks st), is_sink_t := (is_sink_t st)[b := False]\<rparr>
        else st))"
  by (simp add: reclaim_def full_def Let_def)

lemma reclaim_one_conj:
  assumes "reclaim grp b (ids, disc, st) = (ids', disc', st')"
  shows "ids' = ids @ filter (\<lambda>b. full grp st b \<and> b \<notin> set (sinks st)) [b] \<and>
    disc' = disc @ filter (\<lambda>b. \<not> full grp st b) [b] \<and> reclaim_rel grp [b] st st'"
proof -
  consider "full grp st b" "b \<in> set (sinks st)" | "full grp st b" "b \<notin> set (sinks st)"
    | "\<not> full grp st b" "b \<in> set (sinks st)" | "\<not> full grp st b" "b \<notin> set (sinks st)" by blast
  then show ?thesis
  proof cases
    case 1
    then have st': "st' = st\<lparr>retired_sinks := set_add b (retired_sinks st)\<rparr>" "ids' = ids" "disc' = disc"
      using assms by (simp_all add: reclaim_full)
    have "mirror_ok st'" if "mirror_ok st" using that by (simp add: st' mirror_ok_def slot_entry_def)
    with 1 show ?thesis by (auto simp: st' reclaim_rel_def same_but_sinks_def)
  next
    case 3
    then have st': "st' = st\<lparr>sinks := removeAll b (sinks st), is_sink_t := (is_sink_t st)[b := False]\<rparr>"
      "ids' = ids" "disc' = disc @ [b]"
      using assms by (simp_all add: reclaim_full)
    have "mirror_ok st'" if "mirror_ok st"
      using that by (rule mirror_ok_sinks [where b = b and v = False]) (auto simp: st' same_but_sinks_def)
    with 3 show ?thesis by (auto simp: st' reclaim_rel_def same_but_sinks_def)
  next
    case 2
    then have "st' = st" "ids' = ids @ [b]" "disc' = disc" using assms by (simp_all add: reclaim_full)
    with 2 show ?thesis by (auto simp: reclaim_rel_def)
  next
    case 4
    then have "st' = st" "ids' = ids" "disc' = disc @ [b]" using assms by (simp_all add: reclaim_full)
    with 4 show ?thesis by (auto simp: reclaim_rel_def)
  qed
qed

lemmas reclaim_one = reclaim_one_conj [THEN conjunct1]
  reclaim_one_conj [THEN conjunct2, THEN conjunct1] reclaim_one_conj [THEN conjunct2, THEN conjunct2]

lemma full_same: "same_but_sinks st st' \<Longrightarrow> full grp st' b = full grp st b"
  by (simp add: full_def same_but_sinks_def)

lemma reclaim_rel_Cons:
  assumes "reclaim_rel grp [b] st s1" "reclaim_rel grp L s1 st'" "b \<notin> set L"
  shows "reclaim_rel grp (b # L) st st'"
proof -
  note d = assms(1,2) [unfolded reclaim_rel_def]
  have same: "same_but_sinks st s1" using d by blast
  note f = full_same [OF same]
  have "same_but_sinks st st'" using d same_but_sinks_trans by blast
  moreover have "set (sinks st') = set (sinks st) - {x \<in> set (b # L). \<not> full grp st x}"
    using d unfolding f by auto
  moreover have "set (retired_sinks st') =
      set (retired_sinks st) \<union> {x \<in> set (b # L). full grp st x \<and> x \<in> set (sinks st)}"
    using d assms(3) unfolding f by auto
  ultimately show ?thesis using d unfolding reclaim_rel_def by blast
qed

lemma reclaim_all:
  "distinct L \<Longrightarrow> fold (reclaim grp) L (ids, disc, st) = (ids', disc', st') \<Longrightarrow>
   ids' = ids @ filter (\<lambda>b. full grp st b \<and> b \<notin> set (sinks st)) L \<and>
   disc' = disc @ filter (\<lambda>b. \<not> full grp st b) L \<and> reclaim_rel grp L st st'"
proof (induction L arbitrary: ids disc st)
  case (Cons b L)
  obtain i1 d1 s1 where r: "reclaim grp b (ids, disc, st) = (i1, d1, s1)" by (metis prod_cases3)
  note one = reclaim_one [OF r]
  have bL: "b \<notin> set L" "distinct L" using Cons.prems(1) by simp_all
  have f: "fold (reclaim grp) L (i1, d1, s1) = (ids', disc', st')" using Cons.prems(2) r by simp
  note IH = Cons.IH [OF bL(2) f]
  have same: "same_but_sinks st s1" and snk: "set (sinks s1) = set (sinks st) - {x \<in> {b}. \<not> full grp st x}"
    using one(3) by (simp_all add: reclaim_rel_def)
  have *: "filter (\<lambda>b. full grp s1 b \<and> b \<notin> set (sinks s1)) L = filter (\<lambda>b. full grp st b \<and> b \<notin> set (sinks st)) L"
    "filter (\<lambda>b. \<not> full grp s1 b) L = filter (\<lambda>b. \<not> full grp st b) L"
    using bL(1) unfolding full_same [OF same] snk by (auto intro!: filter_cong)
  have "reclaim_rel grp (b # L) st st'" using reclaim_rel_Cons [OF one(3) _ bL(1)] IH by blast
  then show ?case using IH one(1,2) unfolding * by simp
qed (simp add: reclaim_rel_def)

section \<open>The state before the flush\<close>

definition prepare :: "nat \<Rightarrow> nat \<Rightarrow> batch \<Rightarrow> tile_state \<Rightarrow> nat list \<times> tile_state" where
  "prepare grp tpr bt st0 =
     (case blocks_needed grp tpr bt (block_fill st0) of (needed0, fill) \<Rightarrow>
      let st1 = ensure_mirror (foldr max needed0 0 + 1) (st0\<lparr>block_fill := fill\<rparr>)
      in case fold (mark_request tpr (bt_cols bt)) (requests bt) ([], needed0, st1) of (row0, needed, st2) \<Rightarrow>
           (needed, unretire_needed row0 needed st2))"

lemma build_alloc_prepare:
  "prepare grp tpr bt st0 = (needed, st3) \<Longrightarrow>
   build_alloc set_iter fast grp tpr bt st0 =
     bind_res (flush_phase fast grp tpr bt needed st3) (\<lambda>(ids, disc, st4).
       bind_res (fold_res discard_tile disc (fold free_tile ids (log_flush ids st4)))
         (fold_res allocate (set_iter needed)))"
  by (simp add: build_alloc_def prepare_def Let_def split: prod.splits)

lemma foldr_max_ge: "b \<in> set bs \<Longrightarrow> b \<le> foldr max bs (0::nat)"
  by (induction bs) auto

lemma ensured_facts:
  assumes inv: "alloc_inv n grp st0" and b: "blocks_needed grp tpr bt (block_fill st0) = (needed0, fill)"
    and st1: "st1 = ensure_mirror (foldr max needed0 0 + 1) (st0\<lparr>block_fill := fill\<rparr>)"
  shows "slots_ok n st1 \<and> mirror_ok st1 \<and> life_ok grp (set needed0) st1 \<and> dict_map st1 = dict_map st0 \<and>
    sinks st1 = sinks st0 \<and> flush_log st1 = flush_log st0 \<and> max_known_block_id st1 = max_known_block_id st0 \<and>
    (\<forall>x. x \<notin> set needed0 \<longrightarrow> fill_of st1 x = fill_of st0 x) \<and>
    (\<forall>x \<in> set needed0 \<union> set (sinks st0). x < length (b2s_t st1))"
proof -
  let ?s = "st0\<lparr>block_fill := fill\<rparr>"
  have i: "slots_ok n st0" "mirror_ok st0" "life_ok grp {} st0" "\<forall>b \<in> held st0. b \<le> max_known_block_id st0"
    using inv by (simp_all add: alloc_inv_def)
  have "mirror_ok ?s" "dict_ok (dict_map ?s)"
    using i by (simp_all add: mirror_ok_def slot_entry_def slots_ok_def)
  note e = ensure_mirror_facts [OF this, of "foldr max needed0 0 + 1", folded st1]
  have fill: "fill_of st1 x = fill_of st0 x" if "x \<notin> set needed0" for x
    using blocks_needed_facts(2) [OF b that] e(8) by (simp add: fill_of_def)
  have "set (sinks st0) \<subseteq> held st0" using i(3) by (simp add: life_ok_def)
  then have "\<forall>x \<in> set (sinks st0). x < length (b2s_t st1)" using i(4) e(3) by fastforce
  moreover have "\<forall>x \<in> set needed0. x < length (b2s_t st1)" using foldr_max_ge e(2) by fastforce
  moreover have "life_ok grp (set needed0) st1"
    using i(3) fill e(4,6,7) by (auto simp: life_ok_def)
  moreover have "slots_ok n st1" using i(1) e(4,5) by (simp add: slots_ok_def)
  ultimately show ?thesis using e fill by auto
qed

lemma prepare_conj:
  assumes inv: "alloc_inv n grp st0" and p: "prepare grp tpr bt st0 = (needed, st3)"
  shows "phase_ok n grp (set needed) st3 \<and> dict_map st3 = dict_map st0 \<and> flush_log st3 = flush_log st0 \<and>
    distinct needed \<and> set (fst (blocks_needed grp tpr bt (block_fill st0))) \<subseteq> set needed \<and>
    set needed \<subseteq> set (fst (blocks_needed grp tpr bt (block_fill st0))) \<union> set (sinks st0) \<and>
    (\<forall>x. x \<notin> set needed \<longrightarrow> fill_of st3 x = fill_of st0 x) \<and> (\<forall>x \<in> set needed. x < length (b2s_t st3))"
proof -
  obtain needed0 fill where b: "blocks_needed grp tpr bt (block_fill st0) = (needed0, fill)" by fastforce
  define st1 where st1: "st1 = ensure_mirror (foldr max needed0 0 + 1) (st0\<lparr>block_fill := fill\<rparr>)"
  obtain row0 n1 st2 where m: "fold (mark_request tpr (bt_cols bt)) (requests bt) ([], needed0, st1) = (row0, n1, st2)"
    by (metis prod_cases3)
  have n1: "needed = n1" and st3: "st3 = unretire_needed row0 needed st2"
    using p m by (auto simp: prepare_def b Let_def st1)
  note e = ensured_facts [OF inv b st1]
  note mk = mark_facts [OF m, unfolded mark_rel_def, folded n1]
  define B where "B = set (filter (\<lambda>b. b \<in> set needed) (retired_sinks st2))"
  have u: "unretire_rel B st2 st3" unfolding st3 unretire_needed_def B_def by (rule unretire_facts)
  note u = u [unfolded unretire_rel_def]
  have same: "dict_map st3 = dict_map st0" "flush_log st3 = flush_log st0" "block_fill st3 = block_fill st1"
    "free_slots st3 = free_slots st1" "max_known_block_id st3 = max_known_block_id st0" "b2s_t st3 = b2s_t st1"
    "dict_map st1 = dict_map st0"
    using e mk u by (simp_all add: same_but_sinks_def)
  have ret: "retired_sinks st3 = filter (\<lambda>b. b \<notin> set needed) (retired_sinks st1)"
    using u mk by (auto simp: B_def intro!: filter_cong)
  have fill: "fill_of st3 x = fill_of st1 x" for x using same by (simp add: fill_of_def)
  have l: "set (sinks st1) \<subseteq> held st0 \<union> set needed0" "distinct (retired_sinks st1)"
    "set (retired_sinks st1) \<subseteq> held st0" "set (retired_sinks st1) \<subseteq> set (sinks st1)"
    "\<forall>b \<in> set (retired_sinks st1) - set needed0. int grp \<le> fill_of st1 b"
    using e unfolding life_ok_def same(7) by blast+
  have sk: "set (sinks st3) \<subseteq> set (sinks st1) \<union> set needed" "set needed0 \<subseteq> set needed"
    "set (sinks st1) - set needed \<subseteq> set (sinks st3)" "set needed \<subseteq> set needed0 \<union> set (sinks st1)"
    using u mk unfolding B_def by auto
  have "life_ok grp (set needed) st3"
    unfolding life_ok_def same(1)
  proof (intro conjI)
    show "set (sinks st3) \<subseteq> held st0 \<union> set needed" using l(1) sk by blast
    show "set (retired_sinks st3) \<subseteq> held st0 \<inter> set (sinks st3)"
      unfolding ret using l(3,4) sk(3) by auto
    show "distinct (retired_sinks st3)" using l(2) unfolding ret by simp
    show "\<forall>b \<in> set (retired_sinks st3) - set needed. int grp \<le> fill_of st3 b"
      using l(5) sk(2) unfolding ret fill by auto
  qed
  moreover have "slots_ok n st3" using e same by (simp add: slots_ok_def)
  moreover have "mirror_ok st3" using e mk u by blast
  moreover have "\<forall>b \<in> held st3. b \<le> max_known_block_id st3" using inv same by (simp add: alloc_inv_def)
  ultimately have "phase_ok n grp (set needed) st3" by (auto simp: phase_ok_def ret)
  moreover have "distinct needed0" using blocks_needed_facts(1) [OF b] .
  moreover have "\<forall>x. x \<notin> set needed \<longrightarrow> fill_of st3 x = fill_of st0 x" using e sk(2) unfolding fill by blast
  moreover have "\<forall>x \<in> set needed. x < length (b2s_t st3)" using e sk(4) unfolding same by auto
  ultimately show ?thesis using e mk same sk b by simp
qed

lemmas prepare_facts = prepare_conj [THEN conjunct1]
  prepare_conj [THEN conjunct2, THEN conjunct1]
  prepare_conj [THEN conjunct2, THEN conjunct2, THEN conjunct1]
  prepare_conj [THEN conjunct2, THEN conjunct2, THEN conjunct2, THEN conjunct1]
  prepare_conj [THEN conjunct2, THEN conjunct2, THEN conjunct2, THEN conjunct2, THEN conjunct1]
  prepare_conj [THEN conjunct2, THEN conjunct2, THEN conjunct2, THEN conjunct2, THEN conjunct2, THEN conjunct1]
  prepare_conj [THEN conjunct2, THEN conjunct2, THEN conjunct2, THEN conjunct2, THEN conjunct2, THEN conjunct2,
    THEN conjunct1]
  prepare_conj [THEN conjunct2, THEN conjunct2, THEN conjunct2, THEN conjunct2, THEN conjunct2, THEN conjunct2,
    THEN conjunct2]

section \<open>The flush phase\<close>

definition committed_tile :: "nat \<Rightarrow> nat \<Rightarrow> batch \<Rightarrow> nat \<Rightarrow> bool" where
  "committed_tile grp tpr bt b \<longleftrightarrow> (\<exists>row sl q u. (row, sl, q) \<in> set (requests bt) \<and> 1 \<le> u \<and>
     int (u + 1) \<le> committed sl q div int grp \<and> row_tile tpr row u b)"

definition flush_rel ::
  "bool \<Rightarrow> nat \<Rightarrow> nat \<Rightarrow> batch \<Rightarrow> nat list \<Rightarrow> tile_state \<Rightarrow> nat list \<Rightarrow> nat list \<Rightarrow> tile_state \<Rightarrow> bool" where
  "flush_rel fast grp tpr bt needed st ids disc st' \<longleftrightarrow> same_but_sinks st st' \<and>
     set ids \<inter> set (sinks st') = {} \<and> set disc \<inter> set (sinks st') = {} \<and> set disc \<inter> set ids = {} \<and> distinct disc \<and>
     set ids \<subseteq> held st \<and> set disc \<subseteq> held st \<and>
     (\<forall>b \<in> set ids. committed_tile grp tpr bt b \<or> b \<notin> set needed \<and> full grp st b) \<and>
     (\<forall>b \<in> set disc. b \<notin> set needed \<and> \<not> full grp st b) \<and>
     (\<not> fast \<longrightarrow> held st \<subseteq> set needed \<union> set ids \<union> set disc \<union> set (retired_sinks st'))"

lemma reclaim_phase_ok:
  assumes ok: "phase_ok n grp N st" and g: "0 < grp" and r: "reclaim_rel grp L st st'"
    and L: "set L \<subseteq> held st" "set L \<inter> N = {}"
  shows "phase_ok n grp N st'"
proof -
  note r = r [unfolded reclaim_rel_def]
  have same: "dict_map st' = dict_map st" "free_slots st' = free_slots st" "block_fill st' = block_fill st"
    "max_known_block_id st' = max_known_block_id st" using r by (simp_all add: same_but_sinks_def)
  have fill: "fill_of st' b = fill_of st b" for b by (simp add: fill_of_def same)
  have p: "slots_ok n st" "mirror_ok st" "set (retired_sinks st) \<inter> N = {}" "\<forall>b \<in> held st. b \<le> max_known_block_id st"
    "set (sinks st) \<subseteq> held st \<union> N" "distinct (retired_sinks st)" "set (retired_sinks st) \<subseteq> held st"
    "set (retired_sinks st) \<subseteq> set (sinks st)" "\<forall>b \<in> set (retired_sinks st) - N. int grp \<le> fill_of st b"
    using ok unfolding phase_ok_def life_ok_def by blast+
  have sk: "set (sinks st') = set (sinks st) - {b \<in> set L. \<not> full grp st b}"
    and rt: "set (retired_sinks st') = set (retired_sinks st) \<union> {b \<in> set L. full grp st b \<and> b \<in> set (sinks st)}"
    using r by blast+
  have keep: "full grp st b" if "b \<in> set (retired_sinks st)" for b
    using that p(3,9) full_iff [OF g] by blast
  have "life_ok grp N st'"
    unfolding life_ok_def same(1)
  proof (intro conjI)
    show "set (sinks st') \<subseteq> held st \<union> N" using p(5) sk by blast
    show "distinct (retired_sinks st')" using r p(6) by blast
    show "set (retired_sinks st') \<subseteq> held st \<inter> set (sinks st')"
      unfolding sk rt using p(7,8) L(1) keep by blast
    show "\<forall>b \<in> set (retired_sinks st') - N. int grp \<le> fill_of st' b"
      unfolding fill rt using p(9) full_iff [OF g, of st] by blast
  qed
  moreover have "slots_ok n st'" using p(1) same by (simp add: slots_ok_def)
  moreover have "set (retired_sinks st') \<inter> N = {}" unfolding rt using p(3) L(2) by blast
  ultimately show ?thesis using r p(2,4) unfolding phase_ok_def same by blast
qed

lemma flush_phase_facts:
  assumes ok: "phase_ok n grp (set needed) st" and g: "0 < grp"
    and f: "flush_phase fast grp tpr bt needed st = Inr (ids, disc, st')"
  shows "phase_ok n grp (set needed) st'" "flush_rel fast grp tpr bt needed st ids disc st'"
proof -
  have "phase_ok n grp (set needed) st' \<and> flush_rel fast grp tpr bt needed st ids disc st'"
  proof (cases fast)
    case True
    then have "ids = []" "disc = []" "st' = st" using f by (simp_all add: flush_phase_def)
    then show ?thesis using ok True by (simp add: flush_rel_def)
  next
    case False
    then obtain i1 where i1: "fold_res (detect_flush grp tpr (bt_cols bt) st) (requests bt) [] = Inr i1"
      and rc: "reclaim_unneeded grp needed i1 st = (ids, disc, st')"
      using f by (auto simp: flush_phase_def bind_res_eq_Inr)
    have det: "distinct i1" "set i1 \<subseteq> held st" "set i1 \<inter> set (sinks st) = {}" "\<forall>b \<in> set i1. committed_tile grp tpr bt b"
      using detect_flush_facts [OF i1] unfolding detect_rel_def committed_tile_def by auto
    define L where "L = filter (\<lambda>b. b \<notin> set needed \<and> b \<notin> set i1) (dict_keys (dict_map st))"
    have keys: "set (dict_keys (dict_map st)) = held st" "distinct (dict_keys (dict_map st))"
      using ok by (simp_all add: phase_ok_def slots_ok_def)
    have L: "distinct L" "set L = held st - set needed - set i1" using keys by (auto simp: L_def)
    have fo: "fold (reclaim grp) L (i1, [], st) = (ids, disc, st')" using rc by (simp add: reclaim_unneeded_def L_def)
    note r = reclaim_all [OF L(1) fo]
    then have rr: "reclaim_rel grp L st st'" by blast
    have ids: "set ids = set i1 \<union> {b \<in> set L. full grp st b \<and> b \<notin> set (sinks st)}"
      and disc: "set disc = {b \<in> set L. \<not> full grp st b}" "distinct disc" using r L(1) by auto
    have sk: "set (sinks st') = set (sinks st) - {b \<in> set L. \<not> full grp st b}"
      and rt: "set (retired_sinks st') = set (retired_sinks st) \<union> {b \<in> set L. full grp st b \<and> b \<in> set (sinks st)}"
      and same: "same_but_sinks st st'" using rr unfolding reclaim_rel_def by blast+
    have "flush_rel fast grp tpr bt needed st ids disc st'"
      unfolding flush_rel_def
    proof (intro conjI)
      show "set ids \<inter> set (sinks st') = {}" unfolding ids sk using det by blast
      show "set disc \<inter> set (sinks st') = {}" unfolding disc sk by blast
      show "set disc \<inter> set ids = {}" unfolding disc ids L(2) by blast
      show "set ids \<subseteq> held st" unfolding ids L(2) using det by blast
      show "set disc \<subseteq> held st" unfolding disc L(2) by blast
      show "\<forall>b \<in> set ids. committed_tile grp tpr bt b \<or> b \<notin> set needed \<and> full grp st b"
        unfolding ids L(2) using det by blast
      show "\<forall>b \<in> set disc. b \<notin> set needed \<and> \<not> full grp st b" unfolding disc L(2) by blast
      show "\<not> fast \<longrightarrow> held st \<subseteq> set needed \<union> set ids \<union> set disc \<union> set (retired_sinks st')"
        unfolding ids disc rt L(2) by blast
    qed (use same disc in blast)+
    moreover have "phase_ok n grp (set needed) st'"
      by (rule reclaim_phase_ok [OF ok g rr]) (use L(2) in blast)+
    ultimately show ?thesis by blast
  qed
  then show "phase_ok n grp (set needed) st'" "flush_rel fast grp tpr bt needed st ids disc st'" by blast+
qed

section \<open>What the allocation flushes\<close>

text \<open>
  \<open>alloc_rel\<close>: the new flush records are of complete tiles the step does not need, read from the slot the
  tile has held, and a tile keeps its slot unless it is flushed.
\<close>

definition alloc_rel :: "nat \<Rightarrow> nat set \<Rightarrow> tile_state \<Rightarrow> tile_state \<Rightarrow> (nat \<times> nat) list \<Rightarrow> bool" where
  "alloc_rel grp N st st' new \<longleftrightarrow> flush_log st' = flush_log st @ new \<and>
     (\<forall>(b, s) \<in> set new. dict_get (dict_map st) b = Some s \<and> b \<notin> N \<and> int grp \<le> fill_of st b) \<and>
     (\<forall>b. b \<notin> N \<longrightarrow> dict_get (dict_map st') b = None \<or>
        dict_get (dict_map st') b = dict_get (dict_map st) b \<and> fill_of st' b = fill_of st b) \<and>
     (\<forall>b. dict_get (dict_map st) b \<noteq> None \<longrightarrow> dict_get (dict_map st') b = dict_get (dict_map st) b \<or> b \<in> fst ` set new)"

lemma alloc_rel_refl: "alloc_rel grp N st st []"
  by (simp add: alloc_rel_def)

lemma alloc_rel_trans:
  assumes "alloc_rel grp N st s1 new1" "alloc_rel grp N s1 st' new2"
  shows "alloc_rel grp N st st' (new1 @ new2)"
proof -
  note d = assms [unfolded alloc_rel_def]
  have "dict_get (dict_map st) b = Some s \<and> b \<notin> N \<and> int grp \<le> fill_of st b" if "(b, s) \<in> set (new1 @ new2)" for b s
  proof (cases "(b, s) \<in> set new1")
    case False
    then have "dict_get (dict_map s1) b = Some s" "b \<notin> N" "int grp \<le> fill_of s1 b" using that d(2) by auto
    moreover then have "dict_get (dict_map s1) b = dict_get (dict_map st) b \<and> fill_of s1 b = fill_of st b"
      using d(1) by (metis option.distinct(1))
    ultimately show ?thesis by simp
  qed (use d(1) in auto)
  moreover have "dict_get (dict_map st') b = dict_get (dict_map st) b \<or> b \<in> fst ` set (new1 @ new2)"
    if "dict_get (dict_map st) b \<noteq> None" for b
  proof (cases "dict_get (dict_map s1) b = dict_get (dict_map st) b")
    case True
    then have "dict_get (dict_map s1) b \<noteq> None" using that by simp
    then have "dict_get (dict_map st') b = dict_get (dict_map s1) b \<or> b \<in> fst ` set new2" using d(2) by blast
    then show ?thesis using True by auto
  next
    case False
    then have "b \<in> fst ` set new1" using d(1) that by blast
    then show ?thesis by auto
  qed
  moreover have "dict_get (dict_map st') b = None \<or>
      dict_get (dict_map st') b = dict_get (dict_map st) b \<and> fill_of st' b = fill_of st b" if "b \<notin> N" for b
    using d that by metis
  ultimately show ?thesis using d unfolding alloc_rel_def by auto
qed

lemma make_room_rel:
  assumes ok: "phase_ok n grp N st"
  shows "\<exists>new. alloc_rel grp N st (make_room st) new"
proof (cases "free_slots st = [] \<and> retired_sinks st \<noteq> []")
  case True
  then obtain old rest where r: "retired_sinks st = old # rest" by (meson list.exhaust)
  then have "old \<in> held st" "old \<notin> N" "int grp \<le> fill_of st old" using ok by (auto simp: phase_ok_def life_ok_def)
  moreover then obtain s where s: "dict_get (dict_map st) old = Some s"
    by (metis dict_get_None_iff not_None_eq)
  moreover have "dict_map (make_room st) = dict_del old (dict_map st)" "block_fill (make_room st) = dict_del old (block_fill st)"
    "flush_log (make_room st) = flush_log st @ [(old, s)]"
    using True by (simp_all add: make_room_def evict_retired_def r Let_def log_flush_def s)
  ultimately have "alloc_rel grp N st (make_room st) [(old, s)]" by (simp add: alloc_rel_def fill_of_def)
  then show ?thesis ..
qed (auto simp: make_room_def intro!: exI [of _ "[]"] alloc_rel_refl)

lemma take_slot_rel: "bid \<notin> held st \<Longrightarrow> bid \<in> N \<Longrightarrow> alloc_rel grp N st (take_slot bid st) []"
  using dict_get_None_iff [of "dict_map st" bid] by (auto simp: alloc_rel_def take_slot_def fill_of_def)

lemma allocate_rel:
  assumes ok: "phase_ok n grp N st" and b: "bid \<in> N" and a: "allocate bid st = Inr st'"
  shows "\<exists>new. alloc_rel grp N st st' new"
proof (cases "bid \<in> held st")
  case True
  then have "st' = st" using a by (simp add: allocate_eq)
  then show ?thesis using alloc_rel_refl by blast
next
  case False
  then have st': "st' = take_slot bid (make_room st)" using a by (simp add: allocate_eq split: if_splits)
  obtain new where new: "alloc_rel grp N st (make_room st) new" using make_room_rel [OF ok] ..
  have "bid \<notin> held (make_room st)" using make_room_facts(2) [OF ok] False by blast
  from alloc_rel_trans [OF new take_slot_rel [OF this b]] show ?thesis unfolding st' by blast
qed

lemma allocate_all_rel:
  "phase_ok n grp N st \<Longrightarrow> set bs \<subseteq> N \<Longrightarrow> fold_res allocate bs st = Inr st' \<Longrightarrow> \<exists>new. alloc_rel grp N st st' new"
proof (induction bs arbitrary: st)
  case (Cons b bs)
  then obtain s1 where s1: "allocate b st = Inr s1" "fold_res allocate bs s1 = Inr st'" by (auto simp: bind_res_eq_Inr)
  have b: "b \<in> N" "set bs \<subseteq> N" using Cons.prems(2) by simp_all
  obtain new1 where "alloc_rel grp N st s1 new1" using allocate_rel [OF Cons.prems(1) b(1) s1(1)] ..
  moreover obtain new2 where "alloc_rel grp N s1 st' new2"
    using Cons.IH [OF allocate_facts(1) [OF Cons.prems(1) b(1) s1(1)] b(2) s1(2)] ..
  ultimately show ?case using alloc_rel_trans by blast
qed (use alloc_rel_refl in auto)

section \<open>One step of the builder\<close>

lemma fold_free_get:
  "dict_get (dict_map (fold free_tile bs st)) b = (if b \<in> set bs then None else dict_get (dict_map st) b)"
  "dict_get (block_fill (fold free_tile bs st)) b = (if b \<in> set bs then None else dict_get (block_fill st) b)"
  by (induction bs arbitrary: st) auto

lemma phase_ok_log [simp]: "phase_ok n grp N (log_flush ids st) = phase_ok n grp N st"
  by (simp add: phase_ok_def log_flush_def slots_ok_def mirror_ok_def slot_entry_def life_ok_def fill_of_def)

lemma log_flush_sel [simp]:
  "dict_map (log_flush ids st) = dict_map st" "sinks (log_flush ids st) = sinks st"
  "retired_sinks (log_flush ids st) = retired_sinks st" "b2s_t (log_flush ids st) = b2s_t st"
  "block_fill (log_flush ids st) = block_fill st"
  by (simp_all add: log_flush_def)

definition freed :: "nat list \<Rightarrow> nat list \<Rightarrow> tile_state \<Rightarrow> tile_state" where
  "freed ids disc st = fold free_tile disc (fold free_tile ids (log_flush ids st))"

lemma freed_facts:
  assumes ok: "phase_ok n grp (set needed) st" and f: "flush_rel fast grp tpr bt needed st0 ids disc st"
  shows "phase_ok n grp (set needed) (freed ids disc st)" "held (freed ids disc st) = held st0 - set ids - set disc"
    "retired_sinks (freed ids disc st) = retired_sinks st" "length (b2s_t (freed ids disc st)) = length (b2s_t st0)"
    "flush_log (freed ids disc st) = flush_log (log_flush ids st)"
    "fold_res discard_tile disc (fold free_tile ids (log_flush ids st)) = Inr (freed ids disc st)"
proof -
  note d = f [unfolded flush_rel_def same_but_sinks_def]
  let ?a = "fold free_tile ids (log_flush ids st)"
  have i: "phase_ok n grp (set needed) (log_flush ids st)" "set ids \<inter> set (sinks (log_flush ids st)) = {}"
    using ok d by simp_all
  note a = phase_ok_free_all [OF i]
  have j: "set disc \<inter> set (sinks ?a) = {}" using a(3) d by simp
  note b = phase_ok_free_all [OF a(1) j, folded freed_def]
  have h: "held ?a = held st0 - set ids" using a(2) d by simp
  show "phase_ok n grp (set needed) (freed ids disc st)" by (rule b(1))
  show "held (freed ids disc st) = held st0 - set ids - set disc" using b(2) h by simp
  show "retired_sinks (freed ids disc st) = retired_sinks st" "length (b2s_t (freed ids disc st)) = length (b2s_t st0)"
    "flush_log (freed ids disc st) = flush_log (log_flush ids st)"
    using a(4-6) b(4-6) d by simp_all
  have "set disc \<subseteq> held ?a" unfolding h using d by blast
  then show "fold_res discard_tile disc ?a = Inr (freed ids disc st)"
    using d by (simp add: discard_all freed_def)
qed

text \<open>The phases a successful step goes through, with what each of them establishes.\<close>

lemma build_phases:
  assumes inv: "alloc_inv n grp st0" and g: "0 < grp" and si: "\<And>xs. set (set_iter xs) = set xs"
    and p: "prepare grp tpr bt st0 = (needed, st3)" and b: "build_alloc set_iter fast grp tpr bt st0 = Inr st'"
  obtains ids disc st4 where "flush_rel fast grp tpr bt needed st3 ids disc st4"
    "phase_ok n grp (set needed) st4" "phase_ok n grp (set needed) (freed ids disc st4)" "phase_ok n grp (set needed) st'" "set needed \<subseteq> held st'"
    "length (b2s_t st') = length (b2s_t st3)" "fold_res allocate (set_iter needed) (freed ids disc st4) = Inr st'"
proof -
  from b obtain ids disc st4 where f: "flush_phase fast grp tpr bt needed st3 = Inr (ids, disc, st4)"
    and rest: "bind_res (fold_res discard_tile disc (fold free_tile ids (log_flush ids st4)))
      (fold_res allocate (set_iter needed)) = Inr st'"
    by (auto simp: build_alloc_prepare [OF p] bind_res_eq_Inr)
  note ff = flush_phase_facts [OF prepare_facts(1) [OF inv p] g f]
  note fr = freed_facts [OF ff]
  have al: "fold_res allocate (set_iter needed) (freed ids disc st4) = Inr st'" using rest by (simp add: fr(6))
  have sub: "set (set_iter needed) \<subseteq> set needed" by (simp add: si)
  note a = allocate_all [OF fr(1) sub al]
  show thesis
    by (rule that [OF ff(2,1) fr(1) a(1) _ _ al]) (use a(2,4) fr(4) si in simp_all)
qed

lemma phase_done:
  assumes "phase_ok n grp N st" "N \<subseteq> held st"
  shows "alloc_inv n grp st"
  using assms unfolding phase_ok_def alloc_inv_def life_ok_def by blast

lemma slot_visible:
  assumes "slots_ok n st" "mirror_ok st" "b \<in> held st" "b < length (b2s_t st)"
  shows "\<exists>s < n. dict_get (dict_map st) b = Some s \<and> b2s_t st ! b = int s"
proof -
  obtain s where s: "dict_get (dict_map st) b = Some s" using assms(3) by (metis dict_get_None_iff not_None_eq)
  from map_of_SomeD [OF s] have "s \<in> set (map snd (dict_map st) @ free_slots st)" by force
  then have "s < n" using assms(1) by (simp only: slots_ok_def lessThan_iff)
  then show ?thesis using s assms(2,4) by (auto simp: mirror_ok_def slot_entry_def)
qed

lemma build_alloc_inv:
  assumes inv: "alloc_inv n grp st0" and g: "0 < grp" and si: "\<And>xs. set (set_iter xs) = set xs"
    and b: "build_alloc set_iter fast grp tpr bt st0 = Inr st'"
  shows "alloc_inv n grp st'"
    "b \<in> set (fst (blocks_needed grp tpr bt (block_fill st0))) \<Longrightarrow>
     \<exists>s < n. dict_get (dict_map st') b = Some s \<and> b < length (b2s_t st') \<and> b2s_t st' ! b = int s"
proof -
  obtain needed st3 where p: "prepare grp tpr bt st0 = (needed, st3)" by fastforce
  obtain ids disc st4 where d: "phase_ok n grp (set needed) st'" "set needed \<subseteq> held st'"
    "length (b2s_t st') = length (b2s_t st3)"
    using build_phases [OF inv g si p b] by metis
  show "alloc_inv n grp st'" by (rule phase_done [OF d(1,2)])
  assume "b \<in> set (fst (blocks_needed grp tpr bt (block_fill st0)))"
  then have b: "b \<in> set needed" using prepare_facts(5) [OF inv p] by blast
  then have "b < length (b2s_t st')" using prepare_facts(8) [OF inv p] d(3) by simp
  moreover have "slots_ok n st'" "mirror_ok st'" using d(1) by (simp_all add: phase_ok_def)
  moreover have "b \<in> held st'" using b d(2) by blast
  ultimately show "\<exists>s < n. dict_get (dict_map st') b = Some s \<and> b < length (b2s_t st') \<and> b2s_t st' ! b = int s"
    using slot_visible by blast
qed

lemma freed_get:
  "dict_get (dict_map (freed ids disc st)) b = (if b \<in> set ids \<union> set disc then None else dict_get (dict_map st) b)"
  "b \<notin> set ids \<union> set disc \<Longrightarrow> fill_of (freed ids disc st) b = fill_of st b"
  by (auto simp: freed_def fold_free_get fill_of_def)

definition logged :: "nat list \<Rightarrow> tile_state \<Rightarrow> (nat \<times> nat) list" where
  "logged ids st = concat (map (\<lambda>b. case dict_get (dict_map st) b of None \<Rightarrow> [] | Some s \<Rightarrow> [(b, s)]) ids)"

lemma log_flush_logged: "flush_log (log_flush ids st) = flush_log st @ logged ids st"
  by (simp add: log_flush_def logged_def)

lemma logged_iff: "(b, s) \<in> set (logged ids st) \<longleftrightarrow> b \<in> set ids \<and> dict_get (dict_map st) b = Some s"
  by (induction ids) (auto simp: logged_def split: option.splits)

lemma build_alloc_log:
  assumes inv: "alloc_inv n grp st0" and g: "0 < grp" and si: "\<And>xs. set (set_iter xs) = set xs"
    and b: "build_alloc set_iter fast grp tpr bt st0 = Inr st'"
  shows "\<exists>new. flush_log st' = flush_log st0 @ new \<and>
    (\<forall>(b, s) \<in> set new. dict_get (dict_map st0) b = Some s \<and>
       (committed_tile grp tpr bt b \<or> int grp \<le> fill_of st0 b)) \<and>
    (\<forall>b s. dict_get (dict_map st0) b = Some s \<longrightarrow> dict_get (dict_map st') b = Some s \<or> (b, s) \<in> set new \<or>
       b \<notin> set (fst (blocks_needed grp tpr bt (block_fill st0))) \<and> fill_of st0 b < int grp)"
proof -
  obtain needed st3 where p: "prepare grp tpr bt st0 = (needed, st3)" by fastforce
  obtain ids disc st4 where fr: "flush_rel fast grp tpr bt needed st3 ids disc st4"
    and ok4: "phase_ok n grp (set needed) st4"
    and ok: "phase_ok n grp (set needed) (freed ids disc st4)"
    and al: "fold_res allocate (set_iter needed) (freed ids disc st4) = Inr st'"
    using build_phases [OF inv g si p b] by metis
  let ?st6 = "freed ids disc st4"
  have sub: "set (set_iter needed) \<subseteq> set needed" by (simp add: si)
  obtain new2 where "alloc_rel grp (set needed) ?st6 st' new2" using allocate_all_rel [OF ok sub al] ..
  note a = this [unfolded alloc_rel_def]
  note pf = prepare_facts [OF inv p]
  note f = fr [unfolded flush_rel_def]
  have same: "dict_map st4 = dict_map st0" "flush_log st4 = flush_log st0" "\<And>b. fill_of st4 b = fill_of st3 b"
    using f pf(2,3) by (simp_all add: same_but_sinks_def fill_of_def)
  have fl: "int grp \<le> fill_of st0 b" if "b \<notin> set needed" "full grp st3 b" for b
    using that pf(7) full_iff [OF g] by metis
  have new2: "dict_get (dict_map st0) b = Some s \<and> int grp \<le> fill_of st0 b" if "(b, s) \<in> set new2" for b s
  proof -
    have x: "dict_get (dict_map ?st6) b = Some s" "b \<notin> set needed" "int grp \<le> fill_of ?st6 b" using a that by auto
    then have "b \<notin> set ids \<union> set disc" by (simp only: freed_get(1) option.distinct if_True split: if_splits) simp
    then show ?thesis using x pf(7) freed_get same by simp
  qed
  have kept: "dict_get (dict_map st') b = Some s \<or> (b, s) \<in> set (logged ids st0 @ new2) \<or>
      b \<notin> set needed \<and> fill_of st0 b < int grp" if s: "dict_get (dict_map st0) b = Some s" for b s
  proof -
    consider "b \<in> set ids" | "b \<in> set disc" | "b \<notin> set ids \<union> set disc" by blast
    then show ?thesis
    proof cases
      case 2
      then have "b \<notin> set needed" "\<not> full grp st3 b" using f by blast+
      then show ?thesis using pf(7) full_iff [OF g] by (metis linorder_not_le)
    next
      case 3
      then have g6: "dict_get (dict_map ?st6) b = Some s" using s freed_get(1) same by simp
      then consider "dict_get (dict_map st') b = Some s" | s' where "(b, s') \<in> set new2" using a by fastforce
      then show ?thesis using new2 s by cases auto
    qed (use s in \<open>simp add: logged_iff\<close>)
  qed
  have log: "flush_log st' = flush_log st0 @ logged ids st0 @ new2"
    using a freed_facts(5) [OF ok4 fr] same by (simp add: log_flush_logged logged_def)
  show ?thesis
  proof (intro exI [of _ "logged ids st0 @ new2"] conjI allI impI)
    show "\<forall>(b, s) \<in> set (logged ids st0 @ new2). dict_get (dict_map st0) b = Some s \<and>
       (committed_tile grp tpr bt b \<or> int grp \<le> fill_of st0 b)"
      using new2 f fl by (auto simp: logged_iff)
  qed (use log kept pf(5) in blast)+
qed

end
