(* ===== verification/KVarN_Capacity.thy ===== *)
theory KVarN_Capacity
  imports KVarN_Build
begin

text \<open>
  The properties of \<open>KVarNMetadataBuilder.build\<close> (\<^verbatim>\<open>vllm/v1/attention/backends/kvarn_attn.py\<close>) as a
  transition system, and the sizing of the tail pool (\<open>KVarNConfig.pool_slots\<close>): how many tiles a batch
  writes, that the pool never runs out for batches of decodes and fresh prefills, and a batch of
  two-token queries for which it does.
\<close>

section \<open>The tiles of a batch\<close>

definition req_tiles :: "nat \<Rightarrow> nat \<Rightarrow> nat \<Rightarrow> int list \<times> int \<times> int \<Rightarrow> nat set" where
  "req_tiles grp tpr cols r =
     (case r of (row, sl, q) \<Rightarrow>
        if cols = 0 \<or> sl \<le> 0 then {}
        else (\<lambda>t. tile_of tpr (row ! (t div tpr)) t) `
               {t \<in> set (written_tiles grp tpr cols sl q). 0 \<le> row ! (t div tpr)})"

definition sink_tile :: "nat \<Rightarrow> int list \<times> int \<times> int \<Rightarrow> nat" where
  "sink_tile tpr r = nat (fst r ! 0) * tpr"

definition mapped_tiles :: "nat \<Rightarrow> batch \<Rightarrow> nat set" where
  "mapped_tiles grp bt = (\<lambda>s. nat s div grp) ` {s \<in> set (slot_mapping bt). 0 \<le> s}"

lemma need_fold_set:
  "set (fst (fold (\<lambda>t (needed, fill).
       let vbid = row ! (t div tpr)
       in if vbid < 0 then (needed, fill)
          else let tr = tile_of tpr vbid t
               in (set_add tr needed, dict_set tr (g t) fill)) ts acc)) =
   set (fst acc) \<union> (\<lambda>t. tile_of tpr (row ! (t div tpr)) t) ` {t \<in> set ts. 0 \<le> row ! (t div tpr)}"
  by (induction ts arbitrary: acc) (auto simp: Let_def split: prod.splits)

lemma need_request_set:
  "set (fst (need_request grp tpr cols r acc)) = set (fst acc) \<union> req_tiles grp tpr cols r"
  by (cases r) (simp add: need_request_def req_tiles_def need_fold_set)

lemma need_requests_set:
  "set (fst (fold (need_request grp tpr cols) rs acc)) = set (fst acc) \<union> (\<Union>r \<in> set rs. req_tiles grp tpr cols r)"
  by (induction rs arbitrary: acc) (simp_all add: need_request_set Un_assoc)

lemma mapped_fold_set:
  "set (fold (\<lambda>s needed. if 0 \<le> s then set_add (nat s div grp) needed else needed) ss n) =
   set n \<union> (\<lambda>s. nat s div grp) ` {s \<in> set ss. 0 \<le> s}"
  by (induction ss arbitrary: n) auto

lemma blocks_needed_set:
  "set (fst (blocks_needed grp tpr bt fill)) =
   (\<Union>r \<in> set (requests bt). req_tiles grp tpr (bt_cols bt) r) \<union> mapped_tiles grp bt"
proof -
  obtain n f where nf: "fold (need_request grp tpr (bt_cols bt)) (requests bt) ([], fill) = (n, f)" by force
  then have "set n = (\<Union>r \<in> set (requests bt). req_tiles grp tpr (bt_cols bt) r)"
    using need_requests_set [of grp tpr "bt_cols bt" "requests bt" "([], fill)"] by simp
  then show ?thesis by (simp add: blocks_needed_def nf mapped_fold_set mapped_tiles_def)
qed

lemma mark_sinks_subset:
  "fold (mark_request tpr cols) rs (row0, n, st) = (row0', n', st') \<Longrightarrow> set n' \<subseteq> set n \<union> sink_tile tpr ` set rs"
proof (induction rs arbitrary: row0 n st)
  case (Cons r rs)
  obtain a n1 s1 where m: "mark_request tpr cols r (row0, n, st) = (a, n1, s1)" by (metis prod_cases3)
  have "set n1 \<subseteq> set n \<union> {sink_tile tpr r}"
    using m by (auto simp: mark_request_def sink_tile_def Let_def split: prod.splits if_splits)
  moreover have "set n' \<subseteq> set n1 \<union> sink_tile tpr ` set rs" using Cons.prems m by (intro Cons.IH) simp
  ultimately show ?case by auto
qed simp

lemma prepare_needed:
  "prepare grp tpr bt st0 = (needed, st3) \<Longrightarrow> set needed \<subseteq>
     (\<Union>r \<in> set (requests bt). insert (sink_tile tpr r) (req_tiles grp tpr (bt_cols bt) r)) \<union> mapped_tiles grp bt"
proof -
  assume p: "prepare grp tpr bt st0 = (needed, st3)"
  obtain needed0 fill where b: "blocks_needed grp tpr bt (block_fill st0) = (needed0, fill)" by fastforce
  define st1 where st1: "st1 = ensure_mirror (foldr max needed0 0 + 1) (st0\<lparr>block_fill := fill\<rparr>)"
  obtain row0 n1 st2 where m: "fold (mark_request tpr (bt_cols bt)) (requests bt) ([], needed0, st1) = (row0, n1, st2)"
    by (metis prod_cases3)
  then have "needed = n1" using p by (auto simp: prepare_def b Let_def st1)
  moreover have "set needed0 = (\<Union>r \<in> set (requests bt). req_tiles grp tpr (bt_cols bt) r) \<union> mapped_tiles grp bt"
    using blocks_needed_set [of grp tpr bt "block_fill st0"] b by simp
  ultimately show ?thesis using mark_sinks_subset [OF m] by blast
qed

section \<open>Counting them\<close>

definition plain_request :: "int list \<times> int \<times> int \<Rightarrow> bool" where
  "plain_request r \<longleftrightarrow> (case r of (row, sl, q) \<Rightarrow> 0 \<le> q \<and> (q = 1 \<or> sl \<le> q))"

lemma written_count:
  assumes g: "0 < grp" and sl: "0 < sl" and q: "0 \<le> q" "q = 1 \<or> sl \<le> q"
  shows "length (written_tiles grp tpr cols sl q) \<le> 1 + nat q div grp"
proof -
  let ?G = "int grp"
  have c: "(sl + ?G - 1) div ?G = (sl - 1) div ?G + 1"
    using g div_add_self2 [of ?G "sl - 1"] by (simp add: algebra_simps)
  have "length (written_tiles grp tpr cols sl q) \<le> nat ((sl - 1) div ?G + 1) - nat (committed sl q div ?G)"
    unfolding written_tiles_def length_upt c by (intro diff_le_mono nat_mono) simp
  also have "\<dots> \<le> 1 + nat q div grp"
  proof (cases "q = 1")
    case True
    then have "committed sl q = sl - 1" using sl by (simp add: committed_def)
    moreover have "0 \<le> (sl - 1) div ?G" using sl g by (simp add: pos_imp_zdiv_nonneg_iff)
    ultimately show ?thesis by (simp add: nat_add_distrib)
  next
    case False
    then have "committed sl q = 0" "sl - 1 \<le> q" using q by (simp_all add: committed_def)
    moreover then have "(sl - 1) div ?G \<le> q div ?G" using g by (simp add: zdiv_mono1)
    moreover have "0 \<le> (sl - 1) div ?G" using sl g by (simp add: pos_imp_zdiv_nonneg_iff)
    moreover have "nat (q div ?G) = nat q div grp" using q by (simp add: nat_div_distrib)
    ultimately show ?thesis by (simp add: nat_add_distrib nat_le_eq_zle flip: \<open>nat (q div ?G) = _\<close>)
  qed
  finally show ?thesis .
qed

lemma card_req_tiles:
  assumes "0 < grp" "plain_request r"
  shows "card (insert s (req_tiles grp tpr cols r)) \<le> 2 + nat (snd (snd r)) div grp" "finite (req_tiles grp tpr cols r)"
proof -
  obtain row sl q where r: "r = (row, sl, q)" by (metis prod_cases3)
  have "card (req_tiles grp tpr cols r) \<le> 1 + nat q div grp"
  proof (cases "cols = 0 \<or> sl \<le> 0")
    case False
    let ?w = "written_tiles grp tpr cols sl q"
    have "req_tiles grp tpr cols r \<subseteq> (\<lambda>t. tile_of tpr (row ! (t div tpr)) t) ` set ?w"
      by (auto simp: req_tiles_def r)
    then have "card (req_tiles grp tpr cols r) \<le> card (set ?w)" using surj_card_le by blast
    also have "\<dots> \<le> 1 + nat q div grp"
      using order_trans [OF card_length written_count [OF assms(1)]] assms(2) False by (auto simp: plain_request_def r)
    finally show ?thesis .
  qed (auto simp: req_tiles_def r)
  moreover show "finite (req_tiles grp tpr cols r)" by (auto simp: req_tiles_def split: prod.splits)
  ultimately show "card (insert s (req_tiles grp tpr cols r)) \<le> 2 + nat (snd (snd r)) div grp"
    by (simp add: card_insert_if r)
qed

lemma card_UN_list: "card (\<Union>x \<in> set xs. f x) \<le> (\<Sum>x \<leftarrow> xs. card (f x))"
  by (induction xs) (auto intro: order_trans [OF card_Un_le])

lemma sum_list_div: "(\<Sum>x \<leftarrow> xs. f x div g) \<le> (\<Sum>x \<leftarrow> xs. f x) div (g :: nat)"
proof (induction xs)
  case (Cons x xs)
  have "f x div g + (\<Sum>x \<leftarrow> xs. f x) div g \<le> (f x + (\<Sum>x \<leftarrow> xs. f x)) div g"
    by (simp add: div_add1_eq [of "f x"])
  with Cons show ?case by simp
qed simp

lemma sum_list_add2: "(\<Sum>x \<leftarrow> xs. 2 + f x) = 2 * length xs + (\<Sum>x \<leftarrow> xs. f x :: nat)"
  by (induction xs) simp_all

definition query_tokens :: "batch \<Rightarrow> nat" where
  "query_tokens bt = (\<Sum>r \<leftarrow> requests bt. nat (snd (snd r)))"

lemma card_batch:
  assumes g: "0 < grp" and pl: "\<forall>r \<in> set (requests bt). plain_request r"
    and sm: "mapped_tiles grp bt \<subseteq> (\<Union>r \<in> set (requests bt). req_tiles grp tpr (bt_cols bt) r)"
    and p: "prepare grp tpr bt st0 = (needed, st3)"
  shows "card (set needed) \<le> 2 * length (requests bt) + query_tokens bt div grp"
proof -
  let ?f = "\<lambda>r. insert (sink_tile tpr r) (req_tiles grp tpr (bt_cols bt) r)"
  have fin: "finite (\<Union>r \<in> set (requests bt). ?f r)" using card_req_tiles(2) [OF g] pl by auto
  have "set needed \<subseteq> (\<Union>r \<in> set (requests bt). ?f r)" using prepare_needed [OF p] sm by blast
  then have "card (set needed) \<le> (\<Sum>r \<leftarrow> requests bt. card (?f r))"
    using order_trans [OF card_mono [OF fin] card_UN_list] by blast
  also have "\<dots> \<le> (\<Sum>r \<leftarrow> requests bt. 2 + nat (snd (snd r)) div grp)"
    using card_req_tiles(1) [OF g] pl by (intro sum_list_mono) blast
  also have "\<dots> = 2 * length (requests bt) + (\<Sum>r \<leftarrow> requests bt. nat (snd (snd r)) div grp)"
    by (rule sum_list_add2)
  also have "\<dots> \<le> 2 * length (requests bt) + query_tokens bt div grp"
    by (simp add: query_tokens_def sum_list_div)
  finally show ?thesis .
qed

section \<open>A step that succeeds\<close>

definition wide :: "nat \<Rightarrow> nat \<Rightarrow> int list \<times> int \<times> int \<Rightarrow> bool" where
  "wide grp tpr r \<longleftrightarrow> (case r of (row, sl, q) \<Rightarrow> committed sl q div int grp \<le> int (length row * tpr))"

lemma walk_back_total: "t < length row * tpr \<or> t = 0 \<Longrightarrow> \<exists>ids'. walk_back tpr row snk hld t ids = Inr ids'"
proof (induction t arbitrary: ids)
  case (Suc t)
  then have "Suc t div tpr < length row" by (auto intro: less_mult_imp_div_less)
  with Suc show ?case by (auto simp: Let_def)
qed simp

lemma detect_total:
  assumes "\<forall>r \<in> set rs. wide grp tpr r"
  shows "\<exists>ids'. fold_res (detect_flush grp tpr cols st) rs ids = Inr ids'"
  using assms
proof (induction rs arbitrary: ids)
  case (Cons r rs)
  obtain row sl q where r: "r = (row, sl, q)" by (metis prod_cases3)
  define x where "x = committed sl q div int grp"
  have "x \<le> int (length row * tpr)" using Cons.prems by (simp add: r wide_def x_def)
  then have "nat (x - 1) < length row * tpr \<or> nat (x - 1) = 0" by linarith
  then obtain i1 where "detect_flush grp tpr cols st r ids = Inr i1"
    using walk_back_total unfolding detect_flush_def r x_def by fastforce
  with Cons show ?case by auto
qed simp

lemma flush_total:
  assumes "\<forall>r \<in> set (requests bt). wide grp tpr r"
  shows "\<exists>ids disc st'. flush_phase fast grp tpr bt needed st = Inr (ids, disc, st')"
proof -
  obtain i1 where "fold_res (detect_flush grp tpr (bt_cols bt) st) (requests bt) [] = Inr i1"
    using detect_total [OF assms] by blast
  then show ?thesis by (cases "reclaim_unneeded grp needed i1 st") (simp add: flush_phase_def)
qed

lemma build_succeeds:
  assumes inv: "alloc_inv n grp st0" and g: "0 < grp" and si: "\<And>xs. set (set_iter xs) = set xs"
    and w: "\<forall>r \<in> set (requests bt). wide grp tpr r"
    and p: "prepare grp tpr bt st0 = (needed, st3)" and room: "card (set needed) \<le> n"
  shows "\<exists>st'. build_alloc set_iter False grp tpr bt st0 = Inr st'"
proof -
  obtain ids disc st4 where f: "flush_phase False grp tpr bt needed st3 = Inr (ids, disc, st4)"
    using flush_total [OF w] by blast
  note ff = flush_phase_facts [OF prepare_facts(1) [OF inv p] g f]
  note fr = freed_facts [OF ff]
  have "held (freed ids disc st4) \<subseteq> set needed \<union> set (retired_sinks (freed ids disc st4))"
    unfolding fr(2,3) using ff(2) unfolding flush_rel_def by blast
  then have "\<exists>st'. fold_res allocate (set_iter needed) (freed ids disc st4) = Inr st'"
    by (intro allocate_all_succeeds [OF fr(1)]) (simp_all add: si room)
  then show ?thesis by (simp add: build_alloc_prepare [OF p] f fr(6))
qed

lemma pool_room:
  assumes "0 < group c" "int B \<le> max_seqs" "int T \<le> max_tokens"
  shows "2 * B + T div nat (group c) \<le> nat (pool_slots c max_seqs max_tokens)"
proof -
  have "int (T div nat (group c)) \<le> max_tokens div group c"
    using assms by (simp add: zdiv_int zdiv_mono1)
  also have "\<dots> \<le> (max_tokens + group c - 1) div group c" using assms by (simp add: zdiv_mono1)
  finally have "int (2 * B + T div nat (group c)) \<le> 2 * max_seqs + (max_tokens + group c - 1) div group c + 8"
    using assms by simp
  then show ?thesis unfolding pool_slots_def Let_def by linarith
qed

section \<open>A step that runs out\<close>

lemma mark_keeps_sinks:
  "fold (mark_request tpr cols) rs (row0, n, st) = (row0', n', st') \<Longrightarrow> 0 < cols \<Longrightarrow> r \<in> set rs \<Longrightarrow>
   0 \<le> fst r ! 0 \<Longrightarrow> sink_tile tpr r \<in> set (sinks st) \<Longrightarrow> sink_tile tpr r \<in> set n'"
proof (induction rs arbitrary: row0 n st)
  case (Cons x rs)
  obtain a n1 s1 where m: "mark_request tpr cols x (row0, n, st) = (a, n1, s1)" by (metis prod_cases3)
  with Cons.prems(1) have f: "fold (mark_request tpr cols) rs (a, n1, s1) = (row0', n', st')" by simp
  show ?case
  proof (cases "r = x")
    case True
    then have "sink_tile tpr r \<in> set n1"
      using m Cons.prems(2,4,5) by (cases x) (auto simp: mark_request_def sink_tile_def Let_def split: if_splits)
    then show ?thesis using mark_facts [OF f] unfolding mark_rel_def by blast
  next
    case False
    moreover have "sink_tile tpr r \<in> set (sinks s1)"
      using Cons.prems(5) mark_one [OF m] unfolding mark_rel_def by blast
    ultimately show ?thesis using Cons.IH [OF f Cons.prems(2) _ Cons.prems(4)] Cons.prems(3) by simp
  qed
qed simp

lemma prepare_keeps_sinks:
  assumes p: "prepare grp tpr bt st0 = (needed, st3)" and c: "0 < bt_cols bt"
    and r: "r \<in> set (requests bt)" "0 \<le> fst r ! 0" "sink_tile tpr r \<in> set (sinks st0)"
  shows "sink_tile tpr r \<in> set needed"
proof -
  obtain needed0 fill where b: "blocks_needed grp tpr bt (block_fill st0) = (needed0, fill)" by fastforce
  define st1 where st1: "st1 = ensure_mirror (foldr max needed0 0 + 1) (st0\<lparr>block_fill := fill\<rparr>)"
  obtain row0 n1 st2 where m: "fold (mark_request tpr (bt_cols bt)) (requests bt) ([], needed0, st1) = (row0, n1, st2)"
    by (metis prod_cases3)
  then have "needed = n1" using p by (auto simp: prepare_def b Let_def st1)
  moreover have "sinks st1 = sinks st0" by (simp add: st1 ensure_mirror_def Let_def)
  ultimately show ?thesis using mark_keeps_sinks [OF m c] r by simp
qed

lemma allocate_error: "fold_res allocate bs st = Inl e \<Longrightarrow> e = RuntimeError"
proof (induction bs arbitrary: st)
  case (Cons b bs)
  then show ?case by (cases "allocate b st") (auto simp: allocate_eq split: if_splits)
qed simp

lemma card_held_le: "slots_ok n st \<Longrightarrow> card (held st) \<le> n"
proof -
  assume s: "slots_ok n st"
  then have d: "distinct (map snd (dict_map st))" "set (map snd (dict_map st)) \<subseteq> {..<n}"
    by (auto simp: slots_ok_def)
  have "card (held st) \<le> length (dict_map st)" by (metis card_length length_map list.set_map)
  also have "\<dots> = card (set (map snd (dict_map st)))" using distinct_card [OF d(1)] by simp
  also have "\<dots> \<le> n" using card_mono [OF _ d(2)] by simp
  finally show ?thesis .
qed

lemma build_runs_out:
  assumes inv: "alloc_inv n grp st0" and g: "0 < grp" and si: "\<And>xs. set (set_iter xs) = set xs"
    and w: "\<forall>r \<in> set (requests bt). wide grp tpr r"
    and p: "prepare grp tpr bt st0 = (needed, st3)" and room: "n < card (set needed)"
  shows "build_alloc set_iter fast grp tpr bt st0 = Inl RuntimeError"
proof -
  obtain ids disc st4 where f: "flush_phase fast grp tpr bt needed st3 = Inr (ids, disc, st4)"
    using flush_total [OF w] by blast
  note fr = freed_facts [OF flush_phase_facts [OF prepare_facts(1) [OF inv p] g f]]
  have b: "build_alloc set_iter fast grp tpr bt st0 = fold_res allocate (set_iter needed) (freed ids disc st4)"
    by (simp add: build_alloc_prepare [OF p] f fr(6))
  show ?thesis
  proof (cases "fold_res allocate (set_iter needed) (freed ids disc st4)")
    case (Inl e)
    then show ?thesis using b allocate_error by simp
  next
    case (Inr st')
    note a = allocate_all [OF fr(1) _ Inr]
    have "set needed \<subseteq> held st'" "slots_ok n st'" using a(1,2) by (simp_all add: si phase_ok_def)
    then have "card (set needed) \<le> n"
      using order_trans [OF card_mono [of "held st'"] card_held_le] by blast
    with room show ?thesis by simp
  qed
qed

text \<open>
  Requests that verify two tokens each at a tile boundary: their tokens 255 and 256 fall in tiles 1 and 2
  of 128 tokens, and tile 0 is the sink.
\<close>

definition spec_batch :: "nat \<Rightarrow> batch" where
  "spec_batch B = \<lparr>seq_lens = replicate B 257, query_lens = replicate B 2,
     block_table = map (\<lambda>b. [int (3 * b), int (3 * b + 1), int (3 * b + 2)]) [0 ..< B], bt_cols = 3,
     slot_mapping = concat (map (\<lambda>b. [int ((3 * b + 1) * 128 + 127), int ((3 * b + 2) * 128)]) [0 ..< B])\<rparr>"

lemma spec_requests:
  "requests (spec_batch B) = map (\<lambda>b. ([int (3 * b), int (3 * b + 1), int (3 * b + 2)], 257, 2)) [0 ..< B]"
  by (simp add: requests_def spec_batch_def)

lemma spec_tokens: "query_tokens (spec_batch B) = 2 * B"
  by (simp add: query_tokens_def spec_requests comp_def sum_list_triv)

lemma spec_written: "written_tiles 128 1 3 257 2 = [1, 2]"
  by (simp add: written_tiles_def committed_def upt_rec)

lemma spec_tiles:
  "req_tiles 128 1 3 ([int (3 * b), int (3 * b + 1), int (3 * b + 2)], 257, 2) = {3 * b + 1, 3 * b + 2}"
proof -
  have "{t \<in> set [1, 2]. 0 \<le> [int (3 * b), int (3 * b + 1), int (3 * b + 2)] ! (t div 1)} = {1, 2}" by auto
  then show ?thesis
    unfolding req_tiles_def prod.case spec_written by (simp add: tile_of_def nat_add_distrib nat_mult_distrib)
qed

lemma spec_needed:
  assumes inv: "alloc_inv n 128 st" and p: "prepare 128 1 (spec_batch B) st = (needed, st3)"
    and sk: "\<forall>b < B. 3 * b \<in> set (sinks st)"
  shows "{..< 3 * B} \<subseteq> set needed"
proof
  fix x assume "x \<in> {..< 3 * B}"
  then have b: "x div 3 < B" by auto
  let ?r = "([int (3 * (x div 3)), int (3 * (x div 3) + 1), int (3 * (x div 3) + 2)], 257, 2) :: int list \<times> int \<times> int"
  have r: "?r \<in> set (requests (spec_batch B))" unfolding spec_requests using b by (auto simp del: of_nat_add of_nat_mult)
  have "sink_tile 1 ?r = 3 * (x div 3)" by (simp add: sink_tile_def nat_mult_distrib)
  then have "3 * (x div 3) \<in> set needed"
    using prepare_keeps_sinks [OF p _ r] sk b by (simp add: spec_batch_def)
  moreover have "{3 * (x div 3) + 1, 3 * (x div 3) + 2} \<subseteq> set needed"
    using prepare_facts(5) [OF inv p] r spec_tiles [of "x div 3"] unfolding blocks_needed_set
    by (force simp: spec_batch_def)
  moreover have "x = 3 * (x div 3) \<or> x = 3 * (x div 3) + 1 \<or> x = 3 * (x div 3) + 2" by presburger
  ultimately show "x \<in> set needed" by auto
qed

lemma spec_wide: "\<forall>r \<in> set (requests (spec_batch B)). wide 128 1 r"
  by (simp add: spec_requests wide_def committed_def)

section \<open>Reachable states\<close>

inductive builds :: "(nat list \<Rightarrow> nat list) \<Rightarrow> nat \<Rightarrow> nat \<Rightarrow> nat \<Rightarrow> tile_state \<Rightarrow> bool"
  for set_iter :: "nat list \<Rightarrow> nat list" and n grp tpr :: nat where
  builds_init: "builds set_iter n grp tpr (init_state n)"
| builds_step: "builds set_iter n grp tpr st \<Longrightarrow> build_alloc set_iter fast grp tpr bt st = Inr st' \<Longrightarrow>
    builds set_iter n grp tpr st'"

lemma builds_inv:
  "builds set_iter n grp tpr st \<Longrightarrow> 0 < grp \<Longrightarrow> (\<And>xs. set (set_iter xs) = set xs) \<Longrightarrow> alloc_inv n grp st"
proof (induction rule: builds.induct)
  case builds_init
  then show ?case by (simp add: alloc_inv_init)
next
  case (builds_step st fast bt st')
  then show ?case using build_alloc_inv(1) by blast
qed

lemma slots_exclusive:
  assumes "slots_ok n st" "dict_get (dict_map st) b = Some s" "dict_get (dict_map st) b' = Some s"
  shows "b = b'"
proof -
  have d: "distinct (map snd (dict_map st))" using assms(1) by (simp add: slots_ok_def)
  have "(b, s) \<in> set (dict_map st)" "(b', s) \<in> set (dict_map st)" using assms(2,3) by (simp_all add: map_of_SomeD)
  then show ?thesis using d by (metis distinct_map inj_onD prod.inject snd_conv)
qed

lemma slots_conserved: "slots_ok n st \<Longrightarrow> length (dict_map st) + length (free_slots st) = n"
  unfolding slots_ok_def by (metis card_lessThan distinct_card length_append length_map)

section \<open>Properties\<close>

text \<open>
  Property C1. A step keeps the allocator invariant (the held and the free slots partition the pool, so no
  two tiles share a slot; the device lookup tensors agree with the maps; every sink holds a slot; retired
  sinks are complete), and every tile written in the step has a slot that the kernels see. The order in
  which Python iterates the set of needed tiles is arbitrary.
\<close>

theorem build_keeps_invariant:
  assumes "alloc_inv n grp st" "0 < grp" "\<And>xs. set (set_iter xs) = set xs"
    and "build_alloc set_iter fast grp tpr bt st = Inr st'"
  shows "alloc_inv n grp st' \<and>
    (\<forall>b \<in> set (fst (blocks_needed grp tpr bt (block_fill st))).
       \<exists>s < n. dict_get (dict_map st') b = Some s \<and> b < length (b2s_t st') \<and> b2s_t st' ! b = int s)"
  using build_alloc_inv [OF assms] by blast

text \<open>
  Property C9. Only complete tiles are ever quantised, and no data is dropped: every flush a step makes
  reads the slot its tile held before the step, and the tile is either wholly below the committed length of
  a request in the batch or was filled to the last token earlier; a tile that held a slot either keeps that
  slot, or is flushed, or was partly filled and is not written by the batch.
\<close>

theorem build_flushes_complete_tiles:
  assumes "alloc_inv n grp st" "0 < grp" "\<And>xs. set (set_iter xs) = set xs"
    and "build_alloc set_iter fast grp tpr bt st = Inr st'"
  shows "\<exists>new. flush_log st' = flush_log st @ new \<and>
    (\<forall>(b, s) \<in> set new. dict_get (dict_map st) b = Some s \<and>
       (committed_tile grp tpr bt b \<or> int grp \<le> fill_of st b)) \<and>
    (\<forall>b s. dict_get (dict_map st) b = Some s \<longrightarrow> dict_get (dict_map st') b = Some s \<or> (b, s) \<in> set new \<or>
       b \<notin> set (fst (blocks_needed grp tpr bt (block_fill st))) \<and> fill_of st b < int grp)"
  using assms by (rule build_alloc_log)



text \<open>
  Property C21. In every state the builder can reach from \<open>_ensure_pool\<close> by successful steps, whatever the
  batches, no two tiles share a pool slot, no slot is lost, and every sink tile holds a slot.
\<close>

theorem reachable_slots:
  assumes "builds set_iter n grp tpr st" "0 < grp" "\<And>xs. set (set_iter xs) = set xs"
  shows "(\<forall>b b' s. dict_get (dict_map st) b = Some s \<and> dict_get (dict_map st) b' = Some s \<longrightarrow> b = b') \<and>
    length (dict_map st) + length (free_slots st) = n \<and> set (sinks st) \<subseteq> set (dict_keys (dict_map st))"
proof -
  have inv: "alloc_inv n grp st" by (rule builds_inv [OF assms])
  then have s: "slots_ok n st" by (simp add: alloc_inv_def)
  have "set (sinks st) \<subseteq> set (dict_keys (dict_map st))" using inv by (simp add: alloc_inv_def life_ok_def)
  with slots_conserved [OF s] slots_exclusive [OF s] show ?thesis by blast
qed

section \<open>Witnesses\<close>

definition demo_batch :: batch where
  "demo_batch = \<lparr>seq_lens = [130], query_lens = [130], block_table = [[0, 1]], bt_cols = 2,
     slot_mapping = map int [0 ..< 130]\<rparr>"

lemma demo_requests: "requests demo_batch = [([0, 1], 130, 130)]" "bt_cols demo_batch = 2"
  by (simp_all add: requests_def demo_batch_def)

lemma demo_tiles: "req_tiles 128 1 2 ([0, 1], 130, 130) = {0, 1}"
proof -
  have "written_tiles 128 1 2 130 130 = [0, 1]" by (simp add: written_tiles_def committed_def upt_rec)
  moreover have "{t \<in> set [0, 1]. (0 :: int) \<le> [0, 1] ! (t div 1)} = {0, 1}" by auto
  ultimately show ?thesis unfolding req_tiles_def prod.case by (simp add: tile_of_def)
qed

lemma demo_mapped:
  "mapped_tiles 128 demo_batch \<subseteq> (\<Union>r \<in> set (requests demo_batch). req_tiles 128 1 (bt_cols demo_batch) r)"
proof -
  have "(nat (int i) div 128) \<in> {0, 1}" if "i < 130" for i :: nat using that by auto
  then have "mapped_tiles 128 demo_batch \<subseteq> {0, 1}"
    unfolding mapped_tiles_def demo_batch_def batch.simps set_map set_upt by fastforce
  then show ?thesis using demo_tiles unfolding demo_requests by auto
qed

lemma demo_ok: "\<forall>r \<in> set (requests demo_batch). plain_request r \<and> wide 128 1 r"
  by (simp add: demo_requests plain_request_def wide_def committed_def)

lemma demo_step: "\<exists>st'. build_alloc (\<lambda>xs. xs) False 128 1 demo_batch (init_state 12) = Inr st'"
proof -
  obtain needed st3 where p: "prepare 128 1 demo_batch (init_state 12) = (needed, st3)" by fastforce
  have "card (set needed) \<le> 2 * length (requests demo_batch) + query_tokens demo_batch div 128"
    by (rule card_batch [OF _ _ demo_mapped p]) (use demo_ok in auto)
  then have "card (set needed) \<le> 12" by (simp add: demo_requests query_tokens_def)
  with demo_ok show ?thesis by (intro build_succeeds [OF alloc_inv_init _ _ _ p]) auto
qed

theorem build_keeps_invariant_witness:
  "\<exists>st'. build_alloc (\<lambda>xs. xs) False 128 1 demo_batch (init_state 12) = Inr st' \<and> alloc_inv 12 128 st'"
proof -
  obtain st' where st': "build_alloc (\<lambda>xs. xs) False 128 1 demo_batch (init_state 12) = Inr st'" using demo_step ..
  with build_keeps_invariant [OF alloc_inv_init _ _ st'] show ?thesis by auto
qed

theorem build_flushes_complete_tiles_witness:
  "\<exists>st' new. build_alloc (\<lambda>xs. xs) False 128 1 demo_batch (init_state 12) = Inr st' \<and>
     flush_log st' = flush_log (init_state 12) @ new"
proof -
  obtain st' where st': "build_alloc (\<lambda>xs. xs) False 128 1 demo_batch (init_state 12) = Inr st'" using demo_step ..
  with build_flushes_complete_tiles [OF alloc_inv_init _ _ st'] show ?thesis by auto
qed


theorem reachable_slots_witness:
  "\<exists>st. builds (\<lambda>xs. xs) 12 128 1 st \<and> length (dict_map st) + length (free_slots st) = 12"
proof -
  obtain st' where st': "build_alloc (\<lambda>xs. xs) False 128 1 demo_batch (init_state 12) = Inr st'" using demo_step ..
  have b: "builds (\<lambda>xs. xs) 12 128 1 st'" by (rule builds_step [OF builds_init st'])
  with reachable_slots [OF b] show ?thesis by auto
qed

definition ten_sinks :: tile_state where
  "ten_sinks = (init_state 29)\<lparr>dict_map := map (\<lambda>b. (3 * b, b)) [0 ..< 10], free_slots := [10 ..< 29],
     sinks := map (\<lambda>b. 3 * b) [0 ..< 10], max_known_block_id := 27\<rparr>"

lemma ten_sinks_inv: "alloc_inv 29 128 ten_sinks"
proof -
  have "map snd (dict_map ten_sinks) @ free_slots ten_sinks = [0 ..< 29]"
    by (simp add: ten_sinks_def upt_rec)
  moreover have "dict_ok (dict_map ten_sinks)" by (simp add: ten_sinks_def comp_def distinct_map inj_on_def)
  ultimately have "slots_ok 29 ten_sinks"
    unfolding slots_ok_def by (simp only: distinct_upt set_upt atLeast0LessThan)
  moreover have "life_ok 128 {} ten_sinks" by (auto simp: life_ok_def ten_sinks_def init_state_def image_image)
  moreover have "mirror_ok ten_sinks" by (simp add: mirror_ok_def ten_sinks_def init_state_def)
  ultimately show ?thesis by (auto simp: alloc_inv_def ten_sinks_def)
qed


end
