(* ===== verification/Free_Queue.thy ===== *)
theory Free_Queue
  imports Prelude
begin

text \<open>
  \<open>KVCacheBlock\<close> and \<open>FreeKVCacheBlockQueue\<close> (\<^verbatim>\<open>vllm/v1/core/kv_cache_utils.py\<close>): the free list of KV-cache
  blocks, a doubly linked list threaded through the blocks themselves with a fake head and a fake tail.

  The block objects live in a store from references to blocks; an operation updates the links in the
  store one assignment after the other, as the code does. \<open>represents q xs\<close> says that the links spell the list
  \<open>xs\<close> of free block ids in both directions and that blocks outside the queue carry no links. The interface
  of the queue is the locale \<open>block_queue\<close>, interpreted here on the linked list and used by the block
  pool.
\<close>

section \<open>Definitions: blocks and the store\<close>

datatype bref = Head | Tail | Blk nat

record kv_block =
  block_id :: int
  ref_cnt :: int
  block_hash :: "byte list option"
  block_hash_num_tokens :: "int option"
  prev_free_block :: "bref option"
  next_free_block :: "bref option"
  is_null :: bool

definition new_block :: "int \<Rightarrow> kv_block" where
  "new_block i = \<lparr>block_id = i, ref_cnt = 0, block_hash = None, block_hash_num_tokens = None,
     prev_free_block = None, next_free_block = None, is_null = False\<rparr>"

definition set_block_hash :: "byte list \<Rightarrow> int option \<Rightarrow> kv_block \<Rightarrow> kv_block res" where
  "set_block_hash key num_tokens b =
     (if block_hash b = None \<and> block_hash_num_tokens b = None
      then Inr (b\<lparr>block_hash := Some key, block_hash_num_tokens := num_tokens\<rparr>)
      else Inl AssertionError)"

definition reset_hash :: "kv_block \<Rightarrow> kv_block" where
  "reset_hash b = b\<lparr>block_hash := None, block_hash_num_tokens := None\<rparr>"

type_synonym store = "bref \<Rightarrow> kv_block"

definition set_prev :: "bref \<Rightarrow> bref option \<Rightarrow> store \<Rightarrow> store" where
  "set_prev r v h = h(r := (h r)\<lparr>prev_free_block := v\<rparr>)"

definition set_next :: "bref \<Rightarrow> bref option \<Rightarrow> store \<Rightarrow> store" where
  "set_next r v h = h(r := (h r)\<lparr>next_free_block := v\<rparr>)"

section \<open>Definitions: the queue\<close>

record free_queue =
  heap :: store
  num_free_blocks :: int

definition init_link :: "nat list \<Rightarrow> nat \<Rightarrow> store \<Rightarrow> store" where
  "init_link blocks i h =
     (let h1 = (if 0 < i then set_prev (Blk (blocks ! i)) (Some (Blk (blocks ! (i - 1)))) h else h)
      in if i + 1 < length blocks then set_next (Blk (blocks ! i)) (Some (Blk (blocks ! (i + 1)))) h1 else h1)"

definition init_links :: "nat list \<Rightarrow> store \<Rightarrow> store" where
  "init_links blocks h = fold (init_link blocks) [0 ..< length blocks] h"

definition init_queue :: "nat list \<Rightarrow> store \<Rightarrow> free_queue" where
  "init_queue blocks h0 =
     (let h1 = (init_links blocks h0)(Head := new_block (- 1), Tail := new_block (- 1));
          h2 = (if 0 < length blocks then
                  set_next (Blk (last blocks)) (Some Tail)
                    (set_prev Tail (Some (Blk (last blocks)))
                      (set_prev (Blk (blocks ! 0)) (Some Head)
                        (set_next Head (Some (Blk (blocks ! 0))) h1)))
                else set_prev Tail (Some Head) (set_next Head (Some Tail) h1))
      in \<lparr>heap = h2, num_free_blocks = int (length blocks)\<rparr>)"

definition popleft :: "'a free_queue_scheme \<Rightarrow> (bref \<times> 'a free_queue_scheme) res" where
  "popleft q =
     (case next_free_block (heap q Head) of
        None \<Rightarrow> if num_free_blocks q = 0 then Inl ValueError else Inl AssertionError
      | Some first \<Rightarrow>
          if first = Tail then if num_free_blocks q = 0 then Inl ValueError else Inl AssertionError
          else case next_free_block (heap q first) of
                 None \<Rightarrow> Inl RuntimeError
               | Some nx \<Rightarrow>
                   let h1 = set_next Head (Some nx) (heap q);
                       h2 = set_prev nx (Some Head) h1;
                       h3 = set_next first None (set_prev first None h2)
                   in Inr (first, q\<lparr>heap := h3, num_free_blocks := num_free_blocks q - 1\<rparr>))"

fun pop_loop :: "nat \<Rightarrow> bref option \<Rightarrow> bref list \<Rightarrow> store \<Rightarrow> (bref list \<times> bref option \<times> store) res" where
  "pop_loop 0 cur ret h = Inr (ret, cur, h)"
| "pop_loop (Suc n) None ret h = Inl AssertionError"
| "pop_loop (Suc n) (Some b) ret h =
     pop_loop n (next_free_block (h b)) (ret @ [b]) (set_next b None (set_prev b None h))"

definition popleft_n :: "nat \<Rightarrow> 'a free_queue_scheme \<Rightarrow> (bref list \<times> 'a free_queue_scheme) res" where
  "popleft_n n q =
     (if n = 0 then Inr ([], q)
      else bind_res (py_assert (int n \<le> num_free_blocks q)) (\<lambda>_.
           bind_res (pop_loop n (next_free_block (heap q Head)) [] (heap q)) (\<lambda>(ret, cur, h).
             let h' = (case cur of None \<Rightarrow> h | Some c \<Rightarrow> set_prev c (Some Head) (set_next Head (Some c) h))
             in Inr (ret, q\<lparr>heap := h', num_free_blocks := num_free_blocks q - int n\<rparr>))))"

definition remove_q :: "bref \<Rightarrow> 'a free_queue_scheme \<Rightarrow> 'a free_queue_scheme res" where
  "remove_q b q =
     (case (prev_free_block (heap q b), next_free_block (heap q b)) of
        (Some p, Some nx) \<Rightarrow>
          let h1 = set_next p (Some nx) (heap q);
              h2 = set_prev nx (Some p) h1;
              h3 = set_next b None (set_prev b None h2)
          in Inr (q\<lparr>heap := h3, num_free_blocks := num_free_blocks q - 1\<rparr>)
      | _ \<Rightarrow> Inl RuntimeError)"

definition append_q :: "bref \<Rightarrow> 'a free_queue_scheme \<Rightarrow> 'a free_queue_scheme res" where
  "append_q b q =
     (case prev_free_block (heap q Tail) of
        None \<Rightarrow> Inl RuntimeError
      | Some l \<Rightarrow>
          let h1 = set_next l (Some b) (heap q);
              h2 = set_prev b (Some l) h1;
              h3 = set_next b (Some Tail) h2;
              h4 = set_prev Tail (Some b) h3
          in Inr (q\<lparr>heap := h4, num_free_blocks := num_free_blocks q + 1\<rparr>))"

fun link_chain :: "bref \<Rightarrow> bref list \<Rightarrow> store \<Rightarrow> bref \<times> store" where
  "link_chain l [] h = (l, h)"
| "link_chain l (b # bs) h = link_chain b bs (set_next l (Some b) (set_prev b (Some l) h))"

definition prepend_n :: "bref list \<Rightarrow> 'a free_queue_scheme \<Rightarrow> 'a free_queue_scheme res" where
  "prepend_n blocks q =
     (if blocks = [] then Inr q
      else case next_free_block (heap q Head) of
             None \<Rightarrow> Inl AssertionError
           | Some first \<Rightarrow>
               (case link_chain Head blocks (heap q) of (l, h) \<Rightarrow>
                  let h1 = set_next l (Some first) h; h2 = set_prev first (Some l) h1
                  in Inr (q\<lparr>heap := h2, num_free_blocks := num_free_blocks q + int (length blocks)\<rparr>)))"

definition append_n :: "bref list \<Rightarrow> 'a free_queue_scheme \<Rightarrow> 'a free_queue_scheme res" where
  "append_n blocks q =
     (if blocks = [] then Inr q
      else case prev_free_block (heap q Tail) of
             None \<Rightarrow> Inl AssertionError
           | Some l0 \<Rightarrow>
               (case link_chain l0 blocks (heap q) of (l, h) \<Rightarrow>
                  let h1 = set_next l (Some Tail) h; h2 = set_prev Tail (Some l) h1
                  in Inr (q\<lparr>heap := h2, num_free_blocks := num_free_blocks q + int (length blocks)\<rparr>)))"

text \<open>The two traversals follow links and may not end on a cyclic list; \<open>None\<close> is not returning.\<close>

partial_function (option) walk_all :: "store \<Rightarrow> bref \<Rightarrow> bref list \<Rightarrow> bref list option" where
  "walk_all h cur ret =
     (case next_free_block (h cur) of None \<Rightarrow> Some ret | Some nx \<Rightarrow> walk_all h nx (ret @ [cur]))"

definition get_all_free_blocks :: "'a free_queue_scheme \<Rightarrow> bref list res option" where
  "get_all_free_blocks q =
     (case next_free_block (heap q Head) of
        None \<Rightarrow> Some (Inl RuntimeError)
      | Some first \<Rightarrow> map_option Inr (walk_all (heap q) first []))"

partial_function (option) walk_after :: "store \<Rightarrow> bref option \<Rightarrow> bref list \<Rightarrow> bref list option" where
  "walk_after h cur ret =
     (case cur of
        None \<Rightarrow> Some ret
      | Some c \<Rightarrow> if c = Tail then Some ret else walk_after h (next_free_block (h c)) (ret @ [c]))"

definition iter_blocks_after :: "bref option \<Rightarrow> 'a free_queue_scheme \<Rightarrow> bref list option" where
  "iter_blocks_after cursor q =
     walk_after (heap q)
       (case cursor of None \<Rightarrow> next_free_block (heap q Head) | Some c \<Rightarrow> next_free_block (heap q c)) []"

section \<open>Links and lists\<close>

named_theorems link_simps \<open>reading a field after an assignment to a link\<close>

lemma set_prev_sel [link_simps, simp]:
  "prev_free_block (set_prev r v h x) = (if x = r then v else prev_free_block (h x))"
  "next_free_block (set_prev r v h x) = next_free_block (h x)"
  by (simp_all add: set_prev_def)

lemma set_next_sel [link_simps, simp]:
  "next_free_block (set_next r v h x) = (if x = r then v else next_free_block (h x))"
  "prev_free_block (set_next r v h x) = prev_free_block (h x)"
  by (simp_all add: set_next_def)

text \<open>The fields of a block other than its links.\<close>

definition data :: "kv_block \<Rightarrow> kv_block" where
  "data b = b\<lparr>prev_free_block := None, next_free_block := None\<rparr>"

lemma data_set [simp]: "data (set_prev r v h x) = data (h x)" "data (set_next r v h x) = data (h x)"
  by (simp_all add: data_def set_prev_def set_next_def)

lemma data_eqD:
  assumes "data b' = data b"
  shows "block_id b' = block_id b" "ref_cnt b' = ref_cnt b" "block_hash b' = block_hash b"
    "block_hash_num_tokens b' = block_hash_num_tokens b" "is_null b' = is_null b"
  using assms by (cases b; cases b'; simp add: data_def)+

fun linked :: "store \<Rightarrow> bref list \<Rightarrow> bool" where
  "linked h (a # b # r) \<longleftrightarrow> next_free_block (h a) = Some b \<and> prev_free_block (h b) = Some a \<and> linked h (b # r)"
| "linked h _ \<longleftrightarrow> True"

lemma linked_append: "linked h (xs @ y # ys) \<longleftrightarrow> linked h (xs @ [y]) \<and> linked h (y # ys)"
proof (induction xs)
  case (Cons a xs)
  then show ?case by (cases xs) auto
qed simp

lemma linked_Cons: "linked h (a # y # ys) \<longleftrightarrow> next_free_block (h a) = Some y \<and> prev_free_block (h y) = Some a \<and> linked h (y # ys)"
  by simp

lemma linked_frame:
  assumes "\<And>a. a \<in> set (butlast l) \<Longrightarrow> next_free_block (h' a) = next_free_block (h a)"
    and "\<And>a. a \<in> set (tl l) \<Longrightarrow> prev_free_block (h' a) = prev_free_block (h a)"
  shows "linked h' l = linked h l"
  using assms
proof (induction l rule: induct_list012)
  case (3 a b r)
  have "linked h' (b # r) = linked h (b # r)"
    using 3(3,4) by (intro 3(2)) (auto dest: list.set_sel(2))
  then show ?case using 3(3) [of a] 3(4) [of b] by simp
qed simp_all

definition spells :: "store \<Rightarrow> nat list \<Rightarrow> bool" where
  "spells h xs \<longleftrightarrow> distinct xs \<and> linked h (Head # map Blk xs @ [Tail]) \<and>
     prev_free_block (h Head) = None \<and> next_free_block (h Tail) = None \<and>
     (\<forall>x. x \<notin> set xs \<longrightarrow> prev_free_block (h (Blk x)) = None \<and> next_free_block (h (Blk x)) = None)"

definition represents :: "'a free_queue_scheme \<Rightarrow> nat list \<Rightarrow> bool" where
  "represents q xs \<longleftrightarrow> spells (heap q) xs \<and> num_free_blocks q = int (length xs)"

lemma spells_head: "spells h xs \<Longrightarrow> next_free_block (h Head) = Some (hd (map Blk xs @ [Tail]))"
  by (cases xs) (auto simp: spells_def)

lemma linked_last: "linked h (xs @ [a, b]) \<Longrightarrow> next_free_block (h a) = Some b \<and> prev_free_block (h b) = Some a"
  using linked_append [of h xs a "[b]"] by simp

lemma spells_tail: "spells h xs \<Longrightarrow> prev_free_block (h Tail) = Some (last (Head # map Blk xs))"
proof (cases xs rule: rev_cases)
  case (snoc ys y)
  assume "spells h xs"
  then have "linked h ((Head # map Blk ys) @ [Blk y, Tail])" by (simp add: spells_def snoc)
  from linked_last [OF this] show ?thesis by (simp add: snoc)
qed (simp add: spells_def)

text \<open>A list of references without repetitions that starts at the head and ends at the tail.\<close>

lemma distinct_refs: "distinct (Head # map Blk xs @ [Tail]) = distinct xs"
  by (auto simp: distinct_map inj_on_def)

text \<open>
  The middle of the list is replaced: the stretch between \<open>p\<close> and \<open>n\<close> becomes \<open>M\<close>, and the links of the
  dropped references \<open>X\<close> may change.
\<close>

lemma linked_splice:
  assumes "linked h (A @ [p])" "linked h (n # B)" "linked h' (p # M @ [n])"
    and nx: "\<And>a. a \<notin> set (p # M) \<union> X \<Longrightarrow> next_free_block (h' a) = next_free_block (h a)"
    and pv: "\<And>a. a \<notin> set (M @ [n]) \<union> X \<Longrightarrow> prev_free_block (h' a) = prev_free_block (h a)"
    and d: "distinct (A @ p # M @ n # B)" "X \<inter> set (A @ p # n # B) = {}"
  shows "linked h' (A @ p # M @ n # B)"
proof -
  have "linked h' (A @ [p]) = linked h (A @ [p])"
  proof (rule linked_frame)
    fix a assume "a \<in> set (butlast (A @ [p]))"
    then show "next_free_block (h' a) = next_free_block (h a)" using d by (intro nx) auto
  next
    fix a assume "a \<in> set (tl (A @ [p]))"
    then have "a \<in> set (A @ [p])" by (metis list.set_sel(2) append_is_Nil_conv not_Cons_self2)
    then show "prev_free_block (h' a) = prev_free_block (h a)" using d by (intro pv) auto
  qed
  moreover have "linked h' (n # B) = linked h (n # B)"
  proof (rule linked_frame)
    fix a assume "a \<in> set (butlast (n # B))"
    then have "a \<in> set (n # B)" by (rule in_set_butlastD)
    then show "next_free_block (h' a) = next_free_block (h a)" using d by (intro nx) auto
  next
    fix a assume "a \<in> set (tl (n # B))"
    then show "prev_free_block (h' a) = prev_free_block (h a)" using d by (intro pv) auto
  qed
  ultimately show ?thesis
    using assms(1-3) linked_append [of h' A p "M @ n # B"] linked_append [of h' "p # M" n B] by simp
qed

lemma link_chain_facts:
  assumes "distinct (l # bs)" "link_chain l bs h = (l', h')"
  shows "l' = last (l # bs)" "linked h' (l # bs)"
    "a \<notin> set (butlast (l # bs)) \<Longrightarrow> next_free_block (h' a) = next_free_block (h a)"
    "a \<notin> set bs \<Longrightarrow> prev_free_block (h' a) = prev_free_block (h a)"
    "data (h' x) = data (h x)"
proof -
  have "l' = last (l # bs) \<and> linked h' (l # bs) \<and>
    (\<forall>a. a \<notin> set (butlast (l # bs)) \<longrightarrow> next_free_block (h' a) = next_free_block (h a)) \<and>
    (\<forall>a. a \<notin> set bs \<longrightarrow> prev_free_block (h' a) = prev_free_block (h a)) \<and> (\<forall>x. data (h' x) = data (h x))"
    using assms
  proof (induction bs arbitrary: l h)
    case (Cons b bs)
    let ?h = "set_next l (Some b) (set_prev b (Some l) h)"
    have d: "distinct (b # bs)" "l \<notin> set (b # bs)" using Cons.prems(1) by auto
    have f: "link_chain b bs ?h = (l', h')" using Cons.prems(2) by simp
    note IH = Cons.IH [OF d(1) f]
    have lb: "l \<notin> set (butlast (b # bs))" using d(2) by (meson in_set_butlastD)
    have "next_free_block (h' l) = Some b" using IH lb by simp
    moreover have "prev_free_block (h' b) = Some l" using IH d by simp
    moreover have "next_free_block (h' a) = next_free_block (h a)" if "a \<notin> set (butlast (l # b # bs))" for a
      using IH that by simp
    moreover have "prev_free_block (h' a) = prev_free_block (h a)" if "a \<notin> set (b # bs)" for a
      using IH that by simp
    ultimately show ?case using IH by simp
  qed simp
  then show "l' = last (l # bs)" "linked h' (l # bs)"
    "a \<notin> set (butlast (l # bs)) \<Longrightarrow> next_free_block (h' a) = next_free_block (h a)"
    "a \<notin> set bs \<Longrightarrow> prev_free_block (h' a) = prev_free_block (h a)" "data (h' x) = data (h x)" by blast+
qed

lemma pop_loop_facts:
  "linked h (xs @ [t]) \<Longrightarrow> distinct (xs @ [t]) \<Longrightarrow>
   \<exists>h'. pop_loop (length xs) (Some (hd (xs @ [t]))) ret h = Inr (ret @ xs, Some t, h') \<and>
     (\<forall>a. next_free_block (h' a) = (if a \<in> set xs then None else next_free_block (h a))) \<and>
     (\<forall>a. prev_free_block (h' a) = (if a \<in> set xs then None else prev_free_block (h a))) \<and>
     (\<forall>a. data (h' a) = data (h a))"
proof (induction xs arbitrary: h ret)
  case (Cons x xs)
  let ?h = "set_next x None (set_prev x None h)"
  have nx: "next_free_block (h x) = Some (hd (xs @ [t]))" using Cons.prems(1) by (cases xs) auto
  have d: "distinct (xs @ [t])" "x \<notin> set (xs @ [t])" using Cons.prems(2) by auto
  have "linked h (xs @ [t])" using Cons.prems(1) by (cases xs) auto
  moreover have "linked ?h (xs @ [t]) = linked h (xs @ [t])"
  proof (rule linked_frame)
    fix a assume "a \<in> set (tl (xs @ [t]))"
    then have "a \<in> set (xs @ [t])" by (metis append_is_Nil_conv list.set_sel(2) not_Cons_self2)
    then show "prev_free_block (?h a) = prev_free_block (h a)" using d(2) by auto
  qed (use d(2) in auto)
  ultimately have l: "linked ?h (xs @ [t])" by simp
  from Cons.IH [OF l d(1), of "ret @ [x]"] obtain h' where
    h': "pop_loop (length xs) (Some (hd (xs @ [t]))) (ret @ [x]) ?h = Inr ((ret @ [x]) @ xs, Some t, h')"
    "\<forall>a. next_free_block (h' a) = (if a \<in> set xs then None else next_free_block (?h a))"
    "\<forall>a. prev_free_block (h' a) = (if a \<in> set xs then None else prev_free_block (?h a))"
    "\<forall>a. data (h' a) = data (?h a)" by blast
  then show ?case using nx by auto
qed simp

section \<open>The operations on the represented list\<close>

text \<open>\<open>updates q q' h'\<close>: only the links and the counter of the queue have changed.\<close>

definition updates :: "'a free_queue_scheme \<Rightarrow> 'a free_queue_scheme \<Rightarrow> bool" where
  "updates q q' \<longleftrightarrow> (\<exists>h' n'. q' = q\<lparr>heap := h', num_free_blocks := n'\<rparr> \<and> (\<forall>r. data (h' r) = data (heap q r)))"

lemma updatesI: "(\<And>r. data (h' r) = data (heap q r)) \<Longrightarrow> updates q (q\<lparr>heap := h', num_free_blocks := n'\<rparr>)"
  by (auto simp: updates_def)

lemma spells_remove:
  assumes s: "spells h (xs @ x # ys)"
    and h': "h' = set_next (Blk x) None (set_prev (Blk x) None (set_prev n (Some p) (set_next p (Some n) h)))"
    and p: "p = last (Head # map Blk xs)" and n: "n = hd (map Blk ys @ [Tail])"
  shows "spells h' (xs @ ys)" "prev_free_block (h (Blk x)) = Some p" "next_free_block (h (Blk x)) = Some n"
proof -
  define A where "A = butlast (Head # map Blk xs)"
  define B where "B = tl (map Blk ys @ [Tail])"
  have A: "A @ [p] = Head # map Blk xs" unfolding A_def p by (rule append_butlast_last_id) simp
  have B: "n # B = map Blk ys @ [Tail]" unfolding B_def n by (cases ys) auto
  have d: "distinct (Head # map Blk (xs @ x # ys) @ [Tail])" using s by (simp only: distinct_refs spells_def)
  have l: "linked h ((A @ [p]) @ Blk x # n # B)" using s unfolding A B spells_def by simp
  have l1: "linked h (A @ [p, Blk x])" "linked h (Blk x # n # B)" using l [THEN linked_append [THEN iffD1]] by simp_all
  from linked_last [OF l1(1)] l1(2) show pv: "prev_free_block (h (Blk x)) = Some p"
    and nx: "next_free_block (h (Blk x)) = Some n" by simp_all
  have dd: "distinct (A @ p # n # B)" "Blk x \<notin> set (A @ p # n # B)"
  proof -
    have "distinct ((A @ [p]) @ Blk x # n # B)" using d unfolding A B by simp
    then show "distinct (A @ p # n # B)" "Blk x \<notin> set (A @ p # n # B)" by auto
  qed
  have "linked h' (A @ p # [] @ n # B)"
  proof (rule linked_splice [where X = "{Blk x}"])
    show "linked h (A @ [p])" using l1(1) linked_append [of h A p "[Blk x]"] by simp
    show "linked h (n # B)" using l1(2) by simp
  qed (use dd in \<open>auto simp: h'\<close>)
  then have "linked h' (Head # map Blk (xs @ ys) @ [Tail])"
    using A B by (metis append.assoc append_Cons append_Nil map_append)
  moreover have "p \<noteq> Tail" "n \<noteq> Head" unfolding p n by (cases xs rule: rev_cases; cases ys; simp)+
  moreover have "Blk z \<noteq> p \<and> Blk z \<noteq> n" if "z \<notin> set (xs @ ys)" for z
    using that unfolding p n by (cases xs rule: rev_cases; cases ys; auto)
  ultimately show "spells h' (xs @ ys)" using s by (auto simp: spells_def h')
qed

lemma popleft_empty: "represents q [] \<Longrightarrow> popleft q = Inl ValueError"
  using spells_head [of "heap q" "[]"] by (simp add: popleft_def represents_def)

lemma popleft_Cons:
  assumes "represents q (x # xs)"
  shows "\<exists>q'. popleft q = Inr (Blk x, q') \<and> represents q' xs \<and> updates q q'"
proof -
  have s: "spells (heap q) ([] @ x # xs)" "num_free_blocks q = int (length (x # xs))"
    using assms by (simp_all add: represents_def)
  let ?n = "hd (map Blk xs @ [Tail])"
  note r = spells_remove [OF s(1) refl refl refl]
  have "next_free_block (heap q Head) = Some (Blk x)" using spells_head [OF s(1)] by simp
  then show ?thesis
    using r s(2) by (auto simp: popleft_def represents_def Let_def intro!: updatesI)
qed

lemma remove_mem:
  assumes "represents q (xs @ x # ys)"
  shows "\<exists>q'. remove_q (Blk x) q = Inr q' \<and> represents q' (xs @ ys) \<and> updates q q'"
proof -
  have s: "spells (heap q) (xs @ x # ys)" "num_free_blocks q = int (length (xs @ x # ys))"
    using assms by (simp_all add: represents_def)
  note r = spells_remove [OF s(1) refl refl refl]
  then show ?thesis
    using s(2) by (auto simp: remove_q_def represents_def Let_def intro!: updatesI)
qed

lemma remove_absent: "represents q xs \<Longrightarrow> x \<notin> set xs \<Longrightarrow> remove_q (Blk x) q = Inl RuntimeError"
  by (simp add: remove_q_def represents_def spells_def)

lemma first_ref:
  obtains B where "hd (map Blk xs @ [Tail]) # B = map Blk xs @ [Tail]"
  by (cases xs) auto

lemma spells_drop:
  assumes s: "spells h (ys @ zs)" and t: "t = hd (map Blk zs @ [Tail])"
    and nx: "\<And>a. next_free_block (h' a) = (if a \<in> set (map Blk ys) then None else next_free_block (h a))"
    and pv: "\<And>a. prev_free_block (h' a) = (if a \<in> set (map Blk ys) then None else prev_free_block (h a))"
  shows "spells (set_prev t (Some Head) (set_next Head (Some t) h')) zs" "linked h (map Blk ys @ [t])"
    "distinct (map Blk ys @ [t])"
proof -
  obtain B where B: "t # B = map Blk zs @ [Tail]" using first_ref t by metis
  have d: "distinct (Head # map Blk ys @ t # B)" using s unfolding B spells_def by (auto simp: distinct_map inj_on_def)
  then show "distinct (map Blk ys @ [t])" by auto
  have l: "linked h ((Head # map Blk ys) @ t # B)" using s unfolding B spells_def by simp
  then have l2: "linked h ((Head # map Blk ys) @ [t])" "linked h (t # B)" using linked_append by blast+
  then show "linked h (map Blk ys @ [t])" by (cases ys) auto
  let ?h = "set_prev t (Some Head) (set_next Head (Some t) h')"
  have "linked ?h ([] @ Head # [] @ t # B)"
    by (rule linked_splice [OF _ l2(2), where X = "set (map Blk ys)"]) (use d nx pv in auto)
  then have "linked ?h (Head # map Blk zs @ [Tail])" by (simp add: B)
  moreover have "t \<noteq> Head" "t = Tail \<or> (\<exists>z \<in> set zs. t = Blk z)" unfolding t by (cases zs; simp)+
  ultimately show "spells ?h zs" using s nx pv by (auto simp: spells_def)
qed

lemma popleft_n_take:
  assumes "represents q (ys @ zs)"
  shows "\<exists>q'. popleft_n (length ys) q = Inr (map Blk ys, q') \<and> represents q' zs \<and> updates q q'"
proof (cases "ys = []")
  case False
  let ?t = "hd (map Blk zs @ [Tail])" and ?h = "heap q"
  have s: "spells ?h (ys @ zs)" "num_free_blocks q = int (length ys + length zs)"
    using assms by (simp_all add: represents_def)
  note d = spells_drop [OF s(1) refl]
  obtain h' where h': "pop_loop (length ys) (Some (hd (map Blk ys @ [?t]))) [] ?h = Inr (map Blk ys, Some ?t, h')"
    "\<forall>a. next_free_block (h' a) = (if a \<in> set (map Blk ys) then None else next_free_block (?h a))"
    "\<forall>a. prev_free_block (h' a) = (if a \<in> set (map Blk ys) then None else prev_free_block (?h a))"
    "\<forall>a. data (h' a) = data (?h a)"
    using pop_loop_facts [of ?h "map Blk ys" ?t "[]"]
      d(2,3) [of "\<lambda>a. (?h a)\<lparr>next_free_block := if a \<in> set (map Blk ys) then None else next_free_block (?h a),
        prev_free_block := if a \<in> set (map Blk ys) then None else prev_free_block (?h a)\<rparr>"] by auto
  have sp: "spells (set_prev ?t (Some Head) (set_next Head (Some ?t) h')) zs"
    using d(1) [of h'] h'(2,3) by blast
  have "next_free_block (?h Head) = Some (hd (map Blk ys @ [?t]))"
    using spells_head [OF s(1)] False by (cases ys) auto
  then show ?thesis
    using False h'(1,4) s(2) sp by (auto simp: popleft_n_def represents_def intro!: updatesI)
qed (use assms in \<open>auto simp: popleft_n_def updates_def intro!: exI [of _ "heap q"] exI [of _ "num_free_blocks q"]\<close>)

lemma popleft_n_short: "represents q xs \<Longrightarrow> length xs < n \<Longrightarrow> popleft_n n q = Inl AssertionError"
  by (simp add: popleft_n_def represents_def)

text \<open>A chain of new references is linked in between two neighbours.\<close>

lemma spells_link:
  assumes s: "spells h xs" and d: "distinct ys" "set xs \<subseteq> set ys" and b: "bs \<noteq> []"
    and split: "Head # map Blk xs @ [Tail] = A @ p # n # B"
    and c: "link_chain p (map Blk bs) h = (l, h1)" and h': "h' = set_prev n (Some l) (set_next l (Some n) h1)"
    and ys: "Head # map Blk ys @ [Tail] = A @ p # map Blk bs @ n # B"
  shows "spells h' ys" "data (h' r) = data (h r)"
proof -
  have dd: "distinct (A @ p # map Blk bs @ n # B)" using d(1) distinct_refs [of ys] unfolding ys by simp
  then have dp: "distinct (p # map Blk bs)" by auto
  note f = link_chain_facts [OF dp c]
  have l: "l \<in> set (map Blk bs)" using f(1) b last_in_set [of "map Blk bs"] by simp
  obtain C where C: "map Blk bs = C @ [l]" using f(1) b by (metis append_butlast_last_id last_ConsR map_is_Nil_conv)
  have lh: "linked h (A @ p # n # B)" using s unfolding split [symmetric] spells_def by simp
  have nx: "next_free_block (h' a) = next_free_block (h a)" if "a \<notin> set (p # map Blk bs)" for a
  proof -
    have "a \<notin> set (butlast (p # map Blk bs))" using that by (meson in_set_butlastD)
    moreover have "a \<noteq> l" using that l by auto
    ultimately show ?thesis using f(3) by (simp add: h')
  qed
  have pv: "prev_free_block (h' a) = prev_free_block (h a)" if "a \<notin> set (map Blk bs @ [n])" for a
    using that f(4) [of a] by (auto simp: h')
  have "linked h' (A @ p # map Blk bs @ n # B)"
  proof (rule linked_splice [where X = "{}" and h = h])
    show "linked h (A @ [p])" using lh linked_append by blast
    show "linked h (n # B)" using lh linked_append [of h "A @ [p]" n B] by simp
    have "linked h' (p # map Blk bs) = linked h1 (p # map Blk bs)"
      by (rule linked_frame) (use dd C in \<open>auto simp: h'\<close>)
    then have "linked h' ((p # C) @ [l])" using f(2) C by simp
    moreover have "linked h' (l # [n])" using dd l by (auto simp: h')
    ultimately have "linked h' ((p # C) @ l # [n])" using linked_append by blast
    then show "linked h' (p # map Blk bs @ [n])" by (simp add: C)
  qed (use nx pv dd in auto)
  then have "linked h' (Head # map Blk ys @ [Tail])" by (simp only: ys)
  moreover have "Head \<notin> set (map Blk bs @ [n])"
    using arg_cong [OF ys, of hd] dd by (cases A) auto
  moreover have "Tail \<notin> set (p # map Blk bs)"
    using arg_cong [OF ys, of last] dd by (cases B rule: rev_cases) auto
  moreover have "Blk x \<notin> set (p # map Blk bs @ [n])" if "x \<notin> set ys" for x
  proof -
    have "Blk x \<notin> set (A @ p # map Blk bs @ n # B)" unfolding ys [symmetric] using that by auto
    then show ?thesis by simp
  qed
  ultimately show "spells h' ys" using s d nx pv unfolding spells_def by (auto simp del: set_map)
  show "data (h' r) = data (h r)" using f(5) by (simp add: h')
qed

lemma append_n_list:
  assumes "represents q xs" "distinct (xs @ bs)"
  shows "\<exists>q'. append_n (map Blk bs) q = Inr q' \<and> represents q' (xs @ bs) \<and> updates q q'"
proof (cases "bs = []")
  case False
  let ?p = "last (Head # map Blk xs)"
  have s: "spells (heap q) xs" "num_free_blocks q = int (length xs)" using assms(1) by (simp_all add: represents_def)
  obtain l h1 where c: "link_chain ?p (map Blk bs) (heap q) = (l, h1)" by force
  have A: "butlast (Head # map Blk xs) @ [?p] = Head # map Blk xs" by (rule append_butlast_last_id) simp
  have e: "Head # map Blk xs @ [Tail] = butlast (Head # map Blk xs) @ ?p # Tail # []"
    "Head # map Blk (xs @ bs) @ [Tail] = butlast (Head # map Blk xs) @ ?p # map Blk bs @ Tail # []"
    using A by (metis append.assoc append_Cons append_Nil map_append)+
  note r = spells_link [OF s(1) assms(2) _ False e(1) c refl e(2)]
  show ?thesis
    using False r s(2) spells_tail [OF s(1)] c by (auto simp: append_n_def represents_def intro!: updatesI)
qed (use assms in \<open>auto simp: append_n_def updates_def intro!: exI [of _ "heap q"] exI [of _ "num_free_blocks q"]\<close>)

lemma prepend_n_list:
  assumes "represents q xs" "distinct (bs @ xs)"
  shows "\<exists>q'. prepend_n (map Blk bs) q = Inr q' \<and> represents q' (bs @ xs) \<and> updates q q'"
proof (cases "bs = []")
  case False
  let ?n = "hd (map Blk xs @ [Tail])"
  have s: "spells (heap q) xs" "num_free_blocks q = int (length xs)" using assms(1) by (simp_all add: represents_def)
  obtain l h1 where c: "link_chain Head (map Blk bs) (heap q) = (l, h1)" by force
  obtain B where B: "?n # B = map Blk xs @ [Tail]" using first_ref by metis
  have e: "Head # map Blk xs @ [Tail] = [] @ Head # ?n # B"
    "Head # map Blk (bs @ xs) @ [Tail] = [] @ Head # map Blk bs @ ?n # B" unfolding B by simp_all
  note r = spells_link [OF s(1) assms(2) _ False e(1) c refl e(2)]
  show ?thesis
    using False r s(2) spells_head [OF s(1)] c by (auto simp: prepend_n_def represents_def intro!: updatesI)
qed (use assms in \<open>auto simp: prepend_n_def updates_def intro!: exI [of _ "heap q"] exI [of _ "num_free_blocks q"]\<close>)

lemma set_prev_next: "set_prev a v (set_next b w h) = set_next b w (set_prev a v h)"
  by (rule ext) (simp add: set_prev_def set_next_def)

lemma append_one:
  assumes "represents q xs" "x \<notin> set xs"
  shows "\<exists>q'. append_q (Blk x) q = Inr q' \<and> represents q' (xs @ [x]) \<and> updates q q'"
proof -
  have d: "distinct (xs @ [x])" using assms by (simp add: represents_def spells_def)
  have "append_n (map Blk [x]) q = append_q (Blk x) q"
    using assms(1) spells_tail [of "heap q" xs]
    by (simp add: append_n_def append_q_def represents_def Let_def set_prev_next)
  with append_n_list [OF assms(1) d] show ?thesis by simp
qed

section \<open>Initialisation\<close>

lemma linked_nth:
  "linked h l \<longleftrightarrow> (\<forall>i. i + 1 < length l \<longrightarrow>
     next_free_block (h (l ! i)) = Some (l ! (i + 1)) \<and> prev_free_block (h (l ! (i + 1))) = Some (l ! i))"
proof (induction h l rule: linked.induct)
  case (1 h a b r)
  let ?P = "\<lambda>l i. i + 1 < length l \<longrightarrow>
     next_free_block (h (l ! i)) = Some (l ! (i + 1)) \<and> prev_free_block (h (l ! (i + 1))) = Some (l ! i)"
  have "(\<forall>i. ?P (a # b # r) i) \<longleftrightarrow> ?P (a # b # r) 0 \<and> (\<forall>i. ?P (a # b # r) (Suc i))"
    by (metis not0_implies_Suc)
  then show ?case using 1 by simp
qed simp_all

lemma init_links_facts:
  assumes d: "distinct bs" and k: "k \<le> length bs" and h': "h' = fold (init_link bs) [0 ..< k] h"
  shows "\<forall>i < length bs. next_free_block (h' (Blk (bs ! i))) =
      (if i < k \<and> i + 1 < length bs then Some (Blk (bs ! (i + 1))) else next_free_block (h (Blk (bs ! i)))) \<and>
    prev_free_block (h' (Blk (bs ! i))) =
      (if 0 < i \<and> i < k then Some (Blk (bs ! (i - 1))) else prev_free_block (h (Blk (bs ! i))))"
    "\<forall>r. r \<notin> Blk ` set bs \<longrightarrow> next_free_block (h' r) = next_free_block (h r) \<and> prev_free_block (h' r) = prev_free_block (h r)"
    "\<forall>r. data (h' r) = data (h r)"
  unfolding h' using k
proof (induction k)
  case (Suc k)
  {
    case 1
    have "k < length bs" using 1 by simp
    then show ?case using Suc(1) by (auto simp: init_link_def Let_def nth_eq_iff_index_eq [OF d] less_Suc_eq)
  next
    case 2
    then have "bs ! k \<in> set bs" by simp
    then show ?case using Suc(2) 2 by (auto simp: init_link_def Let_def simp del: nth_mem)
  next
    case 3
    then show ?case using Suc(3) by (auto simp: init_link_def Let_def)
  }
qed simp_all

lemma init_queue_represents:
  assumes d: "distinct bs" and h: "\<And>x. prev_free_block (h (Blk x)) = None \<and> next_free_block (h (Blk x)) = None"
  shows "represents (init_queue bs h) bs"
proof (cases "bs = []")
  case True
  then show ?thesis using h by (auto simp: represents_def spells_def init_queue_def init_links_def new_block_def)
next
  case False
  define h0 where "h0 = init_links bs h"
  note f = init_links_facts [OF d order_refl h0_def [unfolded init_links_def]]
  define h1 where "h1 = h0(Head := new_block (- 1), Tail := new_block (- 1))"
  define h2 where "h2 = set_next (Blk (last bs)) (Some Tail) (set_prev Tail (Some (Blk (last bs)))
    (set_prev (Blk (bs ! 0)) (Some Head) (set_next Head (Some (Blk (bs ! 0))) h1)))"
  have q: "init_queue bs h = \<lparr>heap = h2, num_free_blocks = int (length bs)\<rparr>"
    using False by (simp add: init_queue_def Let_def h0_def h1_def h2_def)
  have "linked h0 (map Blk bs)" using f(1) by (auto simp: linked_nth)
  moreover have "linked h2 (map Blk bs) = linked h0 (map Blk bs)"
  proof (rule linked_frame)
    fix a assume a: "a \<in> set (butlast (map Blk bs))"
    then have "a \<noteq> Blk (last bs)" "a \<noteq> Head" "a \<noteq> Tail"
      using d False by (auto simp: map_butlast [symmetric] dest: in_set_butlastD)
        (metis append_butlast_last_id distinct_append disjoint_insert(2) list.simps(15))
    then show "next_free_block (h2 a) = next_free_block (h0 a)" by (simp add: h2_def h1_def)
  next
    fix a assume a: "a \<in> set (tl (map Blk bs))"
    then have "a \<noteq> Blk (bs ! 0)" "a \<noteq> Head" "a \<noteq> Tail" using d False by (cases bs; auto)+
    then show "prev_free_block (h2 a) = prev_free_block (h0 a)" by (simp add: h2_def h1_def)
  qed
  ultimately have l: "linked h2 (map Blk bs)" by simp
  have "linked h2 (Head # map Blk bs @ [Tail])"
  proof -
    obtain y ys where y: "bs = y # ys" using False by (cases bs) auto
    obtain z zs where z: "bs = zs @ [z]" using False by (cases bs rule: rev_cases) auto
    have "linked h2 (map Blk zs @ Blk z # [Tail])"
      using l linked_append [of h2 "map Blk zs" "Blk z" "[Tail]"] by (simp add: z h2_def)
    then have "linked h2 (map Blk bs @ [Tail])" by (simp add: z)
    then show ?thesis by (simp add: y h2_def h1_def)
  qed
  moreover have "prev_free_block (h2 (Blk x)) = None \<and> next_free_block (h2 (Blk x)) = None" if "x \<notin> set bs" for x
  proof -
    have "Blk x \<noteq> Blk (last bs)" "Blk x \<noteq> Blk (bs ! 0)" using that False by auto
    then show ?thesis using f(2) h [of x] that by (auto simp: h2_def h1_def)
  qed
  ultimately show ?thesis using d by (auto simp: represents_def q spells_def h2_def h1_def new_block_def)
qed

lemma init_queue_data:
  assumes "distinct bs"
  shows "data (heap (init_queue bs h) (Blk x)) = data (h (Blk x))"
  using init_links_facts(3) [OF assms order_refl refl, of h] by (simp add: init_queue_def init_links_def Let_def)

section \<open>Traversals\<close>

lemma walk_all_list:
  "linked h (bs @ [Tail]) \<Longrightarrow> next_free_block (h Tail) = None \<Longrightarrow> walk_all h (hd (bs @ [Tail])) ret = Some (ret @ bs)"
proof (induction bs arbitrary: ret)
  case Nil
  then show ?case by (simp add: walk_all.simps)
next
  case (Cons b bs)
  have nx: "next_free_block (h b) = Some (hd (bs @ [Tail]))" and l: "linked h (bs @ [Tail])"
    using Cons.prems(1) by (cases bs; simp)+
  have "walk_all h b ret = walk_all h (hd (bs @ [Tail])) (ret @ [b])" by (subst walk_all.simps) (simp add: nx)
  then show ?case using Cons.IH [OF l Cons.prems(2), of "ret @ [b]"] by simp
qed

lemma walk_after_list:
  "linked h (bs @ [Tail]) \<Longrightarrow> Tail \<notin> set bs \<Longrightarrow> walk_after h (Some (hd (bs @ [Tail]))) ret = Some (ret @ bs)"
proof (induction bs arbitrary: ret)
  case Nil
  then show ?case by (simp add: walk_after.simps)
next
  case (Cons b bs)
  have nx: "next_free_block (h b) = Some (hd (bs @ [Tail]))" and l: "linked h (bs @ [Tail])"
    using Cons.prems(1) by (cases bs; simp)+
  have "walk_after h (Some b) ret = walk_after h (Some (hd (bs @ [Tail]))) (ret @ [b])"
    using Cons.prems(2) by (subst walk_after.simps) (auto simp: nx)
  then show ?case using Cons.IH [OF l, of "ret @ [b]"] Cons.prems(2) by simp
qed

lemma spells_suffix:
  assumes "spells h (ys @ x # zs)"
  shows "linked h (map Blk zs @ [Tail])" "next_free_block (h (Blk x)) = Some (hd (map Blk zs @ [Tail]))"
proof -
  have "linked h ((Head # map Blk ys) @ Blk x # map Blk zs @ [Tail])" using assms by (simp add: spells_def)
  then have "linked h (Blk x # map Blk zs @ [Tail])" using linked_append by blast
  then show "linked h (map Blk zs @ [Tail])" "next_free_block (h (Blk x)) = Some (hd (map Blk zs @ [Tail]))"
    by (cases zs; simp)+
qed

lemma spells_linked: "spells h xs \<Longrightarrow> linked h (map Blk xs @ [Tail])"
  by (cases xs) (auto simp: spells_def)

lemma traversals:
  assumes "represents q xs"
  shows "get_all_free_blocks q = Some (Inr (map Blk xs))" "iter_blocks_after None q = Some (map Blk xs)"
    "xs = ys @ x # zs \<Longrightarrow> iter_blocks_after (Some (Blk x)) q = Some (map Blk zs)"
    "x \<notin> set xs \<Longrightarrow> iter_blocks_after (Some (Blk x)) q = Some []"
proof -
  have s: "spells (heap q) xs" using assms by (simp add: represents_def)
  have t: "next_free_block (heap q Tail) = None" using s by (simp add: spells_def)
  note h = spells_head [OF s] and l = spells_linked [OF s]
  have nt: "Tail \<notin> set (map Blk us)" for us by auto
  show "get_all_free_blocks q = Some (Inr (map Blk xs))"
    using walk_all_list [OF l t] by (simp add: get_all_free_blocks_def h)
  show "iter_blocks_after None q = Some (map Blk xs)"
    using walk_after_list [OF l nt] by (simp add: iter_blocks_after_def h)
  show "iter_blocks_after (Some (Blk x)) q = Some (map Blk zs)" if "xs = ys @ x # zs"
    using walk_after_list [OF spells_suffix(1) nt] spells_suffix(2) s that by (simp add: iter_blocks_after_def)
  show "iter_blocks_after (Some (Blk x)) q = Some []" if "x \<notin> set xs"
    using s that by (simp add: iter_blocks_after_def spells_def walk_after.simps)
qed

section \<open>The interface of the queue\<close>

text \<open>
  What a client of the free list relies on: a queue stands for one list of distinct block ids, the
  operations act on that list, misuse is an error, and nothing but the links changes (\<open>upd\<close>).
\<close>

locale block_queue =
  fixes rep :: "'q \<Rightarrow> nat list \<Rightarrow> bool"
    and upd :: "'q \<Rightarrow> 'q \<Rightarrow> bool"
    and popn :: "nat \<Rightarrow> 'q \<Rightarrow> (bref list \<times> 'q) res"
    and rem :: "bref \<Rightarrow> 'q \<Rightarrow> 'q res"
    and appn :: "bref list \<Rightarrow> 'q \<Rightarrow> 'q res"
    and prepn :: "bref list \<Rightarrow> 'q \<Rightarrow> 'q res"
  assumes rep_distinct: "rep q xs \<Longrightarrow> distinct xs"
    and upd_refl: "upd q q"
    and upd_trans: "upd q q1 \<Longrightarrow> upd q1 q2 \<Longrightarrow> upd q q2"
    and popn_take: "rep q (ys @ zs) \<Longrightarrow> \<exists>q'. popn (length ys) q = Inr (map Blk ys, q') \<and> rep q' zs \<and> upd q q'"
    and popn_short: "rep q xs \<Longrightarrow> length xs < n \<Longrightarrow> popn n q = Inl AssertionError"
    and rem_mem: "rep q (ys @ x # zs) \<Longrightarrow> \<exists>q'. rem (Blk x) q = Inr q' \<and> rep q' (ys @ zs) \<and> upd q q'"
    and rem_absent: "rep q xs \<Longrightarrow> x \<notin> set xs \<Longrightarrow> rem (Blk x) q = Inl RuntimeError"
    and appn_list: "rep q xs \<Longrightarrow> distinct (xs @ bs) \<Longrightarrow> \<exists>q'. appn (map Blk bs) q = Inr q' \<and> rep q' (xs @ bs) \<and> upd q q'"
    and prepn_list: "rep q xs \<Longrightarrow> distinct (bs @ xs) \<Longrightarrow> \<exists>q'. prepn (map Blk bs) q = Inr q' \<and> rep q' (bs @ xs) \<and> upd q q'"
begin

lemma rep_unique:
  assumes "rep q xs" "rep q ys"
  shows "xs = ys"
proof -
  have le: "length us \<le> length vs" if "rep q us" "rep q vs" for us vs
  proof (rule ccontr)
    assume "\<not> length us \<le> length vs"
    then have "popn (length us) q = Inl AssertionError" using popn_short [OF that(2)] by simp
    then show False using popn_take [of q us "[]"] that(1) by simp
  qed
  have l: "length xs = length ys" using le [OF assms] le [OF assms(2,1)] by simp
  obtain q1 where "popn (length xs) q = Inr (map Blk xs, q1)" using popn_take [of q xs "[]"] assms(1) by auto
  moreover obtain q2 where "popn (length ys) q = Inr (map Blk ys, q2)" using popn_take [of q ys "[]"] assms(2) by auto
  ultimately have "map Blk xs = map Blk ys" using l by simp
  then show ?thesis by (metis bref.inject inj_map_eq_map injI)
qed

lemma rem_filter:
  assumes "rep q xs" "x \<in> set xs"
  shows "\<exists>q'. rem (Blk x) q = Inr q' \<and> rep q' (filter (\<lambda>y. y \<noteq> x) xs) \<and> upd q q'"
proof -
  obtain ys zs where xs: "xs = ys @ x # zs" using assms(2) by (meson split_list)
  have "distinct xs" by (rule rep_distinct [OF assms(1)])
  then have "filter (\<lambda>y. y \<noteq> x) ys = ys" "filter (\<lambda>y. y \<noteq> x) zs = zs" by (auto simp: xs intro!: filter_True)
  then have "filter (\<lambda>y. y \<noteq> x) xs = ys @ zs" by (simp add: xs)
  then show ?thesis using rem_mem assms(1) by (simp add: xs)
qed

lemma recycle:
  assumes "rep q (ys @ zs)"
  shows "\<exists>q1 q2. popn (length ys) q = Inr (map Blk ys, q1) \<and> appn (map Blk (rev ys)) q1 = Inr q2 \<and>
    rep q2 (zs @ rev ys) \<and> upd q q2"
proof -
  obtain q1 where q1: "popn (length ys) q = Inr (map Blk ys, q1)" "rep q1 zs" "upd q q1" using popn_take [OF assms] by blast
  have "distinct (zs @ rev ys)" using rep_distinct [OF assms] by auto
  from appn_list [OF q1(2) this] q1 upd_trans show ?thesis by blast
qed

end

lemma updates_refl: "updates q q"
  unfolding updates_def by (rule exI [of _ "heap q"], rule exI [of _ "num_free_blocks q"]) simp

lemma updates_trans: "updates q q1 \<Longrightarrow> updates q1 q2 \<Longrightarrow> updates q q2"
  unfolding updates_def by (elim exE conjE) (simp, blast)

interpretation fq: block_queue represents updates popleft_n remove_q append_n prepend_n
  by unfold_locales
    (fact updates_refl popleft_n_short remove_absent |
     (rule updates_trans popleft_n_take remove_mem append_n_list prepend_n_list; assumption) |
     simp add: represents_def spells_def)+

section \<open>Refinement\<close>

datatype fq_op = Popleft | PopleftN nat | Remove nat | Append nat | AppendN "nat list" | PrependN "nat list"

fun fq_step :: "fq_op \<Rightarrow> free_queue \<Rightarrow> (bref list \<times> free_queue) res" where
  "fq_step Popleft q = bind_res (popleft q) (\<lambda>(b, q'). Inr ([b], q'))"
| "fq_step (PopleftN n) q = popleft_n n q"
| "fq_step (Remove x) q = bind_res (remove_q (Blk x) q) (\<lambda>q'. Inr ([], q'))"
| "fq_step (Append x) q = bind_res (append_q (Blk x) q) (\<lambda>q'. Inr ([], q'))"
| "fq_step (AppendN bs) q = bind_res (append_n (map Blk bs) q) (\<lambda>q'. Inr ([], q'))"
| "fq_step (PrependN bs) q = bind_res (prepend_n (map Blk bs) q) (\<lambda>q'. Inr ([], q'))"

text \<open>The specification: a plain list of block ids.\<close>

fun list_step :: "fq_op \<Rightarrow> nat list \<Rightarrow> (nat list \<times> nat list) res" where
  "list_step Popleft xs = (case xs of [] \<Rightarrow> Inl ValueError | x # ys \<Rightarrow> Inr ([x], ys))"
| "list_step (PopleftN n) xs = (if n \<le> length xs then Inr (take n xs, drop n xs) else Inl AssertionError)"
| "list_step (Remove x) xs = (if x \<in> set xs then Inr ([], remove1 x xs) else Inl RuntimeError)"
| "list_step (Append x) xs = Inr ([], xs @ [x])"
| "list_step (AppendN bs) xs = Inr ([], xs @ bs)"
| "list_step (PrependN bs) xs = Inr ([], bs @ xs)"

fun op_ok :: "fq_op \<Rightarrow> nat list \<Rightarrow> bool" where
  "op_ok (Append x) xs \<longleftrightarrow> x \<notin> set xs"
| "op_ok (AppendN bs) xs \<longleftrightarrow> distinct (xs @ bs)"
| "op_ok (PrependN bs) xs \<longleftrightarrow> distinct (bs @ xs)"
| "op_ok _ xs \<longleftrightarrow> True"

fun fq_run :: "fq_op list \<Rightarrow> free_queue \<Rightarrow> (bref list list \<times> free_queue) res" where
  "fq_run [] q = Inr ([], q)"
| "fq_run (op # ops) q = bind_res (fq_step op q) (\<lambda>(out, q1).
     bind_res (fq_run ops q1) (\<lambda>(outs, q2). Inr (out # outs, q2)))"

fun list_run :: "fq_op list \<Rightarrow> nat list \<Rightarrow> (nat list list \<times> nat list) res" where
  "list_run [] xs = Inr ([], xs)"
| "list_run (op # ops) xs = bind_res (list_step op xs) (\<lambda>(out, ys).
     bind_res (list_run ops ys) (\<lambda>(outs, zs). Inr (out # outs, zs)))"

fun run_ok :: "fq_op list \<Rightarrow> nat list \<Rightarrow> bool" where
  "run_ok [] xs \<longleftrightarrow> True"
| "run_ok (op # ops) xs \<longleftrightarrow> op_ok op xs \<and> (case list_step op xs of Inl _ \<Rightarrow> True | Inr (_, ys) \<Rightarrow> run_ok ops ys)"

lemma step_simulates:
  assumes r: "represents q xs" and ok: "op_ok op xs"
  shows "(case list_step op xs of Inl e \<Rightarrow> fq_step op q = Inl e
    | Inr (out, ys) \<Rightarrow> \<exists>q'. fq_step op q = Inr (map Blk out, q') \<and> represents q' ys)"
proof (cases op)
  case Popleft
  then show ?thesis using r popleft_empty popleft_Cons by (cases xs) fastforce+
next
  case (PopleftN n)
  show ?thesis
  proof (cases "n \<le> length xs")
    case True
    then show ?thesis using fq.popn_take [of q "take n xs" "drop n xs"] r True by (auto simp: PopleftN)
  next
    case False
    then show ?thesis using fq.popn_short [OF r] by (simp add: PopleftN)
  qed
next
  case (Remove x)
  show ?thesis
  proof (cases "x \<in> set xs")
    case True
    have "remove1 x xs = filter (\<lambda>y. y \<noteq> x) xs"
      using fq.rep_distinct [OF r] by (simp add: distinct_remove1_removeAll removeAll_filter_not_eq eq_commute)
    then show ?thesis using fq.rem_filter [OF r True] True by (auto simp: Remove)
  next
    case False
    then show ?thesis using fq.rem_absent [OF r] by (simp add: Remove)
  qed
next
  case (Append x)
  then show ?thesis using append_one [OF r, of x] ok by auto
next
  case (AppendN bs)
  then show ?thesis using fq.appn_list [OF r, of bs] ok by auto
next
  case (PrependN bs)
  then show ?thesis using fq.prepn_list [OF r, of bs] ok by auto
qed

lemma run_simulates:
  "represents q xs \<Longrightarrow> run_ok ops xs \<Longrightarrow>
   (case list_run ops xs of Inl e \<Rightarrow> fq_run ops q = Inl e
    | Inr (outs, ys) \<Rightarrow> \<exists>q'. fq_run ops q = Inr (map (map Blk) outs, q') \<and> represents q' ys)"
proof (induction ops arbitrary: q xs)
  case (Cons op ops)
  note sim = step_simulates [OF Cons.prems(1)]
  show ?case
  proof (cases "list_step op xs")
    case (Inl e)
    then show ?thesis using sim [of op] Cons.prems(2) by simp
  next
    case (Inr p)
    obtain out ys where p: "p = (out, ys)" by force
    then obtain q1 where q1: "fq_step op q = Inr (map Blk out, q1)" "represents q1 ys"
      using sim [of op] Cons.prems(2) Inr by auto
    have "run_ok ops ys" using Cons.prems(2) Inr p by simp
    from Cons.IH [OF q1(2) this] show ?thesis
      using q1(1) by (cases "list_run ops ys") (auto simp: Inr p)
  qed
qed simp

definition fresh_store :: store where
  "fresh_store r = (case r of Blk i \<Rightarrow> new_block (int i) | _ \<Rightarrow> new_block (- 1))"

lemma fresh_queue: "represents (init_queue [0 ..< n] fresh_store) [0 ..< n]"
  by (rule init_queue_represents) (simp_all add: fresh_store_def new_block_def)

text \<open>
  Property C11. The linked free list refines a plain list of block ids: over any sequence of operations that
  only adds blocks which are not free already, it returns the same blocks in the same order and raises the
  same exceptions, and it ends holding the same list.
\<close>

theorem free_queue_refines_list:
  assumes "run_ok ops [0 ..< n]"
  shows "case list_run ops [0 ..< n] of Inl e \<Rightarrow> fq_run ops (init_queue [0 ..< n] fresh_store) = Inl e
    | Inr (outs, ys) \<Rightarrow> \<exists>q. fq_run ops (init_queue [0 ..< n] fresh_store) = Inr (map (map Blk) outs, q) \<and>
        get_all_free_blocks q = Some (Inr (map Blk ys)) \<and> num_free_blocks q = int (length ys)"
proof -
  note sim = run_simulates [OF fresh_queue assms]
  show ?thesis
  proof (cases "list_run ops [0 ..< n]")
    case (Inr p)
    obtain outs ys where p: "p = (outs, ys)" by force
    then obtain q where q: "fq_run ops (init_queue [0 ..< n] fresh_store) = Inr (map (map Blk) outs, q)" "represents q ys"
      using sim Inr by auto
    then show ?thesis using traversals(1) [OF q(2)] by (auto simp: Inr p represents_def)
  qed (use sim in simp)
qed

theorem free_queue_refines_list_witness:
  "\<exists>q. fq_run [PopleftN 2, Remove 3, AppendN [1, 0], Popleft] (init_queue [0 ..< 4] fresh_store) =
       Inr ([[Blk 0, Blk 1], [], [], [Blk 2]], q) \<and> get_all_free_blocks q = Some (Inr [Blk 1, Blk 0])"
proof -
  let ?ops = "[PopleftN 2, Remove 3, AppendN [1, 0], Popleft]"
  have ok: "run_ok ?ops [0 ..< 4]" and run: "list_run ?ops [0 ..< 4] = Inr ([[0, 1], [], [], [2]], [1, 0])"
    by code_simp+
  from free_queue_refines_list [OF ok] show ?thesis unfolding run by auto
qed

text \<open>
  Property C28. Walking the free list always ends, for the whole list and from a cursor: it visits exactly
  the free blocks (the free blocks behind the cursor), in eviction order, and nothing from a cursor that
  has left the list.
\<close>

theorem free_queue_traversal_ends:
  assumes "run_ok ops [0 ..< n]" "list_run ops [0 ..< n] = Inr (outs, ys @ x # zs)"
  shows "\<exists>q. fq_run ops (init_queue [0 ..< n] fresh_store) = Inr (map (map Blk) outs, q) \<and>
    get_all_free_blocks q = Some (Inr (map Blk (ys @ x # zs))) \<and>
    iter_blocks_after None q = Some (map Blk (ys @ x # zs)) \<and>
    iter_blocks_after (Some (Blk x)) q = Some (map Blk zs) \<and>
    (\<forall>y. y \<notin> set (ys @ x # zs) \<longrightarrow> iter_blocks_after (Some (Blk y)) q = Some [])"
proof -
  obtain q where q: "fq_run ops (init_queue [0 ..< n] fresh_store) = Inr (map (map Blk) outs, q)"
    "represents q (ys @ x # zs)"
    using run_simulates [OF fresh_queue assms(1)] assms(2) by auto
  show ?thesis
    using q(1) traversals(1,2) [OF q(2)] traversals(3) [OF q(2) refl] traversals(4) [OF q(2)] by blast
qed

theorem free_queue_traversal_ends_witness:
  "\<exists>q. fq_run [Remove 1] (init_queue [0 ..< 4] fresh_store) = Inr ([[]], q) \<and>
     iter_blocks_after (Some (Blk 2)) q = Some [Blk 3]"
  using free_queue_traversal_ends [of "[Remove 1]" 4 "[[]]" "[0]" 2 "[3]"] by (auto simp: upt_rec)

end
