(* ===== verification/Request.thy ===== *)
theory Request
  imports Complex_Main Prelude "HOL-Library.Char_ord" "HOL-Library.List_Lexorder" "HOL-Library.Product_Lexorder"
    "HOL-Library.Sublist"
begin

text \<open>
  Requests (\<^verbatim>\<open>vllm/v1/request.py\<close>) and the helpers of the scheduler that read and finish them
  (\<^verbatim>\<open>vllm/v1/core/sched/utils.py\<close>).

  A request is a record of the fields that the modelled code reads or writes. Token ids are integers,
  times are rationals, a tensor of prompt embeddings is the list of the bytes of its rows, and \<open>obj_id\<close> is
  Python's \<open>id\<close> of the object. The block hasher a request carries is an argument of the operations that
  call it, because it is a function of the request itself.
\<close>

section \<open>Definitions: status\<close>

datatype request_status = WAITING | WAITING_FOR_STRUCTURED_OUTPUT_GRAMMAR | WAITING_FOR_REMOTE_KVS
  | WAITING_FOR_STREAMING_REQ | RUNNING | PREEMPTED | FINISHED_STOPPED | FINISHED_LENGTH_CAPPED
  | FINISHED_ABORTED | FINISHED_IGNORED | FINISHED_ERROR | FINISHED_REPETITION

datatype finish_reason = FR_STOP | FR_LENGTH | FR_ABORT | FR_ERROR | FR_REPETITION

primrec status_value :: "request_status \<Rightarrow> nat" where
  "status_value WAITING = 1"
| "status_value WAITING_FOR_STRUCTURED_OUTPUT_GRAMMAR = 2"
| "status_value WAITING_FOR_REMOTE_KVS = 3"
| "status_value WAITING_FOR_STREAMING_REQ = 4"
| "status_value RUNNING = 5"
| "status_value PREEMPTED = 6"
| "status_value FINISHED_STOPPED = 7"
| "status_value FINISHED_LENGTH_CAPPED = 8"
| "status_value FINISHED_ABORTED = 9"
| "status_value FINISHED_IGNORED = 10"
| "status_value FINISHED_ERROR = 11"
| "status_value FINISHED_REPETITION = 12"

instantiation request_status :: linorder
begin

definition less_eq_request_status :: "request_status \<Rightarrow> request_status \<Rightarrow> bool" where
  "less_eq_request_status a b \<longleftrightarrow> status_value a \<le> status_value b"

definition less_request_status :: "request_status \<Rightarrow> request_status \<Rightarrow> bool" where
  "less_request_status a b \<longleftrightarrow> status_value a < status_value b"

instance
proof
  fix a b :: request_status
  assume "a \<le> b" "b \<le> a"
  then have "status_value a = status_value b" by (simp add: less_eq_request_status_def)
  then show "a = b" by (cases a; cases b; simp)
qed (auto simp: less_eq_request_status_def less_request_status_def)

end

definition status_is_finished :: "request_status \<Rightarrow> bool" where
  "status_is_finished s \<longleftrightarrow> s > PREEMPTED"

definition finished_reason_map :: "(request_status, finish_reason) dict" where
  "finished_reason_map =
    [(FINISHED_STOPPED, FR_STOP), (FINISHED_LENGTH_CAPPED, FR_LENGTH), (FINISHED_ABORTED, FR_ABORT),
     (FINISHED_IGNORED, FR_LENGTH), (FINISHED_ERROR, FR_ERROR), (WAITING_FOR_STREAMING_REQ, FR_STOP),
     (FINISHED_REPETITION, FR_REPETITION)]"

definition get_finished_reason :: "request_status \<Rightarrow> finish_reason option" where
  "get_finished_reason s = dict_get finished_reason_map s"

section \<open>Definitions: requests\<close>

record repetition_params =
  max_pattern_size :: int
  min_pattern_size :: int
  min_count :: int

record sampling_params =
  sp_max_tokens :: "int option"
  min_tokens :: int
  eos_token_id :: "int option"
  stop_token_ids :: "int list option"
  repetition_detection :: "repetition_params option"
  structured_outputs :: "string option list option"
  sp_skip_reading_prefix_cache :: "bool option"
  extra_report_mode :: "string option"

record pooling_params =
  pp_skip_reading_prefix_cache :: "bool option"

record lora_request =
  lora_name :: string
  lora_int_id :: int

record mm_feature =
  mm_identifier :: string
  offset :: int
  mm_length :: int
  is_embed :: "bool list option"

datatype stop_reason = Stop_Token int | Stop_Text string

record request =
  request_id :: string
  obj_id :: nat
  priority :: int
  arrival_time :: rat
  sampling :: "sampling_params option"
  pooling :: "pooling_params option"
  lora :: "lora_request option"
  use_structured_output :: bool
  status :: request_status
  stop_reason :: "stop_reason option"
  max_tokens :: int
  prompt_token_ids :: "int list option"
  prompt_embeds :: "byte list list option"
  prompt_embeds_hashes :: "(nat \<times> nat, byte list) dict"
  num_prompt_tokens :: nat
  output_token_ids :: "int list"
  all_token_ids :: "int list"
  spec_token_ids :: "int list"
  num_computed_tokens :: nat
  num_in_flight_tokens :: nat
  cache_salt :: "string option"
  mm_features :: "mm_feature list"
  num_preemptions :: int
  block_hashes :: "byte list list"
  skip_reading_prefix_cache :: bool
  shared_prefix_boundary :: nat
  kv_cache_report_mode :: string

definition get_num_embeds :: "mm_feature \<Rightarrow> int" where
  "get_num_embeds f = (case is_embed f of None \<Rightarrow> mm_length f | Some bs \<Rightarrow> int (length (filter id bs)))"

definition structured_from_sampling :: "sampling_params option \<Rightarrow> bool" where
  "structured_from_sampling sp =
     (case sp of None \<Rightarrow> False
      | Some s \<Rightarrow> (case structured_outputs s of None \<Rightarrow> False | Some cs \<Rightarrow> \<not> list_all (\<lambda>c. c = None) cs))"

definition length_from_prompt :: "int list option \<Rightarrow> byte list list option \<Rightarrow> nat res" where
  "length_from_prompt toks embeds =
     (case (toks, embeds) of
        (None, None) \<Rightarrow> Inl ValueError
      | (None, Some e) \<Rightarrow> Inr (length e)
      | (Some t, None) \<Rightarrow> Inr (length t)
      | (Some t, Some e) \<Rightarrow> if length e \<noteq> length t then Inl ValueError else Inr (length t))"

definition get_skip_reading_prefix_cache :: "sampling_params option \<Rightarrow> pooling_params option \<Rightarrow> bool" where
  "get_skip_reading_prefix_cache sp pp =
     (case sp of
        Some s \<Rightarrow>
          (case sp_skip_reading_prefix_cache s of
             Some b \<Rightarrow> b
           | None \<Rightarrow> (case pp of Some p \<Rightarrow> (case pp_skip_reading_prefix_cache p of Some b \<Rightarrow> b | None \<Rightarrow> False) | None \<Rightarrow> False))
      | None \<Rightarrow> (case pp of Some p \<Rightarrow> (case pp_skip_reading_prefix_cache p of Some b \<Rightarrow> b | None \<Rightarrow> False) | None \<Rightarrow> False))"

definition initial_max_tokens :: "sampling_params option \<Rightarrow> pooling_params option \<Rightarrow> int res" where
  "initial_max_tokens sp pp =
     (case pp of
        Some _ \<Rightarrow> Inr 1
      | None \<Rightarrow> (case sp of
                  None \<Rightarrow> Inl ValueError
                | Some s \<Rightarrow> (case sp_max_tokens s of None \<Rightarrow> Inl AssertionError | Some n \<Rightarrow> Inr n)))"

text \<open>
  The report mode is read from the extra arguments of the sampling parameters; without them, and for pooling
  requests, readers fall back to \<open>incremental\<close>.
\<close>

definition initial_report_mode :: "sampling_params option \<Rightarrow> pooling_params option \<Rightarrow> string" where
  "initial_report_mode sp pp =
     (case pp of
        Some _ \<Rightarrow> ''incremental''
      | None \<Rightarrow> (case sp of
                  None \<Rightarrow> ''incremental''
                | Some s \<Rightarrow> (case extra_report_mode s of None \<Rightarrow> ''incremental'' | Some m \<Rightarrow> m)))"

type_synonym hasher = "request \<Rightarrow> (byte list list \<times> request) res"

definition update_block_hashes :: "hasher option \<Rightarrow> request \<Rightarrow> request res" where
  "update_block_hashes block_hasher r =
     (case block_hasher of
        None \<Rightarrow> Inr r
      | Some h \<Rightarrow> bind_res (h r) (\<lambda>(new, r'). Inr (r'\<lparr>block_hashes := block_hashes r' @ new\<rparr>)))"

definition new_request ::
  "rat \<Rightarrow> nat \<Rightarrow> string \<Rightarrow> int list option \<Rightarrow> sampling_params option \<Rightarrow> pooling_params option \<Rightarrow> rat option \<Rightarrow>
   byte list list option \<Rightarrow> mm_feature list option \<Rightarrow> lora_request option \<Rightarrow> string option \<Rightarrow> int \<Rightarrow>
   hasher option \<Rightarrow> request res" where
  "new_request now obj rid toks sp pp arrival embeds mm lr salt prio block_hasher =
     bind_res (initial_max_tokens sp pp) (\<lambda>mt.
     bind_res (length_from_prompt toks embeds) (\<lambda>n.
       let structured = structured_from_sampling sp;
           r = \<lparr>request_id = rid, obj_id = obj, priority = prio,
                arrival_time = (case arrival of None \<Rightarrow> now | Some a \<Rightarrow> a),
                sampling = sp, pooling = pp, lora = lr, use_structured_output = structured,
                status = (if pp = None \<and> structured then WAITING_FOR_STRUCTURED_OUTPUT_GRAMMAR else WAITING),
                stop_reason = None, max_tokens = mt, prompt_token_ids = toks, prompt_embeds = embeds,
                prompt_embeds_hashes = [], num_prompt_tokens = n, output_token_ids = [],
                all_token_ids = (case toks of Some t \<Rightarrow> t | None \<Rightarrow> replicate n 0),
                spec_token_ids = [], num_computed_tokens = 0, num_in_flight_tokens = 0, cache_salt = salt,
                mm_features = (case mm of None \<Rightarrow> [] | Some m \<Rightarrow> m), num_preemptions = 0,
                block_hashes = [], skip_reading_prefix_cache = get_skip_reading_prefix_cache sp pp,
                shared_prefix_boundary = 0, kv_cache_report_mode = initial_report_mode sp pp\<rparr>
       in update_block_hashes block_hasher r))"

definition append_output_token_ids :: "hasher option \<Rightarrow> int list \<Rightarrow> request \<Rightarrow> request res" where
  "append_output_token_ids block_hasher toks r =
     update_block_hashes block_hasher
       (r\<lparr>output_token_ids := output_token_ids r @ toks, all_token_ids := all_token_ids r @ toks\<rparr>)"

definition num_tokens :: "request \<Rightarrow> nat" where
  "num_tokens r = length (all_token_ids r)"

definition num_tokens_with_spec :: "request \<Rightarrow> nat" where
  "num_tokens_with_spec r = length (all_token_ids r) + length (spec_token_ids r)"

definition num_output_tokens :: "request \<Rightarrow> nat" where
  "num_output_tokens r = length (output_token_ids r)"

definition has_encoder_inputs :: "request \<Rightarrow> bool" where
  "has_encoder_inputs r \<longleftrightarrow> length (mm_features r) > 0"

definition is_finished :: "request \<Rightarrow> bool" where
  "is_finished r = status_is_finished (status r)"

definition get_num_encoder_embeds :: "nat \<Rightarrow> request \<Rightarrow> int res" where
  "get_num_encoder_embeds input_id r =
     (if input_id < length (mm_features r) then Inr (get_num_embeds (mm_features r ! input_id)) else Inl AssertionError)"

definition request_lt :: "request \<Rightarrow> request \<Rightarrow> bool" where
  "request_lt a b =
     (if priority a \<noteq> priority b then priority a < priority b
      else if arrival_time a \<noteq> arrival_time b then arrival_time a < arrival_time b
      else if request_id a \<noteq> request_id b then request_id a < request_id b
      else obj_id a < obj_id b)"

section \<open>Definitions: repetition and stopping\<close>

fun all_res :: "('a \<Rightarrow> bool res) \<Rightarrow> 'a list \<Rightarrow> bool res" where
  "all_res p [] = Inr True"
| "all_res p (x # xs) = bind_res (p x) (\<lambda>b. if b then all_res p xs else Inr False)"

definition from_end :: "'a list \<Rightarrow> nat \<Rightarrow> 'a res" where
  "from_end xs k = (if k \<le> length xs then Inr (xs ! (length xs - k)) else Inl IndexError)"

definition has_repeating_pattern :: "int list \<Rightarrow> nat \<Rightarrow> nat \<Rightarrow> bool res" where
  "has_repeating_pattern toks pattern_len cnt =
     all_res (\<lambda>n. bind_res (from_end toks n) (\<lambda>target.
         all_res (\<lambda>m. bind_res (from_end toks (pattern_len * m + n)) (\<lambda>t. Inr (t = target))) [1 ..< cnt]))
       [1 ..< pattern_len + 1]"

fun search_patterns :: "int list \<Rightarrow> nat \<Rightarrow> nat list \<Rightarrow> bool res" where
  "search_patterns toks cnt [] = Inr False"
| "search_patterns toks cnt (p # ps) =
     (if p * cnt > length toks then Inr False
      else bind_res (has_repeating_pattern toks p cnt) (\<lambda>b. if b then Inr True else search_patterns toks cnt ps))"

definition check_sequence_repetition :: "int list \<Rightarrow> repetition_params \<Rightarrow> bool res" where
  "check_sequence_repetition toks ps =
     (let mn = (if min_pattern_size ps \<le> 0 then 1 else min_pattern_size ps)
      in if max_pattern_size ps \<le> 0 \<or> min_count ps < 2 \<or> mn > max_pattern_size ps then Inr False
         else search_patterns toks (nat (min_count ps)) [nat mn ..< nat (max_pattern_size ps) + 1])"

text \<open>The set of items is given as the list of its distinct elements.\<close>

definition remove_all :: "'a list \<Rightarrow> 'a list \<Rightarrow> 'a list" where
  "remove_all lst items =
     (case items of
        [] \<Rightarrow> lst
      | [x] \<Rightarrow> remove1 x lst
      | _ \<Rightarrow> filter (\<lambda>y. y \<notin> set items) lst)"

definition check_stop :: "int \<Rightarrow> request \<Rightarrow> (bool \<times> request) res" where
  "check_stop max_model_len r =
     (if pooling r \<noteq> None then Inl AssertionError
      else case sampling r of
        None \<Rightarrow> Inl AssertionError
      | Some sp \<Rightarrow>
          if int (num_output_tokens r) < min_tokens sp then Inr (False, r)
          else if output_token_ids r = [] then Inl IndexError
          else let last_token_id = last (output_token_ids r)
            in if Some last_token_id = eos_token_id sp then Inr (True, r\<lparr>status := FINISHED_STOPPED\<rparr>)
               else if last_token_id \<in> set (case stop_token_ids sp of None \<Rightarrow> [] | Some ts \<Rightarrow> ts) then
                 Inr (True, r\<lparr>status := FINISHED_STOPPED, stop_reason := Some (Stop_Token last_token_id)\<rparr>)
               else if int (num_tokens r) \<ge> max_model_len \<or> int (num_output_tokens r) \<ge> max_tokens r then
                 Inr (True, r\<lparr>status := FINISHED_LENGTH_CAPPED\<rparr>)
               else case repetition_detection sp of
                      None \<Rightarrow> Inr (False, r)
                    | Some rp \<Rightarrow>
                        bind_res (check_sequence_repetition (output_token_ids r) rp) (\<lambda>b.
                          if b then Inr (True, r\<lparr>status := FINISHED_REPETITION,
                                                 stop_reason := Some (Stop_Text ''repetition_detected'')\<rparr>)
                          else Inr (False, r)))"

section \<open>Repetition detection\<close>

lemma all_res_Inr:
  "(\<And>x. x \<in> set xs \<Longrightarrow> p x = Inr (P x)) \<Longrightarrow> all_res p xs = Inr (\<forall>x \<in> set xs. P x)"
  by (induction xs) auto

lemma has_repeating_pattern_eq:
  assumes "p * c \<le> length toks" "0 < c"
  shows "has_repeating_pattern toks p c = Inr (\<forall>n \<in> {1..p}. \<forall>m \<in> {1..<c}.
    toks ! (length toks - (p * m + n)) = toks ! (length toks - n))"
proof -
  have le: "p * m + n \<le> length toks" if "m < c" "n \<le> p" for m n
  proof -
    have "p * m + n \<le> p * m + p" using that by simp
    also have "\<dots> = p * Suc m" by simp
    also have "\<dots> \<le> p * c" using that by (intro mult_le_mono2) simp
    finally show ?thesis using assms(1) by simp
  qed
  have "all_res (\<lambda>m. bind_res (from_end toks (p * m + n)) (\<lambda>t. Inr (t = target))) [1 ..< c] =
      Inr (\<forall>m \<in> set [1 ..< c]. toks ! (length toks - (p * m + n)) = target)" if "n \<le> p" for n target
    by (rule all_res_Inr) (use le that in \<open>simp add: from_end_def\<close>)
  then have "has_repeating_pattern toks p c = Inr (\<forall>n \<in> set [1 ..< p + 1].
      \<forall>m \<in> set [1 ..< c]. toks ! (length toks - (p * m + n)) = toks ! (length toks - n))"
    unfolding has_repeating_pattern_def
    by (intro all_res_Inr) (use le [of 0] assms(2) in \<open>auto simp: from_end_def\<close>)
  moreover have "set [1 ..< p + 1] = {1..p}" "set [1 ..< c] = {1..<c}" by auto
  ultimately show ?thesis by (simp only:)
qed

text \<open>\<open>repeats toks p c\<close>: the text ends in \<open>c\<close> copies of one word of length \<open>p\<close>.\<close>

definition repeats :: "int list \<Rightarrow> nat \<Rightarrow> nat \<Rightarrow> bool" where
  "repeats toks p c \<longleftrightarrow> (\<exists>w. length w = p \<and> suffix (concat (replicate c w)) toks)"

lemma nth_concat_replicate:
  "i < c * length w \<Longrightarrow> concat (replicate c w) ! i = w ! (i mod length w)"
proof (induction c arbitrary: i)
  case (Suc c)
  show ?case
  proof (cases "i < length w")
    case False
    then have "concat (replicate c w) ! (i - length w) = w ! ((i - length w) mod length w)"
      using Suc.prems by (intro Suc.IH) simp
    then show ?thesis using False by (simp add: nth_append le_mod_geq)
  qed (simp add: nth_append)
qed simp

lemma length_concat_replicate: "length (concat (replicate c w)) = c * length w"
  by (induction c) simp_all

lemma nth_from_end:
  fixes m n c p :: nat
  assumes "m < c" "1 \<le> n" "n \<le> p"
  shows "p * m + n \<le> c * p" "c * p - (p * m + n) = (c - 1 - m) * p + (p - n)"
proof -
  obtain k where k: "c = Suc (m + k)" using assms(1) less_iff_Suc_add by auto
  have "c * p = m * p + p + k * p" by (simp add: k algebra_simps)
  then show "p * m + n \<le> c * p" "c * p - (p * m + n) = (c - 1 - m) * p + (p - n)"
    using assms(3) by (simp_all add: k mult.commute)
qed

lemma from_end_nth:
  fixes i c p :: nat
  assumes "i < c * p"
  shows "c * p - i = p * (c - 1 - i div p) + (p - i mod p)" "i div p < c" "i mod p < p"
proof -
  show p: "i mod p < p" using assms by (cases "p = 0") simp_all
  show d: "i div p < c" using assms by (simp add: less_mult_imp_div_less)
  obtain k where k: "c = Suc (i div p + k)" using d less_iff_Suc_add by auto
  have "c * p = i div p * p + p + k * p" by (simp add: k algebra_simps)
  moreover have "i div p * p + i mod p = i" by simp
  ultimately have "c * p - i = p + k * p - i mod p" by linarith
  then show "c * p - i = p * (c - 1 - i div p) + (p - i mod p)" using p by (simp add: k mult.commute)
qed

lemma repeats_get:
  assumes w: "length w = p" and us: "toks = us @ concat (replicate c w)" and mn: "m < c" "1 \<le> n" "n \<le> p"
  shows "toks ! (length toks - (p * m + n)) = w ! (p - n)"
proof -
  define i where "i = (c - 1 - m) * p + (p - n)"
  have p: "0 < p" using mn by simp
  have le: "p * m + n \<le> c * p" and i: "c * p - (p * m + n) = i" using nth_from_end [OF mn] by (simp_all add: i_def)
  have "length toks = length us + c * p" by (simp add: us w length_concat_replicate)
  then have "length toks - (p * m + n) = length us + i" using le i by simp
  moreover have "i < c * length w" using mn(2) le i p by (simp add: w)
  moreover have "i mod p = p - n" unfolding i_def using mn p by (simp only: mod_mult_self3) simp
  ultimately show ?thesis using nth_concat_replicate [of i c w] by (simp add: us w nth_append)
qed

lemma repeats_build:
  assumes pc: "c * p \<le> length toks" and c: "0 < c"
    and eq: "\<And>n m. n \<in> {1..p} \<Longrightarrow> m \<in> {1..<c} \<Longrightarrow>
      toks ! (length toks - (p * m + n)) = toks ! (length toks - n)"
  shows "drop (length toks - c * p) toks = concat (replicate c (drop (length toks - p) toks))"
proof (rule nth_equalityI)
  let ?N = "length toks" and ?w = "drop (length toks - p) toks"
  have pN: "p \<le> ?N" using pc c mult_le_mono1 [of 1 c p] by linarith
  then have w: "length ?w = p" by simp
  show "length (drop (?N - c * p) toks) = length (concat (replicate c ?w))"
    using pc pN by (simp add: length_concat_replicate)
  fix i assume "i < length (drop (?N - c * p) toks)"
  then have i: "i < c * p" using pc by simp
  note f = from_end_nth [OF i]
  define m n where "m = c - 1 - i div p" and "n = p - i mod p"
  have n: "n \<in> {1..p}" using f(3) by (auto simp: n_def)
  have "?N - c * p + i = ?N - (p * m + n)" using f(1) i pc by (simp add: m_def n_def)
  moreover have "toks ! (?N - (p * m + n)) = toks ! (?N - n)" using eq [OF n, of m] c by (cases "m = 0") (simp_all add: m_def)
  moreover have "?w ! (i mod p) = toks ! (?N - n)" using f(3) pN by (simp add: n_def)
  moreover have "concat (replicate c ?w) ! i = ?w ! (i mod p)" using nth_concat_replicate [of i c ?w] i w by simp
  ultimately show "drop (?N - c * p) toks ! i = concat (replicate c ?w) ! i" using pc by simp
qed

lemma repeats_iff:
  assumes "p * c \<le> length toks" "0 < c"
  shows "repeats toks p c \<longleftrightarrow>
    (\<forall>n \<in> {1..p}. \<forall>m \<in> {1..<c}. toks ! (length toks - (p * m + n)) = toks ! (length toks - n))"
proof
  assume "repeats toks p c"
  then obtain w us where w: "length w = p" "toks = us @ concat (replicate c w)"
    by (auto simp: repeats_def suffix_def)
  show "\<forall>n \<in> {1..p}. \<forall>m \<in> {1..<c}. toks ! (length toks - (p * m + n)) = toks ! (length toks - n)"
    using repeats_get [OF w] repeats_get [OF w, of 0] assms(2) by simp
next
  assume "\<forall>n \<in> {1..p}. \<forall>m \<in> {1..<c}. toks ! (length toks - (p * m + n)) = toks ! (length toks - n)"
  then have "drop (length toks - c * p) toks = concat (replicate c (drop (length toks - p) toks))"
    using assms by (intro repeats_build) (simp_all add: mult.commute)
  then have "suffix (concat (replicate c (drop (length toks - p) toks))) toks" by (metis suffix_drop)
  moreover have "p \<le> length toks" using assms mult_le_mono2 [of 1 c p] by linarith
  ultimately show "repeats toks p c" unfolding repeats_def by (intro exI conjI) auto
qed

lemma repeats_length: "repeats toks p c \<Longrightarrow> p * c \<le> length toks"
  by (auto simp: repeats_def suffix_def length_concat_replicate mult.commute)

lemma search_patterns_eq:
  assumes c: "0 < c" and s: "sorted ps"
  shows "search_patterns toks c ps = Inr (\<exists>p \<in> set ps. repeats toks p c)"
  using s
proof (induction ps)
  case (Cons p ps)
  show ?case
  proof (cases "p * c \<le> length toks")
    case True
    then have "has_repeating_pattern toks p c = Inr (repeats toks p c)"
      by (simp add: has_repeating_pattern_eq [OF True c] repeats_iff [OF True c])
    with True Cons show ?thesis by simp
  next
    case False
    have "\<not> repeats toks q c" if "q \<in> set (p # ps)" for q
    proof -
      have "p * c \<le> q * c" using Cons.prems that by auto
      then show ?thesis using False repeats_length [of toks q c] by linarith
    qed
    with False show ?thesis by auto
  qed
qed simp

definition repetition_found :: "int list \<Rightarrow> repetition_params \<Rightarrow> bool" where
  "repetition_found toks ps \<longleftrightarrow> 2 \<le> min_count ps \<and>
     (\<exists>p. max 1 (min_pattern_size ps) \<le> int p \<and> int p \<le> max_pattern_size ps \<and> repeats toks p (nat (min_count ps)))"

lemma check_sequence_repetition_eq: "check_sequence_repetition toks ps = Inr (repetition_found toks ps)"
proof -
  define mn where "mn = max 1 (min_pattern_size ps)"
  have mn: "(if min_pattern_size ps \<le> 0 then 1 else min_pattern_size ps) = mn" "1 \<le> mn" by (auto simp: mn_def)
  show ?thesis
  proof (cases "max_pattern_size ps \<le> 0 \<or> min_count ps < 2 \<or> mn > max_pattern_size ps")
    case True
    then show ?thesis using mn(2)
      by (auto simp: check_sequence_repetition_def mn(1) Let_def repetition_found_def mn_def [symmetric])
  next
    case False
    define L where "L = [nat mn ..< nat (max_pattern_size ps) + 1]"
    have L1: "sorted L" unfolding L_def by (rule sorted_upt)
    have L2: "p \<in> set L \<longleftrightarrow> mn \<le> int p \<and> int p \<le> max_pattern_size ps" for p
      using False mn(2) unfolding L_def set_upt atLeastLessThan_iff by linarith
    have "check_sequence_repetition toks ps = search_patterns toks (nat (min_count ps)) L"
      using False unfolding check_sequence_repetition_def mn(1) Let_def L_def by (simp only: if_False)
    also have "\<dots> = Inr (repetition_found toks ps)"
      using False search_patterns_eq [OF _ L1, of "nat (min_count ps)" toks] L2
      unfolding repetition_found_def mn_def [symmetric] by auto
    finally show ?thesis .
  qed
qed

text \<open>
  Property C36. Repetition detection never fails on an index, and reports a repetition exactly when the
  output ends in \<open>min_count\<close> copies of one word whose length is within the configured bounds.
\<close>

theorem check_sequence_repetition_correct:
  "check_sequence_repetition toks ps =
     Inr (2 \<le> min_count ps \<and> (\<exists>w us. max 1 (min_pattern_size ps) \<le> int (length w) \<and>
        int (length w) \<le> max_pattern_size ps \<and> toks = us @ concat (replicate (nat (min_count ps)) w)))"
  by (auto simp: check_sequence_repetition_eq repetition_found_def repeats_def suffix_def)

section \<open>Stopping\<close>

lemma finished_has_reason: "status_is_finished s \<Longrightarrow> get_finished_reason s \<noteq> None"
  by (cases s) (simp_all add: status_is_finished_def less_request_status_def get_finished_reason_def finished_reason_map_def)

definition stop_outcome :: "int \<Rightarrow> sampling_params \<Rightarrow> request \<Rightarrow> finish_reason option" where
  "stop_outcome max_model_len sp r =
     (let t = last (output_token_ids r)
      in if int (num_output_tokens r) < min_tokens sp then None
         else if Some t = eos_token_id sp \<or> t \<in> set (case stop_token_ids sp of None \<Rightarrow> [] | Some ts \<Rightarrow> ts) then Some FR_STOP
         else if max_model_len \<le> int (num_tokens r) \<or> max_tokens r \<le> int (num_output_tokens r) then Some FR_LENGTH
         else if (\<exists>rp. repetition_detection sp = Some rp \<and> repetition_found (output_token_ids r) rp) then Some FR_REPETITION
         else None)"

text \<open>
  Property C35. The stop check of a generating request with at least one output token always returns. It
  finishes the request exactly when, past \<open>min_tokens\<close>, the last token is an end or stop token, a length
  limit is reached, or the output repeats, in this order; the status then carries the matching finish
  reason, and neither the tokens of the request nor an unfinished request change.
\<close>

theorem check_stop_correct:
  assumes "pooling r = None" "sampling r = Some sp" "output_token_ids r \<noteq> []"
  shows "\<exists>r'. check_stop max_model_len r = Inr (stop_outcome max_model_len sp r \<noteq> None, r') \<and>
    all_token_ids r' = all_token_ids r \<and> output_token_ids r' = output_token_ids r \<and>
    (case stop_outcome max_model_len sp r of
       None \<Rightarrow> r' = r
     | Some reason \<Rightarrow> is_finished r' \<and> get_finished_reason (status r') = Some reason)"
  using assms
  by (auto simp: check_stop_def stop_outcome_def Let_def is_finished_def status_is_finished_def
      less_request_status_def get_finished_reason_def finished_reason_map_def check_sequence_repetition_eq
      split: option.splits)

section \<open>Order of requests\<close>

definition req_key :: "request \<Rightarrow> int \<times> rat \<times> string \<times> nat" where
  "req_key r = (priority r, arrival_time r, request_id r, obj_id r)"

lemma request_lt_key: "request_lt a b \<longleftrightarrow> req_key a < req_key b"
  by (auto simp: request_lt_def req_key_def less_prod_def)

lemma remove_all_eq: "distinct lst \<Longrightarrow> remove_all lst items = filter (\<lambda>y. y \<notin> set items) lst"
  by (auto simp: remove_all_def distinct_remove1_removeAll removeAll_filter_not_eq split: list.splits intro!: filter_cong)

section \<open>Witnesses\<close>

definition demo_sampling :: sampling_params where
  "demo_sampling = \<lparr>sp_max_tokens = Some 16, min_tokens = 0, eos_token_id = Some 2, stop_token_ids = None,
     repetition_detection = Some \<lparr>max_pattern_size = 4, min_pattern_size = 0, min_count = 3\<rparr>,
     structured_outputs = None, sp_skip_reading_prefix_cache = None, extra_report_mode = None\<rparr>"

definition demo_request :: "int list \<Rightarrow> request" where
  "demo_request out = \<lparr>request_id = ''r'', obj_id = 0, priority = 0, arrival_time = 0, sampling = Some demo_sampling,
     pooling = None, lora = None, use_structured_output = False, status = RUNNING, stop_reason = None,
     max_tokens = 16, prompt_token_ids = Some [1], prompt_embeds = None, prompt_embeds_hashes = [],
     num_prompt_tokens = 1, output_token_ids = out, all_token_ids = 1 # out, spec_token_ids = [],
     num_computed_tokens = 0, num_in_flight_tokens = 0, cache_salt = None, mm_features = [], num_preemptions = 0, block_hashes = [],
     skip_reading_prefix_cache = False, shared_prefix_boundary = 0, kv_cache_report_mode = ''incremental''\<rparr>"

theorem check_stop_correct_witness:
  "\<exists>r'. check_stop 100 (demo_request [5, 2]) = Inr (True, r') \<and> get_finished_reason (status r') = Some FR_STOP"
proof -
  have "stop_outcome 100 demo_sampling (demo_request [5, 2]) = Some FR_STOP"
    by (simp add: stop_outcome_def demo_request_def demo_sampling_def num_output_tokens_def)
  then show ?thesis
    using check_stop_correct [of "demo_request [5, 2]" demo_sampling 100] by (auto simp: demo_request_def)
qed

end
