(* ===== verification/Block_Hashing.thy ===== *)
theory Block_Hashing
  imports Request "HOL-Library.Countable"
begin

text \<open>
  Prefix-cache hashing (\<^verbatim>\<open>vllm/v1/core/kv_cache_utils.py\<close>): keys of a block hash with its group id, the extra
  keys of a block (LoRA name, multi-modal inputs, cache salt, prompt embeddings), the chained hash of a
  block of tokens, the incremental hasher that a request carries, and the view of the hashes at a coarser
  block size.

  The hash function over a parent hash, token ids and extra keys, the SHA-256 digest of embedding bytes
  and the random bytes of the seed hash are library functions and therefore arguments (\<open>hash_fn\<close>, \<open>sha256\<close>,
  \<open>urandom\<close>).
\<close>

section \<open>Definitions: hash keys\<close>

definition to_bytes4 :: "int \<Rightarrow> byte list res" where
  "to_bytes4 g =
     (if 0 \<le> g \<and> g < 2 ^ 32
      then Inr [word_of_int (g div 2 ^ 24), word_of_int (g div 2 ^ 16), word_of_int (g div 2 ^ 8), word_of_int g]
      else Inl OverflowError)"

definition from_bytes :: "byte list \<Rightarrow> int" where
  "from_bytes bs = fold (\<lambda>b acc. acc * 256 + uint b) bs 0"

definition make_block_hash_with_group_id :: "byte list \<Rightarrow> int \<Rightarrow> byte list res" where
  "make_block_hash_with_group_id h g = bind_res (to_bytes4 g) (\<lambda>bs. Inr (h @ bs))"

definition get_block_hash :: "byte list \<Rightarrow> byte list" where
  "get_block_hash key = take (length key - 4) key"

definition get_group_id :: "byte list \<Rightarrow> int" where
  "get_group_id key = from_bytes (drop (length key - 4) key)"

datatype external_hash = EBytes "byte list" | EInt int

definition maybe_convert_block_hash :: "bool \<Rightarrow> byte list \<Rightarrow> external_hash" where
  "maybe_convert_block_hash use_int_hashes h =
     (if use_int_hashes then EInt (from_bytes h mod 2 ^ 64) else EBytes h)"

section \<open>Definitions: extra keys\<close>

datatype ekey = KStr string | KPair string int | KBytes "byte list"

instance ekey :: countable
  by countable_datatype

datatype hash_input = Seed string | Block "byte list" "int list" "ekey list option"

instance hash_input :: countable
  by countable_datatype

definition init_none_hash :: "(hash_input \<Rightarrow> byte list) \<Rightarrow> byte list \<Rightarrow> string option \<Rightarrow> byte list" where
  "init_none_hash hash_fn urandom hash_seed =
     (case hash_seed of None \<Rightarrow> urandom | Some s \<Rightarrow> hash_fn (Seed s))"

fun mm_scan :: "int \<Rightarrow> int \<Rightarrow> mm_feature list \<Rightarrow> int \<Rightarrow> ekey list \<Rightarrow> ekey list \<times> int" where
  "mm_scan s e [] cur keys = (keys, cur)"
| "mm_scan s e (f # fs) cur keys =
     (if e > offset f then
        if s \<ge> offset f + mm_length f then mm_scan s e fs (cur + 1) keys
        else let keys' = keys @ [KPair (mm_identifier f) (offset f - s)]
             in if e \<ge> offset f + mm_length f then mm_scan s e fs (cur + 1) keys' else (keys', cur)
      else (keys, cur))"

definition gen_mm_extra_hash_keys :: "request \<Rightarrow> nat \<Rightarrow> nat \<Rightarrow> int \<Rightarrow> (ekey list \<times> int) res" where
  "gen_mm_extra_hash_keys r s e start_mm_idx =
     (let fs = mm_features r
      in if fs = [] then Inr ([], start_mm_idx)
         else if offset (last fs) + mm_length (last fs) \<le> int s then Inr ([], start_mm_idx)
         else if start_mm_idx < 0 then
           bind_res (py_assert (- start_mm_idx \<le> int (length fs))) (\<lambda>_.
             let i = int (length fs) + start_mm_idx
             in Inr (mm_scan (int s) (int e) (drop (nat i) fs) i []))
         else Inr (mm_scan (int s) (int e) (drop (nat start_mm_idx) fs) start_mm_idx []))"

definition gen_lora_extra_hash_keys :: "request \<Rightarrow> ekey list" where
  "gen_lora_extra_hash_keys r = (case lora r of None \<Rightarrow> [] | Some l \<Rightarrow> [KStr (lora_name l)])"

text \<open>The digest of a block of embeddings is computed once and cached on the request.\<close>

definition gen_prompt_embeds_extra_hash_keys ::
  "(byte list \<Rightarrow> byte list) \<Rightarrow> request \<Rightarrow> nat \<Rightarrow> nat \<Rightarrow> ekey list \<times> request" where
  "gen_prompt_embeds_extra_hash_keys sha256 r s e =
     (case prompt_embeds r of
        None \<Rightarrow> ([], r)
      | Some rows \<Rightarrow>
          (case dict_get (prompt_embeds_hashes r) (s, e) of
             Some h \<Rightarrow> ([KBytes h], r)
           | None \<Rightarrow>
               let h = sha256 (concat (take (e - s) (drop s rows)))
               in ([KBytes h], r\<lparr>prompt_embeds_hashes := dict_set (s, e) h (prompt_embeds_hashes r)\<rparr>)))"

definition cache_salt_keys :: "request \<Rightarrow> nat \<Rightarrow> ekey list" where
  "cache_salt_keys r s =
     (case cache_salt r of None \<Rightarrow> [] | Some salt \<Rightarrow> if s = 0 \<and> salt \<noteq> [] then [KStr salt] else [])"

definition generate_block_hash_extra_keys ::
  "(byte list \<Rightarrow> byte list) \<Rightarrow> request \<Rightarrow> nat \<Rightarrow> nat \<Rightarrow> int \<Rightarrow> (ekey list option \<times> int \<times> request) res" where
  "generate_block_hash_extra_keys sha256 r s e start_mm_idx =
     bind_res (gen_mm_extra_hash_keys r s e start_mm_idx) (\<lambda>(mm_keys, new_idx).
       case gen_prompt_embeds_extra_hash_keys sha256 r s e of (embeds_keys, r') \<Rightarrow>
         let keys = gen_lora_extra_hash_keys r @ mm_keys @ cache_salt_keys r s @ embeds_keys
         in Inr (if keys = [] then None else Some keys, new_idx, r'))"

section \<open>Definitions: block hashes\<close>

definition hash_block_tokens ::
  "(hash_input \<Rightarrow> byte list) \<Rightarrow> byte list \<Rightarrow> byte list option \<Rightarrow> int list \<Rightarrow> ekey list option \<Rightarrow> byte list" where
  "hash_block_tokens hash_fn none_hash parent toks keys =
     (let p = (case parent of None \<Rightarrow> none_hash | Some h \<Rightarrow> if h = [] then none_hash else h)
      in hash_fn (Block p toks keys))"

text \<open>The hashing loop; it does not end for a block size of zero.\<close>

partial_function (option) hash_loop ::
  "(byte list \<Rightarrow> byte list) \<Rightarrow> (hash_input \<Rightarrow> byte list) \<Rightarrow> byte list \<Rightarrow> nat \<Rightarrow> nat \<Rightarrow> int \<Rightarrow> byte list option \<Rightarrow>
   byte list list \<Rightarrow> request \<Rightarrow> (byte list list \<times> request) res option" where
  "hash_loop sha256 hash_fn none_hash hbs s idx prev acc r =
     (if s + hbs > num_tokens r then Some (Inr (acc, r))
      else case generate_block_hash_extra_keys sha256 r s (s + hbs) idx of
             Inl e \<Rightarrow> Some (Inl e)
           | Inr (keys, idx', r') \<Rightarrow>
               let h = hash_block_tokens hash_fn none_hash prev (take hbs (drop s (all_token_ids r))) keys
               in hash_loop sha256 hash_fn none_hash hbs (s + hbs) idx' (Some h) (acc @ [h]) r')"

definition request_block_hasher ::
  "(byte list \<Rightarrow> byte list) \<Rightarrow> (hash_input \<Rightarrow> byte list) \<Rightarrow> byte list \<Rightarrow> nat \<Rightarrow> request \<Rightarrow>
   (byte list list \<times> request) res option" where
  "request_block_hasher sha256 hash_fn none_hash hbs r =
     (let s = length (block_hashes r) * hbs
      in if s + hbs > num_tokens r then Some (Inr ([], r))
         else hash_loop sha256 hash_fn none_hash hbs s (if s > 0 then - 1 else 0)
                (if block_hashes r = [] then None else Some (last (block_hashes r))) [] r)"

section \<open>Definitions: hashes at a coarser block size\<close>

record hash_view =
  hv_hashes :: "byte list list"
  scale_factor :: nat

definition BlockHashListWithBlockSize :: "byte list list \<Rightarrow> nat \<Rightarrow> nat \<Rightarrow> hash_view res" where
  "BlockHashListWithBlockSize hs hash_block_size target_block_size =
     (if hash_block_size = 0 then Inl ZeroDivisionError
      else bind_res (py_assert (target_block_size mod hash_block_size = 0)) (\<lambda>_.
        Inr \<lparr>hv_hashes = hs, scale_factor = target_block_size div hash_block_size\<rparr>))"

definition view_len :: "hash_view \<Rightarrow> nat res" where
  "view_len v =
     (if scale_factor v = 0 then Inl ZeroDivisionError else Inr (length (hv_hashes v) div scale_factor v))"

definition get_value_at :: "hash_view \<Rightarrow> nat \<Rightarrow> byte list res" where
  "get_value_at v idx =
     (let i = (idx + 1) * scale_factor v; hs = hv_hashes v
      in if hs = [] \<or> length hs < i then Inl IndexError
         else if i = 0 then Inr (last hs) else Inr (hs ! (i - 1)))"

definition view_from :: "hash_view \<Rightarrow> nat \<Rightarrow> byte list list res" where
  "view_from v start = bind_res (view_len v) (\<lambda>n. map_res (get_value_at v) [start ..< n])"

datatype hash_list = Raw "byte list list" | View hash_view

definition fine_aligned :: "nat \<Rightarrow> nat option \<Rightarrow> bool res" where
  "fine_aligned block_size alignment_tokens =
     (case alignment_tokens of
        None \<Rightarrow> Inr False
      | Some a \<Rightarrow> if a < block_size then if a = 0 then Inl ZeroDivisionError else Inr (block_size mod a = 0) else Inr False)"

definition resolve_block_hashes :: "hash_list \<Rightarrow> nat \<Rightarrow> nat \<Rightarrow> bool \<Rightarrow> nat option \<Rightarrow> hash_list res" where
  "resolve_block_hashes hs hash_block_size block_size fine alignment_tokens =
     (if block_size = hash_block_size then Inr hs
      else case hs of
        View v \<Rightarrow>
          if hash_block_size = 0 then Inl ZeroDivisionError
          else bind_res (py_assert (scale_factor v = block_size div hash_block_size)) (\<lambda>_. Inr hs)
      | Raw l \<Rightarrow>
          bind_res (if fine then fine_aligned block_size alignment_tokens else Inr False) (\<lambda>raw.
            if raw then Inr hs
            else if hash_block_size = 0 then Inl ZeroDivisionError
            else bind_res (py_assert (block_size mod hash_block_size = 0)) (\<lambda>_.
                 bind_res (BlockHashListWithBlockSize l hash_block_size block_size) (\<lambda>v. Inr (View v)))))"

section \<open>Keys with a group id\<close>

lemma length_to_bytes4: "to_bytes4 g = Inr bs \<Longrightarrow> length bs = 4"
  by (auto simp: to_bytes4_def split: if_splits)

lemma from_to_bytes4: "to_bytes4 g = Inr bs \<Longrightarrow> from_bytes bs = g"
proof -
  assume "to_bytes4 g = Inr bs"
  then have g: "0 \<le> g" "g < 2 ^ 32"
    and bs: "bs = [word_of_int (g div 2 ^ 24), word_of_int (g div 2 ^ 16), word_of_int (g div 2 ^ 8), word_of_int g]"
    by (simp_all add: to_bytes4_def split: if_splits)
  have u: "uint (word_of_int x :: byte) = x mod 256" for x by (simp add: uint_word_of_int take_bit_eq_mod)
  have d: "g div 65536 = g div 256 div 256" "g div 16777216 = g div 256 div 256 div 256"
    by (simp_all add: div_mult2_eq [symmetric])
  show ?thesis
    unfolding from_bytes_def bs using g div_mult_mod_eq [of g 256] div_mult_mod_eq [of "g div 256" 256]
      div_mult_mod_eq [of "g div 256 div 256" 256]
    by (simp add: u d)
qed

text \<open>
  A block hash and a group id packed into one key can both be read back, for every group id
  that fits four bytes; any other group id is rejected.
\<close>

lemma group_key_roundtrip:
  "(0 \<le> g \<and> g < 2 ^ 32 \<longrightarrow> (\<exists>key. make_block_hash_with_group_id h g = Inr key \<and>
      get_block_hash key = h \<and> get_group_id key = g)) \<and>
   (\<not> (0 \<le> g \<and> g < 2 ^ 32) \<longrightarrow> make_block_hash_with_group_id h g = Inl OverflowError)"
proof (cases "to_bytes4 g")
  case (Inl e)
  then show ?thesis by (auto simp: make_block_hash_with_group_id_def to_bytes4_def split: if_splits)
next
  case (Inr bs)
  have "make_block_hash_with_group_id h g = Inr (h @ bs)" by (simp add: make_block_hash_with_group_id_def Inr)
  moreover have "get_block_hash (h @ bs) = h" "get_group_id (h @ bs) = g"
    using length_to_bytes4 [OF Inr] from_to_bytes4 [OF Inr] by (simp_all add: get_block_hash_def get_group_id_def)
  ultimately show ?thesis using Inr by (auto simp: to_bytes4_def split: if_splits)
qed

lemma group_key_roundtrip_witness:
  "\<exists>key. make_block_hash_with_group_id [7, 9] 258 = Inr key \<and> get_block_hash key = [7, 9] \<and> get_group_id key = 258"
  using group_key_roundtrip [of 258 "[7, 9]"] by simp

section \<open>The extra keys of a block\<close>

definition mm_end :: "mm_feature \<Rightarrow> int" where
  "mm_end f = offset f + mm_length f"

definition mm_sorted :: "mm_feature list \<Rightarrow> bool" where
  "mm_sorted fs \<longleftrightarrow> sorted_wrt (\<lambda>a b. mm_end a \<le> offset b) fs \<and> (\<forall>f \<in> set fs. 0 < mm_length f)"

definition mm_keys :: "mm_feature list \<Rightarrow> int \<Rightarrow> int \<Rightarrow> ekey list" where
  "mm_keys fs s e = map (\<lambda>f. KPair (mm_identifier f) (offset f - s)) (filter (\<lambda>f. offset f < e \<and> s < mm_end f) fs)"

definition mm_idx_ok :: "mm_feature list \<Rightarrow> int \<Rightarrow> int \<Rightarrow> bool" where
  "mm_idx_ok fs s idx \<longleftrightarrow> 0 \<le> idx \<and> (\<forall>f \<in> set (take (nat idx) fs). mm_end f \<le> s) \<or>
     idx = - 1 \<and> (\<forall>f \<in> set (butlast fs). mm_end f \<le> s)"

lemma mm_scan_correct:
  assumes "mm_sorted fs" "s \<le> e"
  shows "mm_scan s e fs cur keys = (keys @ mm_keys fs s e, cur + int (length (takeWhile (\<lambda>f. mm_end f \<le> e) fs)))"
  using assms(1)
proof (induction fs arbitrary: cur keys)
  case (Cons f fs)
  have fs: "mm_sorted fs" and f: "0 < mm_length f" "offset f < mm_end f" and later: "\<forall>g \<in> set fs. mm_end f \<le> offset g"
    using Cons.prems by (auto simp: mm_sorted_def mm_end_def)
  have none: "mm_keys fs s e = []" if "e \<le> mm_end f"
    using that later by (fastforce simp: mm_keys_def filter_empty_conv)
  consider "e \<le> offset f" | "offset f < e" "mm_end f \<le> s" | "offset f < e" "s < mm_end f" "mm_end f \<le> e"
    | "offset f < e" "s < mm_end f" "e < mm_end f" by linarith
  then show ?case
  proof cases
    case 1
    then show ?thesis using none f by (simp add: mm_keys_def)
  next
    case 2
    then show ?thesis using Cons.IH [OF fs] assms(2) by (simp add: mm_keys_def mm_end_def)
  next
    case 3
    then show ?thesis using Cons.IH [OF fs] by (simp add: mm_keys_def mm_end_def Let_def)
  next
    case 4
    then show ?thesis using none by (simp add: mm_keys_def mm_end_def Let_def)
  qed
qed (simp add: mm_keys_def)

lemma mm_sorted_drop: "mm_sorted fs \<Longrightarrow> mm_sorted (drop n fs)"
  by (auto simp: mm_sorted_def sorted_wrt_drop dest: in_set_dropD)

lemma mm_keys_drop:
  assumes "\<forall>f \<in> set (take n fs). mm_end f \<le> s"
  shows "mm_keys (drop n fs) s e = mm_keys fs s e"
proof -
  have "mm_keys fs s e = mm_keys (take n fs) s e @ mm_keys (drop n fs) s e"
    unfolding mm_keys_def by (metis append_take_drop_id filter_append map_append)
  moreover have "mm_keys (take n fs) s e = []" using assms by (fastforce simp: mm_keys_def filter_empty_conv)
  ultimately show ?thesis by simp
qed

lemma mm_end_last: "mm_sorted fs \<Longrightarrow> f \<in> set fs \<Longrightarrow> mm_end f \<le> mm_end (last fs)"
proof (induction fs rule: rev_induct)
  case (snoc g fs)
  then show ?case by (fastforce simp: mm_sorted_def sorted_wrt_append mm_end_def)
qed simp

lemma mm_scan_from:
  assumes fs: "mm_sorted fs" and se: "s \<le> e" and i: "0 \<le> i" "\<forall>f \<in> set (take (nat i) fs). mm_end f \<le> s"
  shows "\<exists>idx'. mm_scan s e (drop (nat i) fs) i [] = (mm_keys fs s e, idx') \<and> mm_idx_ok fs e idx'"
proof -
  define n where "n = length (takeWhile (\<lambda>f. mm_end f \<le> e) (drop (nat i) fs))"
  have "mm_scan s e (drop (nat i) fs) i [] = (mm_keys fs s e, i + int n)"
    using mm_scan_correct [OF mm_sorted_drop [OF fs] se] mm_keys_drop [OF i(2)] by (simp add: n_def)
  moreover have "mm_end f \<le> e" if f: "f \<in> set (take (nat (i + int n)) fs)" for f
  proof -
    have "take (nat (i + int n)) fs = take (nat i) fs @ take n (drop (nat i) fs)"
      using i(1) by (simp add: nat_add_distrib take_add)
    moreover have "take n (drop (nat i) fs) = takeWhile (\<lambda>f. mm_end f \<le> e) (drop (nat i) fs)"
      unfolding n_def by (metis takeWhile_eq_take)
    ultimately consider "f \<in> set (take (nat i) fs)" | "f \<in> set (takeWhile (\<lambda>f. mm_end f \<le> e) (drop (nat i) fs))"
      using f by auto
    then show ?thesis using i(2) se by cases (auto dest: set_takeWhileD)
  qed
  ultimately show ?thesis using i(1) by (auto simp: mm_idx_ok_def)
qed

lemma gen_mm_correct:
  assumes fs: "mm_sorted (mm_features r)" and ok: "mm_idx_ok (mm_features r) (int s) idx" and se: "s \<le> e"
  shows "\<exists>idx'. gen_mm_extra_hash_keys r s e idx = Inr (mm_keys (mm_features r) (int s) (int e), idx') \<and>
    mm_idx_ok (mm_features r) (int e) idx'"
proof -
  let ?fs = "mm_features r"
  have later: "mm_idx_ok ?fs (int e) idx" using ok se by (fastforce simp: mm_idx_ok_def)
  consider "?fs = []" | "?fs \<noteq> []" "mm_end (last ?fs) \<le> int s" | "?fs \<noteq> []" "int s < mm_end (last ?fs)" "0 \<le> idx"
    | "?fs \<noteq> []" "int s < mm_end (last ?fs)" "idx = - 1" using ok by (fastforce simp: mm_idx_ok_def)
  then show ?thesis
  proof cases
    case 2
    then have "mm_keys ?fs (int s) (int e) = []"
      using mm_end_last [OF fs] by (fastforce simp: mm_keys_def filter_empty_conv)
    then show ?thesis using 2 later by (simp add: gen_mm_extra_hash_keys_def mm_end_def)
  next
    case 3
    then show ?thesis
      using mm_scan_from [OF fs, of "int s" "int e" idx] ok se by (auto simp: gen_mm_extra_hash_keys_def mm_end_def mm_idx_ok_def)
  next
    case 4
    let ?i = "int (length ?fs) - 1"
    have "nat ?i = length ?fs - 1" by linarith
    then have "butlast ?fs = take (nat ?i) ?fs" by (simp only: butlast_conv_take)
    then have "\<forall>f \<in> set (take (nat ?i) ?fs). mm_end f \<le> int s" using ok 4 by (auto simp: mm_idx_ok_def)
    moreover have "0 \<le> ?i" "1 \<le> int (length ?fs)" using 4(1) by (cases ?fs; simp)+
    ultimately show ?thesis
      using mm_scan_from [OF fs, of "int s" "int e" ?i] 4 se by (auto simp: gen_mm_extra_hash_keys_def mm_end_def)
  qed (use later in \<open>simp add: gen_mm_extra_hash_keys_def mm_keys_def\<close>)
qed

section \<open>The chain of hashes\<close>

text \<open>\<open>block_keys\<close> and \<open>chain\<close> are the meaning of the hashes: no caches and no indices are carried along.\<close>

definition embeds_keys :: "(byte list \<Rightarrow> byte list) \<Rightarrow> request \<Rightarrow> nat \<Rightarrow> nat \<Rightarrow> ekey list" where
  "embeds_keys sha256 r s e =
     (case prompt_embeds r of None \<Rightarrow> [] | Some rows \<Rightarrow> [KBytes (sha256 (concat (take (e - s) (drop s rows))))])"

definition block_keys :: "(byte list \<Rightarrow> byte list) \<Rightarrow> request \<Rightarrow> nat \<Rightarrow> nat \<Rightarrow> ekey list option" where
  "block_keys sha256 r s e =
     (let ks = gen_lora_extra_hash_keys r @ mm_keys (mm_features r) (int s) (int e) @ cache_salt_keys r s @
               embeds_keys sha256 r s e
      in if ks = [] then None else Some ks)"

definition block_input :: "(byte list \<Rightarrow> byte list) \<Rightarrow> nat \<Rightarrow> request \<Rightarrow> nat \<Rightarrow> byte list \<Rightarrow> hash_input" where
  "block_input sha256 hbs r i parent =
     Block parent (take hbs (drop (i * hbs) (all_token_ids r))) (block_keys sha256 r (i * hbs) (i * hbs + hbs))"

fun chain :: "(byte list \<Rightarrow> byte list) \<Rightarrow> (hash_input \<Rightarrow> byte list) \<Rightarrow> byte list \<Rightarrow> nat \<Rightarrow> request \<Rightarrow> nat \<Rightarrow> byte list" where
  "chain sha256 hash_fn none_hash hbs r 0 = none_hash"
| "chain sha256 hash_fn none_hash hbs r (Suc i) =
     hash_fn (block_input sha256 hbs r i (chain sha256 hash_fn none_hash hbs r i))"

definition embeds_ok :: "(byte list \<Rightarrow> byte list) \<Rightarrow> request \<Rightarrow> bool" where
  "embeds_ok sha256 r \<longleftrightarrow>
     (\<forall>s e h. dict_get (prompt_embeds_hashes r) (s, e) = Some h \<longrightarrow> embeds_keys sha256 r s e = [KBytes h])"

abbreviation with_cache :: "request \<Rightarrow> (nat \<times> nat, byte list) dict \<Rightarrow> request" where
  "with_cache r d \<equiv> r\<lparr>prompt_embeds_hashes := d\<rparr>"

lemma block_keys_cache [simp]: "block_keys sha256 (with_cache r d) s e = block_keys sha256 r s e"
  by (simp add: block_keys_def embeds_keys_def gen_lora_extra_hash_keys_def cache_salt_keys_def)

lemma chain_cache [simp]: "chain sha256 hash_fn nh hbs (with_cache r d) n = chain sha256 hash_fn nh hbs r n"
  by (induction n) (simp_all add: block_input_def)

lemma block_keys_hashes [simp]: "block_keys sha256 (r\<lparr>block_hashes := x\<rparr>) s e = block_keys sha256 r s e"
  by (simp add: block_keys_def embeds_keys_def gen_lora_extra_hash_keys_def cache_salt_keys_def)

lemma chain_hashes [simp]: "chain sha256 hash_fn nh hbs (r\<lparr>block_hashes := x\<rparr>) n = chain sha256 hash_fn nh hbs r n"
  by (induction n) (simp_all add: block_input_def)

lemma gen_embeds_correct:
  assumes "embeds_ok sha256 r"
  shows "\<exists>d. gen_prompt_embeds_extra_hash_keys sha256 r s e = (embeds_keys sha256 r s e, with_cache r d) \<and>
    embeds_ok sha256 (with_cache r d)"
proof (cases "prompt_embeds r")
  case None
  then have "gen_prompt_embeds_extra_hash_keys sha256 r s e = (embeds_keys sha256 r s e, with_cache r (prompt_embeds_hashes r))"
    by (simp add: gen_prompt_embeds_extra_hash_keys_def embeds_keys_def)
  then show ?thesis using assms by (intro exI [of _ "prompt_embeds_hashes r"]) simp
next
  case (Some rows)
  show ?thesis
  proof (cases "dict_get (prompt_embeds_hashes r) (s, e)")
    case None
    let ?h = "sha256 (concat (take (e - s) (drop s rows)))"
    let ?d = "dict_set (s, e) ?h (prompt_embeds_hashes r)"
    have "embeds_ok sha256 (with_cache r ?d)" using assms Some by (auto simp: embeds_ok_def embeds_keys_def)
    then show ?thesis
      using None Some by (intro exI [of _ ?d]) (simp add: gen_prompt_embeds_extra_hash_keys_def embeds_keys_def Let_def)
  next
    case (Some h)
    then have "gen_prompt_embeds_extra_hash_keys sha256 r s e = (embeds_keys sha256 r s e, with_cache r (prompt_embeds_hashes r))"
      using assms \<open>prompt_embeds r = Some rows\<close> by (simp add: gen_prompt_embeds_extra_hash_keys_def embeds_ok_def)
    then show ?thesis using assms by (intro exI [of _ "prompt_embeds_hashes r"]) simp
  qed
qed

lemma generate_keys_correct:
  assumes fs: "mm_sorted (mm_features r)" "mm_idx_ok (mm_features r) (int s) idx" "s \<le> e" and em: "embeds_ok sha256 r"
  shows "\<exists>idx' d. generate_block_hash_extra_keys sha256 r s e idx =
      Inr (block_keys sha256 r s e, idx', with_cache r d) \<and>
    mm_idx_ok (mm_features r) (int e) idx' \<and> embeds_ok sha256 (with_cache r d)"
proof -
  obtain idx' where m: "gen_mm_extra_hash_keys r s e idx = Inr (mm_keys (mm_features r) (int s) (int e), idx')"
    "mm_idx_ok (mm_features r) (int e) idx'" using gen_mm_correct [OF fs] by blast
  obtain d where d: "gen_prompt_embeds_extra_hash_keys sha256 r s e = (embeds_keys sha256 r s e, with_cache r d)"
    "embeds_ok sha256 (with_cache r d)" using gen_embeds_correct [OF em] by blast
  then show ?thesis
    using m by (intro exI [of _ idx'] exI [of _ d]) (simp add: generate_block_hash_extra_keys_def block_keys_def Let_def)
qed

definition parent_ok :: "byte list \<Rightarrow> byte list option \<Rightarrow> byte list \<Rightarrow> bool" where
  "parent_ok none_hash prev h \<longleftrightarrow> (case prev of None \<Rightarrow> h = none_hash | Some p \<Rightarrow> p = h \<and> h \<noteq> [])"

lemma hash_block_tokens_parent:
  "parent_ok nh prev h \<Longrightarrow> hash_block_tokens hash_fn nh prev toks keys = hash_fn (Block h toks keys)"
  by (auto simp: parent_ok_def hash_block_tokens_def split: option.splits)

lemma hash_loop_correct:
  fixes sha256 nh
  assumes hbs: "0 < hbs" and ne: "\<And>x. hash_fn x \<noteq> []" and fs: "mm_sorted (mm_features r)"
  defines "ch \<equiv> chain sha256 hash_fn nh hbs r"
  shows "mm_idx_ok (mm_features r) (int (n * hbs)) idx \<Longrightarrow> embeds_ok sha256 (with_cache r d) \<Longrightarrow>
    parent_ok nh prev (ch n) \<Longrightarrow> num_tokens r div hbs = n + k \<Longrightarrow>
    \<exists>d'. hash_loop sha256 hash_fn nh hbs (n * hbs) idx prev acc (with_cache r d) =
      Some (Inr (acc @ map ch [n + 1 ..< n + k + 1], with_cache r d')) \<and> embeds_ok sha256 (with_cache r d')"
proof (induction k arbitrary: n idx d prev acc)
  case 0
  have "num_tokens (with_cache r d) < n * hbs + hbs"
    using 0(4) hbs by (simp add: num_tokens_def) (metis add.commute div_le_mono div_mult_self1_is_m lessI mult.commute mult_Suc not_less not_less_eq_eq)
  then have "hash_loop sha256 hash_fn nh hbs (n * hbs) idx prev acc (with_cache r d) = Some (Inr (acc, with_cache r d))"
    by (subst hash_loop.simps) simp
  then show ?case using 0(2) by auto
next
  case (Suc k)
  let ?r = "with_cache r d"
  have le: "n * hbs + hbs \<le> num_tokens ?r"
  proof -
    have "(n + 1) * hbs \<le> (num_tokens r div hbs) * hbs" using Suc.prems(4) by (intro mult_le_mono1) simp
    also have "\<dots> \<le> num_tokens r" by (rule div_times_less_eq_dividend)
    finally show ?thesis by (simp add: num_tokens_def)
  qed
  obtain idx' d1 where g: "generate_block_hash_extra_keys sha256 ?r (n * hbs) (n * hbs + hbs) idx =
      Inr (block_keys sha256 r (n * hbs) (n * hbs + hbs), idx', with_cache r d1)"
    "mm_idx_ok (mm_features r) (int (n * hbs + hbs)) idx'" "embeds_ok sha256 (with_cache r d1)"
    using generate_keys_correct [of ?r "n * hbs" idx "n * hbs + hbs" sha256] fs Suc.prems(1,2) by auto
  have h: "hash_block_tokens hash_fn nh prev (take hbs (drop (n * hbs) (all_token_ids ?r)))
      (block_keys sha256 r (n * hbs) (n * hbs + hbs)) = ch (Suc n)"
    using hash_block_tokens_parent [OF Suc.prems(3)] by (simp add: ch_def block_input_def)
  have i: "int (Suc n * hbs) = int (n * hbs + hbs)" by simp
  have p: "parent_ok nh (Some (ch (Suc n))) (ch (Suc n))" using ne by (simp add: parent_ok_def ch_def)
  have "num_tokens r div hbs = Suc n + k" using Suc.prems(4) by simp
  from Suc.IH [OF g(2) [folded i] g(3) p this, of "acc @ [ch (Suc n)]"]
  obtain d' where d': "hash_loop sha256 hash_fn nh hbs (Suc n * hbs) idx' (Some (ch (Suc n))) (acc @ [ch (Suc n)]) (with_cache r d1) =
      Some (Inr ((acc @ [ch (Suc n)]) @ map ch [Suc n + 1 ..< Suc n + k + 1], with_cache r d'))" "embeds_ok sha256 (with_cache r d')"
    by blast
  have "hash_loop sha256 hash_fn nh hbs (n * hbs) idx prev acc ?r =
    hash_loop sha256 hash_fn nh hbs (Suc n * hbs) idx' (Some (ch (Suc n))) (acc @ [ch (Suc n)]) (with_cache r d1)"
    using le g(1) h by (subst hash_loop.simps) (simp add: Let_def add.commute)
  moreover have "[n + 1 ..< n + Suc k + 1] = (n + 1) # [Suc n + 1 ..< Suc n + k + 1]" by (simp add: upt_conv_Cons)
  ultimately show ?case using d' by auto
qed

text \<open>
  \<open>hashes_ok\<close>: the request holds the chain hash of every full block. \<open>mm_done\<close>: every multi-modal input but the
  last one ends within the blocks that are hashed, which the code assumes for generated tokens.
\<close>

definition hashes_ok :: "(byte list \<Rightarrow> byte list) \<Rightarrow> (hash_input \<Rightarrow> byte list) \<Rightarrow> byte list \<Rightarrow> nat \<Rightarrow> request \<Rightarrow> bool" where
  "hashes_ok sha256 hash_fn nh hbs r \<longleftrightarrow> embeds_ok sha256 r \<and>
     block_hashes r = map (chain sha256 hash_fn nh hbs r) [1 ..< num_tokens r div hbs + 1]"

definition mm_done :: "nat \<Rightarrow> request \<Rightarrow> bool" where
  "mm_done hbs r \<longleftrightarrow> mm_sorted (mm_features r) \<and>
     (block_hashes r = [] \<or> (\<forall>f \<in> set (butlast (mm_features r)). mm_end f \<le> int (length (block_hashes r) * hbs)))"

lemma hasher_correct:
  assumes hbs: "0 < hbs" and ne: "\<And>x. hash_fn x \<noteq> []" and em: "embeds_ok sha256 r" and mm: "mm_done hbs r"
    and bh: "block_hashes r = map (chain sha256 hash_fn nh hbs r) [1 ..< n + 1]" and n: "n \<le> num_tokens r div hbs"
  shows "\<exists>d. request_block_hasher sha256 hash_fn nh hbs r =
      Some (Inr (map (chain sha256 hash_fn nh hbs r) [n + 1 ..< num_tokens r div hbs + 1], with_cache r d)) \<and>
    embeds_ok sha256 (with_cache r d)"
proof -
  let ?ch = "chain sha256 hash_fn nh hbs r" and ?N = "num_tokens r div hbs"
  have len: "length (block_hashes r) = n" by (simp add: bh)
  show ?thesis
  proof (cases "num_tokens r < n * hbs + hbs")
    case True
    then have "?N < n + 1" using hbs by (simp add: div_less_iff_less_mult algebra_simps)
    then have "[n + 1 ..< ?N + 1] = []" by simp
    moreover have "with_cache r (prompt_embeds_hashes r) = r" by simp
    ultimately show ?thesis
      using True em by (intro exI [of _ "prompt_embeds_hashes r"]) (simp add: request_block_hasher_def len)
  next
    case False
    define idx :: int where "idx = (if 0 < n * hbs then - 1 else 0)"
    define prev where "prev = (if block_hashes r = [] then None else Some (last (block_hashes r)))"
    have idx: "mm_idx_ok (mm_features r) (int (n * hbs)) idx"
      using mm hbs len by (auto simp: idx_def mm_idx_ok_def mm_done_def)
    have par: "parent_ok nh prev (?ch n)"
    proof (cases n)
      case (Suc m)
      then have "block_hashes r \<noteq> []" "last (block_hashes r) = ?ch n" by (auto simp: bh last_map)
      then show ?thesis using ne by (simp add: prev_def parent_ok_def Suc)
    qed (simp add: prev_def parent_ok_def bh)
    have N: "?N = n + (?N - n)" using n by simp
    have em': "embeds_ok sha256 (with_cache r (prompt_embeds_hashes r))" and fs: "mm_sorted (mm_features r)"
      using em mm by (simp_all add: mm_done_def)
    obtain d where d: "hash_loop sha256 hash_fn nh hbs (n * hbs) idx prev [] (with_cache r (prompt_embeds_hashes r)) =
        Some (Inr ([] @ map ?ch [n + 1 ..< n + (?N - n) + 1], with_cache r d))" "embeds_ok sha256 (with_cache r d)"
      using hash_loop_correct [where hash_fn = hash_fn, OF hbs ne fs idx em' par N, of "[]"] by blast
    then show ?thesis
      using False n by (auto simp: request_block_hasher_def len Let_def idx_def prev_def)
  qed
qed

text \<open>The hasher a request carries, for a positive block size, as the total function of the request operations.\<close>

definition block_hasher :: "(byte list \<Rightarrow> byte list) \<Rightarrow> (hash_input \<Rightarrow> byte list) \<Rightarrow> byte list \<Rightarrow> nat \<Rightarrow> hasher" where
  "block_hasher sha256 hash_fn nh hbs r = the (request_block_hasher sha256 hash_fn nh hbs r)"

lemma chain_append:
  assumes "n * hbs \<le> num_tokens r" "all_token_ids r' = all_token_ids r @ toks" "lora r' = lora r"
    "mm_features r' = mm_features r" "cache_salt r' = cache_salt r" "prompt_embeds r' = prompt_embeds r"
  shows "chain sha256 hash_fn nh hbs r' n = chain sha256 hash_fn nh hbs r n"
  using assms(1)
proof (induction n)
  case (Suc n)
  have le: "n * hbs + hbs \<le> length (all_token_ids r)" using Suc.prems by (simp add: num_tokens_def add.commute)
  then have "take hbs (drop (n * hbs) (all_token_ids r')) = take hbs (drop (n * hbs) (all_token_ids r))"
    using assms(2) by simp
  moreover have "block_keys sha256 r' s e = block_keys sha256 r s e" for s e
    using assms(3-6) by (simp add: block_keys_def embeds_keys_def gen_lora_extra_hash_keys_def cache_salt_keys_def)
  ultimately show ?case using Suc by (simp add: block_input_def num_tokens_def)
qed simp

lemma update_hashes:
  fixes r :: request
  assumes hbs: "0 < hbs" and ne: "\<And>x. hash_fn x \<noteq> []" and em: "embeds_ok sha256 r" and mm: "mm_done hbs r"
    and bh: "block_hashes r = map (chain sha256 hash_fn nh hbs r) [1 ..< n + 1]" and n: "n \<le> num_tokens r div hbs"
  shows "\<exists>d hs. update_block_hashes (Some (block_hasher sha256 hash_fn nh hbs)) r =
      Inr (r\<lparr>prompt_embeds_hashes := d, block_hashes := hs\<rparr>) \<and>
    hashes_ok sha256 hash_fn nh hbs (r\<lparr>prompt_embeds_hashes := d, block_hashes := hs\<rparr>)"
proof -
  let ?ch = "chain sha256 hash_fn nh hbs r" and ?N = "num_tokens r div hbs"
  from hasher_correct [OF hbs ne em mm bh n]
  obtain d where d: "request_block_hasher sha256 hash_fn nh hbs r = Some (Inr (map ?ch [n + 1 ..< ?N + 1], with_cache r d))"
    "embeds_ok sha256 (with_cache r d)" by blast
  define hs where "hs = map ?ch [1 ..< n + 1] @ map ?ch [n + 1 ..< ?N + 1]"
  define r' where "r' = r\<lparr>prompt_embeds_hashes := d, block_hashes := hs\<rparr>"
  have "update_block_hashes (Some (block_hasher sha256 hash_fn nh hbs)) r = Inr r'"
    using d(1) by (simp add: update_block_hashes_def block_hasher_def r'_def hs_def bh)
  moreover have up: "[1 ..< n + 1] @ [n + 1 ..< ?N + 1] = [1 ..< ?N + 1]"
    using n upt_add_eq_append [of 1 "n + 1" "?N - n"] by simp
  have "block_hashes r' = map ?ch [1 ..< ?N + 1]" unfolding up [symmetric] by (simp add: r'_def hs_def)
  moreover have "chain sha256 hash_fn nh hbs r' m = ?ch m" for m by (simp add: r'_def)
  moreover have "num_tokens r' = num_tokens r" "embeds_ok sha256 r'"
    using d(2) by (simp_all add: r'_def num_tokens_def embeds_ok_def embeds_keys_def)
  ultimately have "update_block_hashes (Some (block_hasher sha256 hash_fn nh hbs)) r = Inr r' \<and> hashes_ok sha256 hash_fn nh hbs r'"
    by (simp add: hashes_ok_def)
  then show ?thesis unfolding r'_def by blast
qed

lemma append_hashes:
  assumes hbs: "0 < hbs" and ne: "\<And>x. hash_fn x \<noteq> []" and ok: "hashes_ok sha256 hash_fn nh hbs r" and mm: "mm_done hbs r"
  shows "\<exists>r'. append_output_token_ids (Some (block_hasher sha256 hash_fn nh hbs)) toks r = Inr r' \<and>
    hashes_ok sha256 hash_fn nh hbs r' \<and> all_token_ids r' = all_token_ids r @ toks \<and>
    output_token_ids r' = output_token_ids r @ toks \<and> mm_features r' = mm_features r"
proof -
  define r1 where "r1 = r\<lparr>output_token_ids := output_token_ids r @ toks, all_token_ids := all_token_ids r @ toks\<rparr>"
  let ?ch = "chain sha256 hash_fn nh hbs" and ?n = "num_tokens r div hbs" and ?N = "num_tokens r1 div hbs"
  have same: "?ch r1 m = ?ch r m" if "m * hbs \<le> num_tokens r" for m
    using that by (intro chain_append) (simp_all add: r1_def)
  have nN: "?n \<le> ?N" by (intro div_le_mono) (simp add: r1_def num_tokens_def)
  have bh: "block_hashes r1 = map (?ch r1) [1 ..< ?n + 1]"
  proof -
    have "m * hbs \<le> num_tokens r" if "m \<in> set [1 ..< ?n + 1]" for m
    proof -
      have "m \<le> ?n" using that unfolding set_upt atLeastLessThan_iff by linarith
      then show ?thesis using order_trans [OF mult_le_mono1 div_times_less_eq_dividend] by blast
    qed
    then show ?thesis using ok same by (simp add: r1_def hashes_ok_def cong: map_cong)
  qed
  have em: "embeds_ok sha256 r1" "mm_done hbs r1" using ok mm by (simp_all add: r1_def hashes_ok_def embeds_ok_def embeds_keys_def mm_done_def)
  obtain d hs where "update_block_hashes (Some (block_hasher sha256 hash_fn nh hbs)) r1 =
      Inr (r1\<lparr>prompt_embeds_hashes := d, block_hashes := hs\<rparr>)"
    "hashes_ok sha256 hash_fn nh hbs (r1\<lparr>prompt_embeds_hashes := d, block_hashes := hs\<rparr>)"
    using update_hashes [OF hbs ne em bh nN] by blast
  then show ?thesis
    by (intro exI [of _ "r1\<lparr>prompt_embeds_hashes := d, block_hashes := hs\<rparr>"])
      (simp add: append_output_token_ids_def r1_def)
qed

text \<open>
  \<open>mm_prompt\<close>: the features are in order and all but the last one end within the full blocks of the tokens given
  (the prompt, for a new request).
\<close>

definition mm_prompt :: "nat \<Rightarrow> mm_feature list \<Rightarrow> nat \<Rightarrow> bool" where
  "mm_prompt hbs fs n \<longleftrightarrow> mm_sorted fs \<and> (\<forall>f \<in> set (butlast fs). mm_end f \<le> int (n div hbs * hbs))"

lemma appends_hashes:
  assumes hbs: "0 < hbs" and ne: "\<And>x. hash_fn x \<noteq> []" and mm: "mm_prompt hbs fs n"
  shows "hashes_ok sha256 hash_fn nh hbs r \<Longrightarrow> mm_features r = fs \<Longrightarrow> n \<le> num_tokens r \<Longrightarrow>
    \<exists>r'. fold_res (append_output_token_ids (Some (block_hasher sha256 hash_fn nh hbs))) tss r = Inr r' \<and>
      hashes_ok sha256 hash_fn nh hbs r' \<and> all_token_ids r' = all_token_ids r @ concat tss"
proof (induction tss arbitrary: r)
  case (Cons toks tss)
  have "length (block_hashes r) = num_tokens r div hbs" using Cons.prems(1) by (simp add: hashes_ok_def)
  moreover have "int (n div hbs * hbs) \<le> int (num_tokens r div hbs * hbs)"
    by (intro of_nat_mono mult_le_mono1 div_le_mono Cons.prems(3))
  ultimately have "mm_done hbs r"
    using mm Cons.prems(2) unfolding mm_done_def mm_prompt_def by (metis (no_types, lifting) order_trans)
  from append_hashes [OF hbs ne Cons.prems(1) this, of toks]
  obtain r1 where r1: "append_output_token_ids (Some (block_hasher sha256 hash_fn nh hbs)) toks r = Inr r1"
    "hashes_ok sha256 hash_fn nh hbs r1" "all_token_ids r1 = all_token_ids r @ toks" "mm_features r1 = mm_features r" by blast
  moreover have "n \<le> num_tokens r1" using Cons.prems(3) r1(3) by (simp add: num_tokens_def)
  ultimately show ?case using Cons.IH [OF r1(2)] Cons.prems(2) by auto
qed simp



section \<open>Equal hashes mean equal prefixes\<close>

definition chain_inputs ::
  "(byte list \<Rightarrow> byte list) \<Rightarrow> (hash_input \<Rightarrow> byte list) \<Rightarrow> byte list \<Rightarrow> nat \<Rightarrow> request \<Rightarrow> hash_input set" where
  "chain_inputs sha256 hash_fn nh hbs r = range (\<lambda>i. block_input sha256 hbs r i (chain sha256 hash_fn nh hbs r i))"

lemma chain_input_mem: "block_input sha256 hbs r i (chain sha256 hash_fn nh hbs r i) \<in> chain_inputs sha256 hash_fn nh hbs r"
  by (simp add: chain_inputs_def)

lemma chain_step:
  assumes "inj_on hash_fn (chain_inputs sha256 hash_fn nh hbs r \<union> chain_inputs sha256 hash_fn nh hbs r')"
    "chain sha256 hash_fn nh hbs r (Suc i) = chain sha256 hash_fn nh hbs r' (Suc j)"
  shows "block_input sha256 hbs r i (chain sha256 hash_fn nh hbs r i) = block_input sha256 hbs r' j (chain sha256 hash_fn nh hbs r' j)"
  using assms(2) chain_input_mem by (intro inj_onD [OF assms(1)]) auto

lemma chain_injective:
  assumes inj: "inj_on hash_fn (chain_inputs sha256 hash_fn nh hbs r \<union> chain_inputs sha256 hash_fn nh hbs r')"
    and nh: "nh \<notin> hash_fn ` (chain_inputs sha256 hash_fn nh hbs r \<union> chain_inputs sha256 hash_fn nh hbs r')"
  shows "chain sha256 hash_fn nh hbs r m = chain sha256 hash_fn nh hbs r' m' \<Longrightarrow>
    m = m' \<and> take (m * hbs) (all_token_ids r) = take (m * hbs) (all_token_ids r') \<and>
    (\<forall>k < m. block_keys sha256 r (k * hbs) (k * hbs + hbs) = block_keys sha256 r' (k * hbs) (k * hbs + hbs))"
proof (induction m arbitrary: m')
  case 0
  then show ?case using nh chain_input_mem [of sha256 hbs r'] by (cases m') (auto simp: image_iff)
next
  case (Suc m)
  show ?case
  proof (cases m')
    case 0
    then have "nh = hash_fn (block_input sha256 hbs r m (chain sha256 hash_fn nh hbs r m))" using Suc.prems by simp
    then show ?thesis using nh chain_input_mem [of sha256 hbs r m hash_fn nh] by blast
  next
    case (Suc j)
    note eq = chain_step [OF inj Suc.prems [unfolded Suc]]
    then have IH: "m = j \<and> take (m * hbs) (all_token_ids r) = take (m * hbs) (all_token_ids r') \<and>
      (\<forall>k < m. block_keys sha256 r (k * hbs) (k * hbs + hbs) = block_keys sha256 r' (k * hbs) (k * hbs + hbs))"
      by (intro Suc.IH) (simp add: block_input_def)
    have "take (Suc m * hbs) xs = take (m * hbs) xs @ take hbs (drop (m * hbs) xs)" for xs :: "int list"
      by (simp add: take_add [symmetric] add.commute)
    then show ?thesis using eq IH Suc by (auto simp: block_input_def less_Suc_eq)
  qed
qed


text \<open>A collision-free hash function, for the concrete instance below.\<close>

definition toy_hash :: "hash_input \<Rightarrow> byte list" where
  "toy_hash x = replicate (to_nat x + 1) 0"

definition hashed :: "nat \<Rightarrow> request \<Rightarrow> request" where
  "hashed hbs r = r\<lparr>block_hashes := map (chain id toy_hash [1] hbs r) [1 ..< num_tokens r div hbs + 1]\<rparr>"

lemma toy_hash_inj: "inj_on toy_hash S"
proof (rule inj_onI)
  fix x y assume "toy_hash x = toy_hash y"
  then have "to_nat x = to_nat y" by (metis add_right_cancel length_replicate toy_hash_def)
  then show "x = y" by simp
qed

lemma toy_hash_seed: "[1] \<notin> toy_hash ` S"
proof
  assume "[1] \<in> toy_hash ` S"
  then obtain x where "[1 :: byte] = replicate (to_nat x + 1) 0" by (auto simp: toy_hash_def)
  then show False by (metis in_set_replicate list.set_intros(1) zero_neq_one)
qed

lemma hashed_ok: "prompt_embeds_hashes r = [] \<Longrightarrow> hashes_ok id toy_hash [1] hbs (hashed hbs r)"
  by (simp add: hashes_ok_def hashed_def embeds_ok_def num_tokens_def del: upt_Suc)


text \<open>
  Property C40. The extra keys of the first block do not tell a LoRA adapter named \<open>x\<close> from a cache salt \<open>x\<close>:
  the keys of two requests with the same text, one under the adapter and one with the salt, are equal, so the
  first block of one is taken for the first block of the other.
\<close>

theorem lora_salt_collision:
  assumes "lora r = Some l" "cache_salt r = None" "lora q = None" "cache_salt q = Some (lora_name l)"
    "lora_name l \<noteq> []" "mm_features r = []" "mm_features q = []" "prompt_embeds r = None" "prompt_embeds q = None"
  shows "\<exists>keys. generate_block_hash_extra_keys sha256 r 0 e 0 = Inr (keys, 0, r) \<and>
    generate_block_hash_extra_keys sha256 q 0 e 0 = Inr (keys, 0, q)"
  using assms
  by (simp add: generate_block_hash_extra_keys_def gen_mm_extra_hash_keys_def gen_lora_extra_hash_keys_def
      cache_salt_keys_def gen_prompt_embeds_extra_hash_keys_def)

theorem lora_salt_collision_witness:
  "\<exists>keys. generate_block_hash_extra_keys id ((demo_request [5])\<lparr>lora := Some \<lparr>lora_name = ''x'', lora_int_id = 1\<rparr>\<rparr>) 0 2 0 =
      Inr (keys, 0, (demo_request [5])\<lparr>lora := Some \<lparr>lora_name = ''x'', lora_int_id = 1\<rparr>\<rparr>) \<and>
    generate_block_hash_extra_keys id ((demo_request [5])\<lparr>cache_salt := Some ''x''\<rparr>) 0 2 0 =
      Inr (keys, 0, (demo_request [5])\<lparr>cache_salt := Some ''x''\<rparr>)"
  by (rule lora_salt_collision [where l = "\<lparr>lora_name = ''x'', lora_int_id = 1\<rparr>"]) (simp_all add: demo_request_def)

section \<open>The coarser view\<close>

lemma get_value_at_chain:
  assumes "hashes_ok sha256 hash_fn nh hbs r" "0 < k" "i < length (block_hashes r) div k"
  shows "get_value_at \<lparr>hv_hashes = block_hashes r, scale_factor = k\<rparr> i = Inr (chain sha256 hash_fn nh hbs r ((i + 1) * k))"
proof -
  have "(i + 1) * k \<le> length (block_hashes r) div k * k" using assms(3) by (intro mult_le_mono1) simp
  then have le: "(i + 1) * k \<le> length (block_hashes r)" using div_times_less_eq_dividend order_trans by blast
  define m where "m = (i + 1) * k"
  have m: "0 < m" "m \<le> length (block_hashes r)" using le assms(2) by (simp_all add: m_def)
  then have "block_hashes r ! (m - 1) = chain sha256 hash_fn nh hbs r m"
    using assms(1) by (auto simp: hashes_ok_def simp del: upt_Suc)
  moreover have "get_value_at \<lparr>hv_hashes = block_hashes r, scale_factor = k\<rparr> i =
    (if block_hashes r = [] \<or> length (block_hashes r) < m then Inl IndexError
     else if m = 0 then Inr (last (block_hashes r)) else Inr (block_hashes r ! (m - 1)))"
    by (simp only: get_value_at_def m_def Let_def hash_view.select_convs)
  ultimately show ?thesis using m unfolding m_def [symmetric] by auto
qed

text \<open>
  Property C34. For a group whose block size is a multiple \<open>k\<close> of the hash block size, the hashes the cache is
  addressed by have one entry per full block of that group, and entry \<open>i\<close> is the chain hash of the first
  \<open>(i + 1) * k\<close> fine blocks, that is of all tokens up to the end of block \<open>i\<close>. A block size that is no multiple is
  an assertion failure.
\<close>

theorem coarse_view:
  assumes "hashes_ok sha256 hash_fn nh hbs r" "0 < hbs" "block_size \<noteq> hbs" "0 < block_size"
  shows "(hbs dvd block_size \<longrightarrow> (\<exists>v hs. resolve_block_hashes (Raw (block_hashes r)) hbs block_size False None = Inr (View v) \<and>
      view_len v = Inr (num_tokens r div block_size) \<and> view_from v 0 = Inr hs \<and>
      hs = map (\<lambda>i. chain sha256 hash_fn nh hbs r ((i + 1) * (block_size div hbs))) [0 ..< num_tokens r div block_size])) \<and>
    (\<not> hbs dvd block_size \<longrightarrow> resolve_block_hashes (Raw (block_hashes r)) hbs block_size False None = Inl AssertionError)"
proof (cases "hbs dvd block_size")
  case False
  then show ?thesis using assms by (simp add: resolve_block_hashes_def py_assert_def dvd_eq_mod_eq_0)
next
  case True
  then obtain k where k: "block_size = hbs * k" by (elim dvdE)
  then have k0: "0 < k" "block_size div hbs = k" using assms by simp_all
  let ?v = "\<lparr>hv_hashes = block_hashes r, scale_factor = k\<rparr>"
  have "length (block_hashes r) = num_tokens r div hbs" using assms(1) by (simp add: hashes_ok_def)
  then have n: "length (block_hashes r) div k = num_tokens r div block_size" by (simp add: k div_mult2_eq)
  have "map_res (get_value_at ?v) [0 ..< num_tokens r div block_size] =
    Inr (map (\<lambda>i. chain sha256 hash_fn nh hbs r ((i + 1) * k)) [0 ..< num_tokens r div block_size])"
    using get_value_at_chain [OF assms(1) k0(1)] by (intro map_res_Inr) (simp add: n)
  then show ?thesis
    using True assms(2,3) k0 n
    by (simp add: resolve_block_hashes_def BlockHashListWithBlockSize_def py_assert_def view_len_def view_from_def dvd_eq_mod_eq_0)
qed

theorem coarse_view_witness:
  "\<exists>v hs. resolve_block_hashes (Raw (block_hashes (hashed 2 (demo_request [5, 2, 8])))) 2 4 False None = Inr (View v) \<and>
    view_len v = Inr 1 \<and> view_from v 0 = Inr hs \<and> length hs = 1"
proof -
  have "prompt_embeds_hashes (demo_request [5, 2, 8]) = []" "num_tokens (hashed 2 (demo_request [5, 2, 8])) = 4"
    by (simp_all add: demo_request_def hashed_def num_tokens_def)
  then show ?thesis using coarse_view [OF hashed_ok, of "demo_request [5, 2, 8]" 2 4] by auto
qed

end
