(* ===== verification/KV_Metrics.thy ===== *)
theory KV_Metrics
  imports Complex_Main Prelude "HOL-Library.Stream"
begin

text \<open>
  Residency metrics of KV-cache blocks (\<^verbatim>\<open>vllm/v1/core/kv_cache_metrics.py\<close>): a sampled block records when it
  was allocated and its last accesses, and its eviction leaves one event.

  The readings of \<open>time.monotonic_ns\<close> and of \<open>random.random\<close> are two streams in the state of the collector;
  every call takes the next reading. Seconds are rationals.
\<close>

section \<open>Definitions\<close>

record block_metrics =
  birth_time_ns :: int
  last_access_ns :: int
  access_history :: "int list"

record eviction_event =
  lifetime_seconds :: rat
  idle_seconds :: rat
  reuse_gaps_seconds :: "rat list"

record collector =
  sample_rate :: rat
  metrics_of :: "(nat, block_metrics) dict"
  eviction_events :: "eviction_event list"
  clock :: "int stream"
  rng :: "rat stream"

definition new_collector :: "rat \<Rightarrow> int stream \<Rightarrow> rat stream \<Rightarrow> collector res" where
  "new_collector rate ticks rands =
     bind_res (py_assert (0 < rate \<and> rate \<le> 1)) (\<lambda>_.
       Inr \<lparr>sample_rate = rate, metrics_of = [], eviction_events = [], clock = ticks, rng = rands\<rparr>)"

definition monotonic_ns :: "collector \<Rightarrow> int \<times> collector" where
  "monotonic_ns c = (shd (clock c), c\<lparr>clock := stl (clock c)\<rparr>)"

definition new_metrics :: "int \<Rightarrow> block_metrics" where
  "new_metrics now_ns = \<lparr>birth_time_ns = now_ns, last_access_ns = now_ns, access_history = []\<rparr>"

text \<open>\<open>deque(maxlen=4)\<close>: appending to a full deque drops the oldest entry.\<close>

definition deque_append :: "nat \<Rightarrow> 'a \<Rightarrow> 'a list \<Rightarrow> 'a list" where
  "deque_append maxlen x xs = (let ys = xs @ [x] in drop (length ys - maxlen) ys)"

definition record_access :: "int \<Rightarrow> block_metrics \<Rightarrow> block_metrics" where
  "record_access now_ns bm = bm\<lparr>last_access_ns := now_ns, access_history := deque_append 4 now_ns (access_history bm)\<rparr>"

definition get_lifetime_seconds :: "int \<Rightarrow> block_metrics \<Rightarrow> rat" where
  "get_lifetime_seconds now_ns bm = of_int (now_ns - birth_time_ns bm) / 10 ^ 9"

definition get_idle_time_seconds :: "int \<Rightarrow> block_metrics \<Rightarrow> rat" where
  "get_idle_time_seconds now_ns bm = of_int (now_ns - last_access_ns bm) / 10 ^ 9"

definition get_reuse_gaps_seconds :: "block_metrics \<Rightarrow> rat list" where
  "get_reuse_gaps_seconds bm =
     (let history = access_history bm
      in if length history < 2 then []
         else map (\<lambda>i. of_int (history ! i - history ! (i - 1)) / 10 ^ 9) [1 ..< length history])"

definition should_sample_block :: "collector \<Rightarrow> bool \<times> collector" where
  "should_sample_block c = (shd (rng c) < sample_rate c, c\<lparr>rng := stl (rng c)\<rparr>)"

definition on_block_allocated :: "nat \<Rightarrow> collector \<Rightarrow> collector" where
  "on_block_allocated b c =
     (case should_sample_block c of (sample, c1) \<Rightarrow>
        if sample then
          case monotonic_ns c1 of (now, c2) \<Rightarrow> c2\<lparr>metrics_of := dict_set b (new_metrics now) (metrics_of c2)\<rparr>
        else c1)"

definition on_block_accessed :: "nat \<Rightarrow> collector \<Rightarrow> collector" where
  "on_block_accessed b c =
     (case dict_get (metrics_of c) b of
        None \<Rightarrow> c
      | Some bm \<Rightarrow>
          (case monotonic_ns c of (now, c1) \<Rightarrow> c1\<lparr>metrics_of := dict_set b (record_access now bm) (metrics_of c1)\<rparr>))"

definition on_block_evicted :: "nat \<Rightarrow> collector \<Rightarrow> collector" where
  "on_block_evicted b c =
     (case dict_get (metrics_of c) b of
        None \<Rightarrow> c
      | Some bm \<Rightarrow>
          (case monotonic_ns (c\<lparr>metrics_of := dict_del b (metrics_of c)\<rparr>) of (t1, c1) \<Rightarrow>
           case monotonic_ns c1 of (t2, c2) \<Rightarrow>
             c2\<lparr>eviction_events := eviction_events c2 @
                [\<lparr>lifetime_seconds = get_lifetime_seconds t1 bm, idle_seconds = get_idle_time_seconds t2 bm,
                  reuse_gaps_seconds = get_reuse_gaps_seconds bm\<rparr>]\<rparr>))"

definition reset_metrics :: "collector \<Rightarrow> collector" where
  "reset_metrics c = c\<lparr>metrics_of := [], eviction_events := []\<rparr>"

definition drain_events :: "collector \<Rightarrow> eviction_event list \<times> collector" where
  "drain_events c = (eviction_events c, c\<lparr>eviction_events := []\<rparr>)"

section \<open>The invariant\<close>

text \<open>
  The access times of a sampled block are increasing, between its birth and the present, at most four of them
  are kept and the newest is the time of the last access.
\<close>

definition metrics_ok :: "int \<Rightarrow> block_metrics \<Rightarrow> bool" where
  "metrics_ok now bm \<longleftrightarrow> birth_time_ns bm \<le> last_access_ns bm \<and> last_access_ns bm \<le> now \<and>
     length (access_history bm) \<le> 4 \<and> sorted (birth_time_ns bm # access_history bm) \<and>
     (access_history bm = [] \<longrightarrow> last_access_ns bm = birth_time_ns bm) \<and>
     (access_history bm \<noteq> [] \<longrightarrow> last (access_history bm) = last_access_ns bm)"

definition event_ok :: "eviction_event \<Rightarrow> bool" where
  "event_ok e \<longleftrightarrow> 0 \<le> lifetime_seconds e \<and> 0 \<le> idle_seconds e \<and> list_all (\<lambda>g. 0 \<le> g) (reuse_gaps_seconds e) \<and>
     length (reuse_gaps_seconds e) \<le> 3 \<and> sum_list (reuse_gaps_seconds e) \<le> lifetime_seconds e"

definition ticking :: "int stream \<Rightarrow> bool" where
  "ticking s \<longleftrightarrow> (\<forall>i j. i \<le> j \<longrightarrow> s !! i \<le> s !! j)"

definition dict_all :: "('v \<Rightarrow> bool) \<Rightarrow> ('k, 'v) dict \<Rightarrow> bool" where
  "dict_all P d \<longleftrightarrow> (\<forall>k v. dict_get d k = Some v \<longrightarrow> P v)"

lemma dict_all_set: "dict_all P d \<Longrightarrow> P v \<Longrightarrow> dict_all P (dict_set k v d)"
  by (simp add: dict_all_def)

lemma dict_all_del: "dict_all P d \<Longrightarrow> dict_all P (dict_del k d)"
  by (simp add: dict_all_def)

lemma dict_all_mono: "dict_all P d \<Longrightarrow> (\<And>v. P v \<Longrightarrow> Q v) \<Longrightarrow> dict_all Q d"
  by (simp add: dict_all_def)

lemma dict_all_get: "dict_all P d \<Longrightarrow> dict_get d k = Some v \<Longrightarrow> P v"
  by (simp add: dict_all_def)

definition collector_ok :: "collector \<Rightarrow> bool" where
  "collector_ok c \<longleftrightarrow> dict_ok (metrics_of c) \<and> ticking (clock c) \<and>
     dict_all (metrics_ok (shd (clock c))) (metrics_of c) \<and>
     (\<forall>e \<in> set (eviction_events c). event_ok e)"

lemma ticking_stl:
  assumes "ticking s"
  shows "ticking (stl s)" "shd s \<le> shd (stl s)"
proof -
  show "ticking (stl s)" unfolding ticking_def
  proof (intro allI impI)
    fix i j :: nat assume "i \<le> j"
    then have "s !! Suc i \<le> s !! Suc j" using assms unfolding ticking_def by blast
    then show "stl s !! i \<le> stl s !! j" by simp
  qed
  have "s !! 0 \<le> s !! Suc 0" using assms unfolding ticking_def by blast
  then show "shd s \<le> shd (stl s)" by simp
qed

lemma metrics_ok_mono: "metrics_ok now bm \<Longrightarrow> now \<le> now' \<Longrightarrow> metrics_ok now' bm"
  by (auto simp: metrics_ok_def)

lemma metrics_ok_new: "metrics_ok now (new_metrics now)"
  by (simp add: metrics_ok_def new_metrics_def)

lemma deque_append_suffix: "\<exists>ys. xs @ [x] = ys @ deque_append n x xs"
  unfolding deque_append_def Let_def by (metis append_take_drop_id)

lemma metrics_ok_access:
  assumes "metrics_ok now bm"
  shows "metrics_ok now (record_access now bm)"
proof -
  let ?xs = "access_history bm" and ?ys = "deque_append 4 now (access_history bm)"
  obtain zs where zs: "?xs @ [now] = zs @ ?ys" using deque_append_suffix [of ?xs now 4] by (elim exE)
  have le: "\<forall>x \<in> set ?xs. x \<le> last_access_ns bm"
  proof (cases ?xs rule: rev_cases)
    case (snoc us u)
    have "sorted ?xs" "last ?xs = last_access_ns bm" using assms snoc by (auto simp: metrics_ok_def)
    then show ?thesis unfolding snoc by (simp add: sorted_append)
  qed simp
  have birth: "birth_time_ns bm \<le> now" using assms by (simp add: metrics_ok_def)
  have "sorted ?xs" "\<forall>x \<in> set ?xs. birth_time_ns bm \<le> x" "last_access_ns bm \<le> now" using assms by (simp_all add: metrics_ok_def)
  then have "sorted (?xs @ [now])" "\<forall>x \<in> set (?xs @ [now]). birth_time_ns bm \<le> x" using le birth by (auto simp: sorted_append)
  then have "sorted (birth_time_ns bm # ?ys)" unfolding zs by (simp add: sorted_append)
  moreover have "?ys \<noteq> []" "length ?ys \<le> 4" by (simp_all add: deque_append_def Let_def)
  moreover have "last ?ys = now" using zs \<open>?ys \<noteq> []\<close> by (metis last_append last_snoc)
  ultimately show ?thesis using birth by (simp add: metrics_ok_def record_access_def)
qed

lemma sum_gaps:
  fixes xs :: "int list"
  shows "sum_list (map (\<lambda>i. (of_int (xs ! i - xs ! (i - 1)) :: rat) / d) [1 ..< length xs]) =
    (if xs = [] then 0 else of_int (last xs - xs ! 0) / d)"
proof (induction xs rule: rev_induct)
  case (snoc x xs)
  show ?case
  proof (cases "xs = []")
    case False
    then have up: "[1 ..< length (xs @ [x])] = [1 ..< length xs] @ [length xs]" by (cases xs) simp_all
    have m: "map (\<lambda>i. (of_int ((xs @ [x]) ! i - (xs @ [x]) ! (i - 1)) :: rat) / d) [1 ..< length xs] =
      map (\<lambda>i. of_int (xs ! i - xs ! (i - 1)) / d) [1 ..< length xs]"
      by (intro map_cong) (auto simp: nth_append)
    have l: "(xs @ [x]) ! (length xs - 1) = last xs" "(xs @ [x]) ! length xs = x" "(xs @ [x]) ! 0 = xs ! 0"
      using False by (simp_all add: nth_append last_conv_nth)
    show ?thesis
      unfolding up map_append sum_list_append m snoc.IH using False
      by (simp only: list.map sum_list_simps l) (simp add: add_divide_distrib [symmetric])
  qed simp
qed simp

lemma reuse_gaps_facts:
  assumes "metrics_ok now bm"
  shows "list_all (\<lambda>g. 0 \<le> g) (get_reuse_gaps_seconds bm)" "length (get_reuse_gaps_seconds bm) \<le> 3"
    "sum_list (get_reuse_gaps_seconds bm) \<le> of_int (now - birth_time_ns bm) / 10 ^ 9"
proof -
  let ?xs = "access_history bm"
  have s: "sorted (birth_time_ns bm # ?xs)" and l: "length ?xs \<le> 4" using assms by (simp_all add: metrics_ok_def)
  have step: "?xs ! (i - 1) \<le> ?xs ! i" if "i < length ?xs" for i
    using s that by (simp add: sorted_iff_nth_mono)
  show "list_all (\<lambda>g. 0 \<le> g) (get_reuse_gaps_seconds bm)"
    using step by (auto simp: get_reuse_gaps_seconds_def list_all_iff Let_def)
  show "length (get_reuse_gaps_seconds bm) \<le> 3" using l by (auto simp: get_reuse_gaps_seconds_def Let_def)
  show "sum_list (get_reuse_gaps_seconds bm) \<le> of_int (now - birth_time_ns bm) / 10 ^ 9"
  proof (cases "length ?xs < 2")
    case True
    have "birth_time_ns bm \<le> now" using assms by (simp add: metrics_ok_def)
    then show ?thesis using True by (simp add: get_reuse_gaps_seconds_def)
  next
    case False
    then have ne: "?xs \<noteq> []" by auto
    then have "?xs ! 0 \<in> set ?xs" by simp
    then have "birth_time_ns bm \<le> ?xs ! 0" using s by auto
    moreover have "last ?xs \<le> now" using assms ne by (simp add: metrics_ok_def)
    ultimately have "last ?xs - ?xs ! 0 \<le> now - birth_time_ns bm" by linarith
    then have "(of_int (last ?xs - ?xs ! 0) :: rat) / 10 ^ 9 \<le> of_int (now - birth_time_ns bm) / 10 ^ 9"
      by (intro divide_right_mono) (simp_all only: of_int_le_iff zero_le_power zero_le_numeral)
    then show ?thesis
      using False sum_gaps [of ?xs "10 ^ 9"] ne by (simp add: get_reuse_gaps_seconds_def Let_def)
  qed
qed

lemma collector_ok_allocated:
  assumes "collector_ok c"
  shows "collector_ok (on_block_allocated b c)"
proof -
  have t: "ticking (stl (clock c))" "shd (clock c) \<le> shd (stl (clock c))" and ok: "dict_ok (metrics_of c)"
    and d: "dict_all (metrics_ok (shd (clock c))) (metrics_of c)"
    using assms ticking_stl by (auto simp only: collector_ok_def)
  have "metrics_ok (shd (stl (clock c))) (new_metrics (shd (clock c)))" using metrics_ok_mono [OF metrics_ok_new t(2)] .
  then have "dict_all (metrics_ok (shd (stl (clock c)))) (dict_set b (new_metrics (shd (clock c))) (metrics_of c))"
    using dict_all_mono [OF d metrics_ok_mono [OF _ t(2)]] by (intro dict_all_set)
  then show ?thesis
    using assms t dict_ok_set [OF ok] by (auto simp: collector_ok_def on_block_allocated_def should_sample_block_def monotonic_ns_def simp del: map_of_eq_Some_iff)
qed

lemma collector_ok_accessed:
  assumes "collector_ok c"
  shows "collector_ok (on_block_accessed b c)"
proof (cases "dict_get (metrics_of c) b")
  case (Some bm)
  have t: "ticking (stl (clock c))" "shd (clock c) \<le> shd (stl (clock c))" and ok: "dict_ok (metrics_of c)"
    and d: "dict_all (metrics_ok (shd (clock c))) (metrics_of c)"
    using assms ticking_stl by (auto simp only: collector_ok_def)
  have "metrics_ok (shd (stl (clock c))) (record_access (shd (clock c)) bm)"
    using metrics_ok_mono [OF metrics_ok_access [OF dict_all_get [OF d Some]] t(2)] .
  then have "dict_all (metrics_ok (shd (stl (clock c)))) (dict_set b (record_access (shd (clock c)) bm) (metrics_of c))"
    using dict_all_mono [OF d metrics_ok_mono [OF _ t(2)]] by (intro dict_all_set)
  then show ?thesis
    using assms t dict_ok_set [OF ok] by (simp add: collector_ok_def on_block_accessed_def monotonic_ns_def Some del: map_of_eq_Some_iff)
qed (use assms in \<open>simp add: on_block_accessed_def\<close>)

lemma event_ok_evicted:
  assumes "metrics_ok t1 bm" "t1 \<le> t2"
  shows "event_ok \<lparr>lifetime_seconds = get_lifetime_seconds t1 bm, idle_seconds = get_idle_time_seconds t2 bm,
    reuse_gaps_seconds = get_reuse_gaps_seconds bm\<rparr>"
  using reuse_gaps_facts [OF assms(1)] assms
  by (simp add: event_ok_def get_lifetime_seconds_def get_idle_time_seconds_def metrics_ok_def)

lemma collector_ok_evicted:
  assumes "collector_ok c"
  shows "collector_ok (on_block_evicted b c)"
proof (cases "dict_get (metrics_of c) b")
  case (Some bm)
  have m: "ticking (clock c)" and ok: "dict_ok (metrics_of c)" and d: "dict_all (metrics_ok (shd (clock c))) (metrics_of c)"
    using assms by (auto simp only: collector_ok_def)
  have t: "shd (clock c) \<le> shd (stl (clock c))" "shd (stl (clock c)) \<le> shd (stl (stl (clock c)))"
    "ticking (stl (stl (clock c)))" using ticking_stl m by blast+
  have "dict_all (metrics_ok (shd (stl (stl (clock c))))) (dict_del b (metrics_of c))"
    using dict_all_mono [OF d metrics_ok_mono [OF _ order_trans [OF t(1,2)]]] by (intro dict_all_del)
  then show ?thesis
    using assms t dict_ok_del [OF ok] event_ok_evicted [OF dict_all_get [OF d Some] t(1)]
    by (simp add: collector_ok_def on_block_evicted_def monotonic_ns_def Some del: map_of_eq_Some_iff)
qed (use assms in \<open>simp add: on_block_evicted_def\<close>)

lemma collector_ok_reset: "collector_ok c \<Longrightarrow> collector_ok (reset_metrics c)"
  by (simp add: collector_ok_def reset_metrics_def dict_all_def)

section \<open>Runs of callbacks\<close>

datatype callback = Allocated nat | Accessed nat | Evicted nat | Reset | Drain

primrec callback_step :: "callback \<Rightarrow> collector \<Rightarrow> collector" where
  "callback_step (Allocated b) c = on_block_allocated b c"
| "callback_step (Accessed b) c = on_block_accessed b c"
| "callback_step (Evicted b) c = on_block_evicted b c"
| "callback_step Reset c = reset_metrics c"
| "callback_step Drain c = snd (drain_events c)"

lemma collector_ok_step: "collector_ok c \<Longrightarrow> collector_ok (callback_step cb c)"
  by (cases cb)
    (simp_all add: collector_ok_allocated collector_ok_accessed collector_ok_evicted collector_ok_reset,
     simp add: drain_events_def collector_ok_def)

lemma collector_ok_run: "collector_ok c \<Longrightarrow> collector_ok (fold callback_step cbs c)"
  by (induction cbs arbitrary: c) (simp_all add: collector_ok_step)

text \<open>
  Under a clock that does not run backwards, after any sequence of callbacks every recorded block
  keeps at most four access times, in order and not before its birth, and every eviction event has a
  non-negative lifetime, idle time and at most three non-negative reuse gaps, whose sum is at most the lifetime.
\<close>

lemma metrics_events_ok:
  fixes cbs
  assumes "new_collector rate ticks rands = Inr c" "ticking ticks"
  defines "c' \<equiv> fold callback_step cbs c"
  shows "(\<forall>e \<in> set (eviction_events c'). event_ok e) \<and>
    (\<forall>b bm. dict_get (metrics_of c') b = Some bm \<longrightarrow> metrics_ok (shd (clock c')) bm)"
proof -
  have "collector_ok c"
    using assms by (auto simp: new_collector_def collector_ok_def dict_all_def split: if_splits)
  then have "collector_ok c'" unfolding c'_def by (rule collector_ok_run)
  then show ?thesis by (simp add: collector_ok_def dict_all_def)
qed

definition demo_collector :: collector where
  "demo_collector = \<lparr>sample_rate = 1, metrics_of = [], eviction_events = [], clock = sconst 5, rng = sconst 0\<rparr>"

lemma metrics_events_ok_witness:
  "eviction_events (fold callback_step [Allocated 3, Accessed 3, Evicted 3] demo_collector) \<noteq> [] \<and>
   list_all event_ok (eviction_events (fold callback_step [Allocated 3, Accessed 3, Evicted 3] demo_collector))"
proof -
  have "new_collector 1 (sconst 5) (sconst 0) = Inr demo_collector" by (simp add: new_collector_def demo_collector_def)
  moreover have "ticking (sconst 5)" by (simp add: ticking_def)
  ultimately have "\<forall>e \<in> set (eviction_events (fold callback_step [Allocated 3, Accessed 3, Evicted 3] demo_collector)). event_ok e"
    by (rule metrics_events_ok [THEN conjunct1])
  moreover have "eviction_events (fold callback_step [Allocated 3, Accessed 3, Evicted 3] demo_collector) \<noteq> []"
    by (simp add: demo_collector_def on_block_allocated_def on_block_accessed_def on_block_evicted_def
        should_sample_block_def monotonic_ns_def)
  ultimately show ?thesis by (simp add: list_all_iff)
qed

end
