(* ===== verification/Block_Pool.thy ===== *)
theory Block_Pool
  imports Free_Queue Block_Hashing KV_Metrics
begin

text \<open>
  The block pool (\<^verbatim>\<open>vllm/v1/core/block_pool.py\<close>): allocation, reference counts, the prefix-cache index and
  the stream of cache events.

  The pool extends the record of the free queue, so the block objects stay in the store of
  \<^verbatim>\<open>Free_Queue\<close>. A block is named by its id. A Python set of hash keys is the list of its members in insertion
  order; the order in which Python iterates such a set is the field \<open>iter_order\<close>, any permutation.
  \<open>int_hashes\<close> is the environment variable that selects integer hashes in events.
\<close>

section \<open>Definitions: the index from hash keys to blocks\<close>

text \<open>A key maps to one block, or to a dictionary of blocks by id; a block is its id, so the dictionary is its keys.\<close>

datatype cached = Single nat | Multi "nat list"

type_synonym block_map = "(byte list, cached) dict"

definition get_one_block :: "block_map \<Rightarrow> byte list \<Rightarrow> nat option res" where
  "get_one_block m key =
     (case dict_get m key of
        None \<Rightarrow> Inr None
      | Some (Single b) \<Rightarrow> Inr (Some b)
      | Some (Multi []) \<Rightarrow> Inl StopIteration
      | Some (Multi (b # bs)) \<Rightarrow> Inr (Some b))"

definition contain :: "block_map \<Rightarrow> byte list \<Rightarrow> nat \<Rightarrow> bool" where
  "contain m key b =
     (case dict_get m key of None \<Rightarrow> False | Some (Single b') \<Rightarrow> b' = b | Some (Multi bs) \<Rightarrow> b \<in> set bs)"

definition list_add :: "'a \<Rightarrow> 'a list \<Rightarrow> 'a list" where
  "list_add x xs = (if x \<in> set xs then xs else xs @ [x])"

definition insert_block :: "byte list \<Rightarrow> nat \<Rightarrow> block_map \<Rightarrow> block_map" where
  "insert_block key b m =
     (case dict_get m key of
        None \<Rightarrow> dict_set key (Single b) m
      | Some (Single b') \<Rightarrow> dict_set key (Multi (list_add b [b'])) m
      | Some (Multi bs) \<Rightarrow> dict_set key (Multi (list_add b bs)) m)"

definition pop_block :: "byte list \<Rightarrow> nat \<Rightarrow> block_map \<Rightarrow> nat option \<times> block_map" where
  "pop_block key b m =
     (let m1 = dict_del key m
      in case dict_get m key of
           None \<Rightarrow> (None, m1)
         | Some (Single b') \<Rightarrow> if b' = b then (Some b', m1) else (None, dict_set key (Single b') m1)
         | Some (Multi bs) \<Rightarrow>
             let bs' = filter (\<lambda>x. x \<noteq> b) bs
             in (if b \<in> set bs then Some b else None, if bs' \<noteq> [] then dict_set key (Multi bs') m1 else m1))"

section \<open>Definitions: the pool\<close>

record stored_event =
  ev_block_hashes :: "external_hash list"
  parent_block_hash :: "external_hash option"
  ev_token_ids :: "int list"
  ev_block_size :: nat
  lora_id :: "int option"
  medium :: string
  ev_lora_name :: "string option"
  extra_keys :: "ekey list option list option"
  group_idx :: int

datatype kv_event = BlockStored stored_event | BlockRemoved "external_hash list" string int | AllBlocksCleared

record block_pool = free_queue +
  num_gpu_blocks :: nat
  enable_caching :: bool
  hash_block_size :: nat
  cached_map :: block_map
  by_block :: "(nat, byte list list) dict"
  enable_events :: bool
  kv_event_queue :: "kv_event list"
  metrics :: "collector option"
  int_hashes :: bool
  iter_order :: "byte list list \<Rightarrow> byte list list"

definition block_at :: "block_pool \<Rightarrow> nat \<Rightarrow> kv_block" where
  "block_at p b = heap p (Blk b)"

definition upd_block :: "nat \<Rightarrow> (kv_block \<Rightarrow> kv_block) \<Rightarrow> block_pool \<Rightarrow> block_pool" where
  "upd_block b f p = p\<lparr>heap := (heap p)(Blk b := f (heap p (Blk b)))\<rparr>"

definition new_pool ::
  "int \<Rightarrow> bool \<Rightarrow> nat \<Rightarrow> bool \<Rightarrow> collector option \<Rightarrow> bool \<Rightarrow> (byte list list \<Rightarrow> byte list list) \<Rightarrow> block_pool res" where
  "new_pool num_blocks caching hbs events mc use_int_hashes order =
     bind_res (py_assert (num_blocks > 0)) (\<lambda>_.
     bind_res (popleft (init_queue [0 ..< nat num_blocks] fresh_store)) (\<lambda>(null_block, q).
       Inr \<lparr>heap = (heap q)(null_block := (heap q null_block)\<lparr>is_null := True\<rparr>), num_free_blocks = num_free_blocks q,
            num_gpu_blocks = nat num_blocks, enable_caching = caching, hash_block_size = hbs, cached_map = [],
            by_block = [], enable_events = events, kv_event_queue = [], metrics = mc, int_hashes = use_int_hashes,
            iter_order = order\<rparr>))"

fun get_cached_block :: "block_pool \<Rightarrow> byte list \<Rightarrow> int list \<Rightarrow> nat list option res" where
  "get_cached_block p h [] = Inr (Some [])"
| "get_cached_block p h (g # gs) =
     bind_res (make_block_hash_with_group_id h g) (\<lambda>key.
     bind_res (get_one_block (cached_map p) key) (\<lambda>b.
       case b of
         None \<Rightarrow> Inr None
       | Some b' \<Rightarrow> bind_res (get_cached_block p h gs) (\<lambda>rest. Inr (map_option (\<lambda>bs. b' # bs) rest))))"

section \<open>Definitions: removing and inserting keys\<close>

fun pop_keys :: "byte list list \<Rightarrow> nat \<Rightarrow> block_map \<Rightarrow> byte list list \<times> block_map" where
  "pop_keys [] b m = ([], m)"
| "pop_keys (key # keys) b m =
     (case pop_block key b m of (popped, m1) \<Rightarrow>
      case pop_keys keys b m1 of (removed, m2) \<Rightarrow>
        (if popped \<noteq> None then key # removed else removed, m2))"

definition block_keys_list :: "nat \<Rightarrow> block_pool \<Rightarrow> byte list list" where
  "block_keys_list b p =
     (case block_hash (block_at p b) of None \<Rightarrow> [] | Some key \<Rightarrow> [key]) @
     (case dict_get (by_block p) b of None \<Rightarrow> [] | Some keys \<Rightarrow> iter_order p keys)"

definition remove_cached_block_hashes :: "nat \<Rightarrow> block_pool \<Rightarrow> byte list list \<times> block_pool" where
  "remove_cached_block_hashes b p =
     (let keys = block_keys_list b p; p1 = p\<lparr>by_block := dict_del b (by_block p)\<rparr>
      in if keys = [] then ([], p1)
         else case pop_keys keys b (cached_map p1) of (removed, m) \<Rightarrow>
                (removed, upd_block b reset_hash (p1\<lparr>cached_map := m\<rparr>)))"

definition removed_event :: "bool \<Rightarrow> byte list \<Rightarrow> kv_event" where
  "removed_event use_int_hashes key =
     BlockRemoved [maybe_convert_block_hash use_int_hashes (get_block_hash key)] ''GPU'' (get_group_id key)"

definition emit_block_removed_events :: "byte list list \<Rightarrow> block_pool \<Rightarrow> block_pool" where
  "emit_block_removed_events keys p =
     (if enable_events p then p\<lparr>kv_event_queue := kv_event_queue p @ map (removed_event (int_hashes p)) keys\<rparr> else p)"

definition insert_block_hash :: "byte list \<Rightarrow> nat \<Rightarrow> int option \<Rightarrow> block_pool \<Rightarrow> block_pool res" where
  "insert_block_hash key b ntoks p =
     (if block_hash (block_at p b) = Some key then Inr p
      else if contain (cached_map p) key b then Inr p
      else bind_res
        (if block_hash (block_at p b) = None then
           bind_res (set_block_hash key ntoks (block_at p b)) (\<lambda>blk. Inr (upd_block b (\<lambda>_. blk) p))
         else
           let old = (case dict_get (by_block p) b of None \<Rightarrow> [] | Some keys \<Rightarrow> keys)
           in Inr (p\<lparr>by_block := dict_set b (list_add key old) (by_block p)\<rparr>))
        (\<lambda>p1. Inr (p1\<lparr>cached_map := insert_block key b (cached_map p1)\<rparr>)))"

definition move_block_hashes :: "nat \<Rightarrow> nat \<Rightarrow> block_pool \<Rightarrow> block_pool res" where
  "move_block_hashes src dst p =
     bind_res (py_assert (block_hash (block_at p dst) = None)) (\<lambda>_.
     bind_res (py_assert (dict_get (by_block p) dst = None)) (\<lambda>_.
       let ntoks = block_hash_num_tokens (block_at p src)
       in case remove_cached_block_hashes src p of (removed, p1) \<Rightarrow>
            fold_res (\<lambda>key. insert_block_hash key dst ntoks) removed p1))"

section \<open>Definitions: caching blocks of a request\<close>

definition hashes_from :: "hash_list \<Rightarrow> nat \<Rightarrow> byte list list res" where
  "hashes_from hs start = (case hs of Raw l \<Rightarrow> Inr (drop start l) | View v \<Rightarrow> view_from v start)"

definition hash_at :: "hash_list \<Rightarrow> nat \<Rightarrow> byte list res" where
  "hash_at hs i =
     (case hs of Raw l \<Rightarrow> if i < length l then Inr (l ! i) else Inl IndexError | View v \<Rightarrow> get_value_at v i)"

definition masked :: "bool list option \<Rightarrow> nat \<Rightarrow> bool" where
  "masked block_mask i = (case block_mask of None \<Rightarrow> False | Some ms \<Rightarrow> \<not> ms ! i)"

text \<open>A new full block may carry hashes only as a partial block that is now promoted to a full one.\<close>

definition promote_partial :: "nat \<Rightarrow> int \<Rightarrow> block_pool \<Rightarrow> block_pool res" where
  "promote_partial b num_hash_tokens p =
     (if block_hash (block_at p b) \<noteq> None then
        bind_res (py_assert (case block_hash_num_tokens (block_at p b) of None \<Rightarrow> False | Some n \<Rightarrow> n < num_hash_tokens)) (\<lambda>_.
          case remove_cached_block_hashes b p of (removed, p1) \<Rightarrow> Inr (emit_block_removed_events removed p1))
      else Inr p)"

definition cache_one ::
  "byte list list \<Rightarrow> nat \<Rightarrow> nat \<Rightarrow> int \<Rightarrow> bool list option \<Rightarrow> nat \<times> nat \<Rightarrow> external_hash list \<times> block_pool \<Rightarrow>
   (external_hash list \<times> block_pool) res" where
  "cache_one new_hashes num_cached block_size gid block_mask ib st =
     (case ib of (i, b) \<Rightarrow> case st of (ext, p) \<Rightarrow>
        if is_null (block_at p b) \<or> masked block_mask i then Inr (ext, p)
        else if length new_hashes \<le> i then Inl IndexError
        else
          let num_hash_tokens = int ((num_cached + i + 1) * block_size)
          in bind_res (make_block_hash_with_group_id (new_hashes ! i) gid) (\<lambda>key.
             bind_res (promote_partial b num_hash_tokens p) (\<lambda>p1.
             bind_res (insert_block_hash key b (Some num_hash_tokens) p1) (\<lambda>p2.
               Inr (ext @ [maybe_convert_block_hash (int_hashes p) (new_hashes ! i)], p2)))))"

definition build_block_stored_event ::
  "request \<Rightarrow> external_hash list \<Rightarrow> external_hash option \<Rightarrow> nat \<Rightarrow> nat \<Rightarrow> nat \<Rightarrow> int \<Rightarrow> ekey list option list \<Rightarrow> kv_event" where
  "build_block_stored_event r hs parent start_idx end_idx block_size gid keys =
     BlockStored \<lparr>ev_block_hashes = hs, parent_block_hash = parent,
       ev_token_ids = py_slice (all_token_ids r) start_idx end_idx, ev_block_size = block_size,
       lora_id = map_option lora_int_id (lora r), medium = ''GPU'', ev_lora_name = map_option lora_name (lora r),
       extra_keys = (if keys \<noteq> [] then Some keys else None), group_idx = gid\<rparr>"

definition extra_key_step ::
  "(byte list \<Rightarrow> byte list) \<Rightarrow> nat \<Rightarrow> nat \<Rightarrow> ekey list option list \<times> int \<times> request \<Rightarrow> (ekey list option list \<times> int \<times> request) res" where
  "extra_key_step sha256 block_size i st =
     (case st of (acc, idx, r) \<Rightarrow>
        bind_res (generate_block_hash_extra_keys sha256 r (i * block_size) (i * block_size + block_size) idx)
          (\<lambda>(keys, idx', r'). Inr (acc @ [keys], idx', r')))"

definition full_extra_keys ::
  "(byte list \<Rightarrow> byte list) \<Rightarrow> block_pool \<Rightarrow> nat list \<Rightarrow> nat \<Rightarrow> nat \<Rightarrow> nat \<Rightarrow> bool list option \<Rightarrow> request \<Rightarrow>
   (ekey list option list \<times> int \<times> request) res" where
  "full_extra_keys sha256 p blocks num_cached num_full block_size block_mask r =
     fold_res (\<lambda>i st.
         if length blocks \<le> i then Inl IndexError
         else if is_null (block_at p (blocks ! i)) then Inr st
         else if masked block_mask (i - num_cached) then Inr st
         else extra_key_step sha256 block_size i st)
       [num_cached ..< num_full] ([], 0, r)"

definition store_full_event ::
  "(byte list \<Rightarrow> byte list) \<Rightarrow> request \<Rightarrow> nat list \<Rightarrow> nat \<Rightarrow> nat \<Rightarrow> nat \<Rightarrow> int \<Rightarrow> bool list option \<Rightarrow> hash_list \<Rightarrow>
   external_hash list \<Rightarrow> block_pool \<Rightarrow> (request \<times> block_pool) res" where
  "store_full_event sha256 r blocks num_cached num_full block_size gid block_mask hs ext p =
     (if enable_events p then
        bind_res (if num_cached = 0 then Inr None
                  else bind_res (hash_at hs (num_cached - 1)) (\<lambda>h. Inr (Some (maybe_convert_block_hash (int_hashes p) h)))) (\<lambda>parent.
        bind_res (full_extra_keys sha256 p blocks num_cached num_full block_size block_mask r) (\<lambda>(keys, _, r').
          Inr (r', p\<lparr>kv_event_queue := kv_event_queue p @
            [build_block_stored_event r' ext parent (num_cached * block_size) (num_full * block_size) block_size gid keys]\<rparr>)))
      else Inr (r, p))"

definition cache_full_blocks ::
  "(byte list \<Rightarrow> byte list) \<Rightarrow> request \<Rightarrow> nat list \<Rightarrow> nat \<Rightarrow> nat \<Rightarrow> nat \<Rightarrow> int \<Rightarrow> bool list option \<Rightarrow> block_pool \<Rightarrow>
   (request \<times> block_pool) res" where
  "cache_full_blocks sha256 r blocks num_cached num_full block_size gid block_mask p =
     (if num_cached \<ge> num_full then Inr (r, p)
      else
        let new_full_blocks = py_slice blocks num_cached num_full
        in bind_res (py_assert (case block_mask of None \<Rightarrow> True | Some ms \<Rightarrow> length ms = length new_full_blocks)) (\<lambda>_.
           bind_res (resolve_block_hashes (Raw (block_hashes r)) (hash_block_size p) block_size False None) (\<lambda>hs.
           bind_res (hashes_from hs num_cached) (\<lambda>new_block_hashes.
           bind_res (fold_res (cache_one new_block_hashes num_cached block_size gid block_mask)
                       (zip [0 ..< length new_full_blocks] new_full_blocks) ([], p)) (\<lambda>(ext, p1).
             store_full_event sha256 r blocks num_cached num_full block_size gid block_mask hs ext p1)))))"

definition cached_event_step ::
  "(byte list \<Rightarrow> byte list) \<Rightarrow> bool \<Rightarrow> hash_list \<Rightarrow> nat \<Rightarrow> nat \<Rightarrow>
   external_hash list \<times> ekey list option list \<times> int \<times> request \<Rightarrow>
   (external_hash list \<times> ekey list option list \<times> int \<times> request) res" where
  "cached_event_step sha256 use_int_hashes hs block_size i st =
     (case st of (ext, keys_st) \<Rightarrow>
        bind_res (hash_at hs i) (\<lambda>h.
        bind_res (extra_key_step sha256 block_size i keys_st) (\<lambda>keys_st'.
          Inr (ext @ [maybe_convert_block_hash use_int_hashes h], keys_st'))))"

definition emit_cached_block_events ::
  "(byte list \<Rightarrow> byte list) \<Rightarrow> request \<Rightarrow> nat \<Rightarrow> nat \<Rightarrow> int \<Rightarrow> block_pool \<Rightarrow> (request \<times> block_pool) res" where
  "emit_cached_block_events sha256 r num_cached block_size gid p =
     (if \<not> enable_events p \<or> num_cached = 0 then Inr (r, p)
      else
        bind_res (resolve_block_hashes (Raw (block_hashes r)) (hash_block_size p) block_size False None) (\<lambda>hs.
        bind_res (fold_res (cached_event_step sha256 (int_hashes p) hs block_size) [0 ..< num_cached] ([], [], 0, r)) (\<lambda>(ext, keys, _, r').
          if ext = [] then Inr (r', p)
          else Inr (r', p\<lparr>kv_event_queue := kv_event_queue p @
                 [build_block_stored_event r' ext None 0 (num_cached * block_size) block_size gid keys]\<rparr>))))"

definition get_partial_block_hash :: "request \<Rightarrow> nat \<Rightarrow> block_pool \<Rightarrow> byte list res" where
  "get_partial_block_hash r ntoks p =
     (if hash_block_size p = 0 then Inl ZeroDivisionError
      else bind_res (py_assert (ntoks mod hash_block_size p = 0)) (\<lambda>_.
           let n = ntoks div hash_block_size p
           in bind_res (py_assert (0 < n \<and> n \<le> length (block_hashes r))) (\<lambda>_. Inr (block_hashes r ! (n - 1)))))"

definition get_partial_block_parent_hash_and_start :: "request \<Rightarrow> nat \<Rightarrow> block_pool \<Rightarrow> (byte list option \<times> nat) res" where
  "get_partial_block_parent_hash_and_start r ntoks p =
     (if hash_block_size p = 0 then Inl ZeroDivisionError
      else let n = ntoks div hash_block_size p
           in bind_res (if n > 1 then
                          if n - 2 < length (block_hashes r) then Inr (Some (block_hashes r ! (n - 2))) else Inl IndexError
                        else Inr None) (\<lambda>parent. Inr (parent, (n - 1) * hash_block_size p)))"

definition already_cached :: "byte list \<Rightarrow> nat \<Rightarrow> block_pool \<Rightarrow> bool" where
  "already_cached key b p \<longleftrightarrow> block_hash (block_at p b) = Some key \<or> contain (cached_map p) key b"

definition replace_shorter :: "byte list \<Rightarrow> nat \<Rightarrow> int \<Rightarrow> block_pool \<Rightarrow> block_pool" where
  "replace_shorter key b covered p =
     (if \<not> already_cached key b p \<and> block_hash (block_at p b) \<noteq> None \<and>
         (case block_hash_num_tokens (block_at p b) of None \<Rightarrow> False | Some n \<Rightarrow> n < covered)
      then case remove_cached_block_hashes b p of (removed, q) \<Rightarrow> emit_block_removed_events removed q
      else p)"

definition build_partial_stored_event ::
  "bool \<Rightarrow> request \<Rightarrow> byte list \<Rightarrow> byte list option \<Rightarrow> nat \<Rightarrow> nat \<Rightarrow> int \<Rightarrow> ekey list option \<Rightarrow> kv_event" where
  "build_partial_stored_event use_int_hashes r h parent block_start block_end gid keys =
     BlockStored \<lparr>ev_block_hashes = [maybe_convert_block_hash use_int_hashes h],
       parent_block_hash = map_option (maybe_convert_block_hash use_int_hashes) parent,
       ev_token_ids = py_slice (all_token_ids r) block_start block_end, ev_block_size = block_end - block_start,
       lora_id = map_option lora_int_id (lora r), medium = ''GPU'', ev_lora_name = map_option lora_name (lora r),
       extra_keys = Some [keys], group_idx = gid\<rparr>"

definition store_partial_event ::
  "(byte list \<Rightarrow> byte list) \<Rightarrow> request \<Rightarrow> byte list \<Rightarrow> nat \<Rightarrow> int \<Rightarrow> block_pool \<Rightarrow> (request \<times> block_pool) res" where
  "store_partial_event sha256 r h ntoks gid p =
     bind_res (get_partial_block_parent_hash_and_start r ntoks p) (\<lambda>(parent, block_start).
     bind_res (generate_block_hash_extra_keys sha256 r block_start ntoks (if block_start > 0 then - 1 else 0)) (\<lambda>(keys, _, r').
       Inr (r', p\<lparr>kv_event_queue := kv_event_queue p @
         [build_partial_stored_event (int_hashes p) r' h parent block_start ntoks gid keys]\<rparr>)))"

definition cache_partial_block ::
  "(byte list \<Rightarrow> byte list) \<Rightarrow> request \<Rightarrow> nat \<Rightarrow> nat \<Rightarrow> int \<Rightarrow> nat \<Rightarrow> block_pool \<Rightarrow>
   (byte list option \<times> request \<times> block_pool) res" where
  "cache_partial_block sha256 r b ntoks gid block_size p =
     (if is_null (block_at p b) then Inr (None, r, p)
      else
        bind_res (py_assert (block_size > hash_block_size p)) (\<lambda>_.
        if hash_block_size p = 0 then Inl ZeroDivisionError
        else
        bind_res (py_assert (block_size mod hash_block_size p = 0)) (\<lambda>_.
        bind_res (py_assert (ntoks mod block_size \<noteq> 0)) (\<lambda>_.
        bind_res (get_partial_block_hash r ntoks p) (\<lambda>h.
        bind_res (make_block_hash_with_group_id h gid) (\<lambda>key.
          let covered = int (ntoks div hash_block_size p * hash_block_size p)
          in bind_res (insert_block_hash key b (Some covered) (replace_shorter key b covered p)) (\<lambda>p2.
             if enable_events p2 \<and> \<not> already_cached key b p then
               bind_res (store_partial_event sha256 r h ntoks gid p2) (\<lambda>(r', p3). Inr (Some key, r', p3))
             else Inr (Some key, r, p2))))))))"

section \<open>Definitions: allocation and release\<close>

definition on_metrics :: "(collector \<Rightarrow> collector) \<Rightarrow> block_pool \<Rightarrow> block_pool" where
  "on_metrics f p = (case metrics p of None \<Rightarrow> p | Some c \<Rightarrow> p\<lparr>metrics := Some (f c)\<rparr>)"

definition maybe_evict_cached_block :: "nat \<Rightarrow> block_pool \<Rightarrow> bool \<times> block_pool" where
  "maybe_evict_cached_block b p =
     (case remove_cached_block_hashes b (on_metrics (on_block_evicted b) p) of (removed, p1) \<Rightarrow>
        if removed = [] then (False, p1) else (True, emit_block_removed_events removed p1))"

text \<open>The queue returns references; those of pool blocks are \<open>Blk\<close>.\<close>

definition ref_id :: "bref \<Rightarrow> nat" where
  "ref_id r = (case r of Blk b \<Rightarrow> b | _ \<Rightarrow> 0)"

definition take_block :: "nat \<Rightarrow> block_pool \<Rightarrow> block_pool res" where
  "take_block b p =
     (let p1 = (if enable_caching p then snd (maybe_evict_cached_block b p) else p)
      in bind_res (py_assert (ref_cnt (block_at p1 b) = 0)) (\<lambda>_.
           Inr (on_metrics (on_block_allocated b) (upd_block b (\<lambda>blk. blk\<lparr>ref_cnt := ref_cnt blk + 1\<rparr>) p1))))"

definition get_new_blocks :: "nat \<Rightarrow> block_pool \<Rightarrow> (nat list \<times> block_pool) res" where
  "get_new_blocks n p =
     (if int n > num_free_blocks p then Inl ValueError
      else bind_res (popleft_n n p) (\<lambda>(ret, p1).
           bind_res (fold_res take_block (map ref_id ret) p1) (\<lambda>p2. Inr (map ref_id ret, p2))))"

definition touch_one :: "nat \<Rightarrow> block_pool \<Rightarrow> block_pool res" where
  "touch_one b p =
     bind_res (if ref_cnt (block_at p b) = 0 \<and> \<not> is_null (block_at p b) then remove_q (Blk b) p else Inr p) (\<lambda>p1.
       Inr (on_metrics (on_block_accessed b) (upd_block b (\<lambda>blk. blk\<lparr>ref_cnt := ref_cnt blk + 1\<rparr>) p1)))"

definition touch :: "nat list \<Rightarrow> block_pool \<Rightarrow> block_pool res" where
  "touch blocks p = fold_res touch_one blocks p"

definition free_one :: "nat \<Rightarrow> nat list \<times> nat list \<times> block_pool \<Rightarrow> nat list \<times> nat list \<times> block_pool" where
  "free_one b st =
     (case st of (evict_first, evict_last, p) \<Rightarrow>
        let p1 = upd_block b (\<lambda>blk. blk\<lparr>ref_cnt := ref_cnt blk - 1\<rparr>) p; blk = block_at p1 b
        in if ref_cnt blk = 0 \<and> \<not> is_null blk then
             if block_hash blk = None \<or> \<not> enable_caching p1 then (evict_first @ [b], evict_last, p1)
             else (evict_first, evict_last @ [b], p1)
           else (evict_first, evict_last, p1))"

definition free_blocks :: "nat list \<Rightarrow> block_pool \<Rightarrow> block_pool res" where
  "free_blocks blocks p =
     (case fold free_one blocks ([], [], p) of (evict_first, evict_last, p1) \<Rightarrow>
        bind_res (prepend_n (map Blk evict_first) p1) (append_n (map Blk evict_last)))"

definition evict_one :: "nat \<Rightarrow> block_pool \<Rightarrow> block_pool res" where
  "evict_one b p = bind_res (py_assert (b < num_gpu_blocks p)) (\<lambda>_. Inr (snd (maybe_evict_cached_block b p)))"

definition evict_blocks :: "nat list \<Rightarrow> block_pool \<Rightarrow> block_pool res" where
  "evict_blocks ids p = fold_res evict_one ids p"

definition get_num_free_blocks :: "block_pool \<Rightarrow> int" where
  "get_num_free_blocks p = num_free_blocks p"

definition reset_prefix_cache :: "block_pool \<Rightarrow> bool \<times> block_pool" where
  "reset_prefix_cache p =
     (if int (num_gpu_blocks p) - get_num_free_blocks p \<noteq> 1 then (False, p)
      else
        let p1 = p\<lparr>cached_map := [], by_block := []\<rparr>;
            p2 = fold (\<lambda>b. upd_block b reset_hash) [0 ..< num_gpu_blocks p1] p1;
            p3 = on_metrics reset_metrics p2
        in (True, if enable_events p3 then p3\<lparr>kv_event_queue := kv_event_queue p3 @ [AllBlocksCleared]\<rparr> else p3))"

definition get_usage :: "block_pool \<Rightarrow> rat" where
  "get_usage p =
     (let total_blocks = int (num_gpu_blocks p) - 1
      in if total_blocks = 0 then 0 else 1 - of_int (get_num_free_blocks p) / of_int total_blocks)"

definition take_events :: "block_pool \<Rightarrow> kv_event list \<times> block_pool" where
  "take_events p = (if enable_events p then (kv_event_queue p, p\<lparr>kv_event_queue := []\<rparr>) else ([], p))"

section \<open>The interface of the index\<close>

text \<open>
  \<open>block_index\<close> is what the pool relies on: an index from keys to sets of blocks in which a lookup returns some
  member, an insertion adds exactly one block under one key, and a removal takes exactly one away and says
  whether it was there.
\<close>

locale block_index =
  fixes ok :: "'m \<Rightarrow> bool"
    and mem :: "'m \<Rightarrow> 'k \<Rightarrow> nat set"
    and one :: "'m \<Rightarrow> 'k \<Rightarrow> nat option res"
    and cont :: "'m \<Rightarrow> 'k \<Rightarrow> nat \<Rightarrow> bool"
    and ins :: "'k \<Rightarrow> nat \<Rightarrow> 'm \<Rightarrow> 'm"
    and pop :: "'k \<Rightarrow> nat \<Rightarrow> 'm \<Rightarrow> nat option \<times> 'm"
  assumes one_hit: "ok m \<Longrightarrow> mem m k \<noteq> {} \<Longrightarrow> \<exists>b \<in> mem m k. one m k = Inr (Some b)"
    and one_miss: "ok m \<Longrightarrow> mem m k = {} \<Longrightarrow> one m k = Inr None"
    and cont_mem: "cont m k b \<longleftrightarrow> b \<in> mem m k"
    and ins_mem: "mem (ins k b m) k' = (if k' = k then insert b (mem m k') else mem m k')"
    and ins_ok: "ok m \<Longrightarrow> ok (ins k b m)"
    and pop_val: "fst (pop k b m) = (if b \<in> mem m k then Some b else None)"
    and pop_mem: "mem (snd (pop k b m)) k' = (if k' = k then mem m k' - {b} else mem m k')"
    and pop_ok: "ok m \<Longrightarrow> ok (snd (pop k b m))"
begin

lemma one_mem: "ok m \<Longrightarrow> one m k = Inr (Some b) \<Longrightarrow> b \<in> mem m k"
  using one_hit [of m k] one_miss [of m k] by (cases "mem m k = {}") auto

lemma one_after_ins: "ok m \<Longrightarrow> \<exists>b' \<in> insert b (mem m k). one (ins k b m) k = Inr (Some b')"
  using one_hit [OF ins_ok, of m k b k] by (simp add: ins_mem)

lemma pop_all:
  assumes nil: "\<And>m. f [] m = ([], m)"
    and cons: "\<And>k ks m. f (k # ks) m =
      (case pop k b m of (x, m1) \<Rightarrow> case f ks m1 of (rs, m2) \<Rightarrow> (if x \<noteq> None then k # rs else rs, m2))"
  shows "ok m \<Longrightarrow> distinct ks \<Longrightarrow>
    fst (f ks m) = filter (\<lambda>k. b \<in> mem m k) ks \<and> ok (snd (f ks m)) \<and>
    (\<forall>k. mem (snd (f ks m)) k = (if k \<in> set ks then mem m k - {b} else mem m k))"
proof (induction ks arbitrary: m)
  case (Cons k ks)
  obtain x m1 where pop: "pop k b m = (x, m1)" by fastforce
  obtain rs m2 where f: "f ks m1 = (rs, m2)" by fastforce
  have m1: "ok m1" "mem m1 k' = (if k' = k then mem m k' - {b} else mem m k')" for k'
    using pop_ok [OF Cons.prems(1), of k b] pop_mem [of k b m k'] by (simp_all add: pop)
  have "filter (\<lambda>k. b \<in> mem m1 k) ks = filter (\<lambda>k. b \<in> mem m k) ks"
    using Cons.prems(2) by (intro filter_cong) (auto simp: m1(2))
  moreover have "x = (if b \<in> mem m k then Some b else None)" using pop_val [of k b m] by (simp add: pop)
  moreover have "f (k # ks) m = (if x \<noteq> None then k # rs else rs, m2)" by (simp add: cons pop f)
  ultimately show ?case using Cons.IH [OF m1(1)] Cons.prems(2) f by (simp add: m1(2))
qed (simp add: nil)

end

definition members :: "block_map \<Rightarrow> byte list \<Rightarrow> nat set" where
  "members m key = (case dict_get m key of None \<Rightarrow> {} | Some (Single b) \<Rightarrow> {b} | Some (Multi bs) \<Rightarrow> set bs)"

definition map_ok :: "block_map \<Rightarrow> bool" where
  "map_ok m \<longleftrightarrow> (\<forall>key. dict_get m key \<noteq> Some (Multi []))"

lemma set_list_add [simp]: "set (list_add x xs) = insert x (set xs)"
  by (auto simp: list_add_def)

lemma list_add_ne [simp]: "list_add x xs \<noteq> []"
  by (auto simp: list_add_def)

lemma distinct_list_add [simp]: "distinct (list_add x xs) = distinct xs"
  by (simp add: list_add_def)

lemmas index_defs = members_def map_ok_def get_one_block_def contain_def insert_block_def pop_block_def

interpretation bi: block_index map_ok members get_one_block contain insert_block pop_block
proof unfold_locales
  fix m key
  show "map_ok m \<Longrightarrow> members m key \<noteq> {} \<Longrightarrow> \<exists>b \<in> members m key. get_one_block m key = Inr (Some b)"
    by (fastforce simp: index_defs split: option.splits cached.splits list.splits)
  show "map_ok m \<Longrightarrow> members m key = {} \<Longrightarrow> get_one_block m key = Inr None"
    by (auto simp: index_defs split: option.splits cached.splits)
qed (auto simp: index_defs Let_def filter_empty_conv split: option.splits cached.splits)

lemma pop_keys_facts:
  assumes "map_ok m" "distinct keys"
  shows "fst (pop_keys keys b m) = filter (\<lambda>k. b \<in> members m k) keys" "map_ok (snd (pop_keys keys b m))"
    "members (snd (pop_keys keys b m)) k = (if k \<in> set keys then members m k - {b} else members m k)"
proof -
  have "fst (pop_keys keys b m) = filter (\<lambda>k. b \<in> members m k) keys \<and> map_ok (snd (pop_keys keys b m)) \<and>
    (\<forall>k. members (snd (pop_keys keys b m)) k = (if k \<in> set keys then members m k - {b} else members m k))"
    by (rule bi.pop_all [where f = "\<lambda>ks m. pop_keys ks b m", OF _ _ assms]) simp_all
  then show "fst (pop_keys keys b m) = filter (\<lambda>k. b \<in> members m k) keys" "map_ok (snd (pop_keys keys b m))"
    "members (snd (pop_keys keys b m)) k = (if k \<in> set keys then members m k - {b} else members m k)" by blast+
qed

end
