(* ===== verification/Pool_Invariant.thy ===== *)
theory Pool_Invariant
  imports Block_Pool "HOL-Library.Multiset"
begin

text \<open>
  The invariant of the block pool and its preservation by every operation of
  \<^verbatim>\<open>vllm/v1/core/block_pool.py\<close>.

  The state falls into two halves. The index half is the hash keys of the blocks and the map from keys to
  blocks, the reference half the reference counts and the free list. \<open>index_frame\<close> and \<open>ref_frame\<close> say that an
  operation leaves the other half alone.
\<close>

section \<open>The invariant\<close>

definition keys_of :: "block_pool \<Rightarrow> nat \<Rightarrow> byte list set" where
  "keys_of p b = {key. block_hash (block_at p b) = Some key \<or> (\<exists>ks. dict_get (by_block p) b = Some ks \<and> key \<in> set ks)}"

definition extra_ok :: "block_pool \<Rightarrow> nat \<Rightarrow> bool" where
  "extra_ok p b \<longleftrightarrow> (\<forall>ks. dict_get (by_block p) b = Some ks \<longrightarrow>
     distinct ks \<and> (\<exists>key. block_hash (block_at p b) = Some key \<and> key \<notin> set ks))"

definition index_ok :: "block_pool \<Rightarrow> bool" where
  "index_ok p \<longleftrightarrow> map_ok (cached_map p) \<and> (\<forall>key b. b \<in> members (cached_map p) key \<longleftrightarrow> key \<in> keys_of p b) \<and>
     (\<forall>b. extra_ok p b \<and> (block_hash (block_at p b) = None \<longleftrightarrow> block_hash_num_tokens (block_at p b) = None)) \<and>
     (\<forall>b. keys_of p b \<noteq> {} \<longrightarrow> 0 < b \<and> b < num_gpu_blocks p \<and> enable_caching p) \<and>
     (\<forall>xs. mset (iter_order p xs) = mset xs)"

text \<open>
  The free list holds the blocks without references; \<open>limbo\<close> are those that an operation has taken out of the
  list, or is about to put there. It is empty between operations.
\<close>

definition refs_ok :: "block_pool \<Rightarrow> nat list \<Rightarrow> nat set \<Rightarrow> bool" where
  "refs_ok p free limbo \<longleftrightarrow> represents p free \<and> set free \<subseteq> {1 ..< num_gpu_blocks p} \<and> 0 < num_gpu_blocks p \<and>
     limbo \<subseteq> {1 ..< num_gpu_blocks p} \<and> set free \<inter> limbo = {} \<and>
     (\<forall>b \<in> {1 ..< num_gpu_blocks p}. 0 \<le> ref_cnt (block_at p b) \<and>
        (ref_cnt (block_at p b) = 0 \<longleftrightarrow> b \<in> set free \<union> limbo)) \<and>
     (\<forall>b < num_gpu_blocks p. block_id (block_at p b) = int b \<and> (is_null (block_at p b) \<longleftrightarrow> b = 0))"

definition same_consts :: "block_pool \<Rightarrow> block_pool \<Rightarrow> bool" where
  "same_consts p q \<longleftrightarrow> num_gpu_blocks q = num_gpu_blocks p \<and> enable_caching q = enable_caching p \<and>
     hash_block_size q = hash_block_size p \<and> enable_events q = enable_events p \<and> int_hashes q = int_hashes p \<and>
     iter_order q = iter_order p"

definition links :: "kv_block \<Rightarrow> bref option \<times> bref option" where
  "links b = (prev_free_block b, next_free_block b)"

definition index_frame :: "block_pool \<Rightarrow> block_pool \<Rightarrow> bool" where
  "index_frame p q \<longleftrightarrow> same_consts p q \<and> num_free_blocks q = num_free_blocks p \<and> (\<forall>r. links (heap q r) = links (heap p r)) \<and>
     (\<forall>b. block_id (block_at q b) = block_id (block_at p b) \<and> ref_cnt (block_at q b) = ref_cnt (block_at p b) \<and>
          is_null (block_at q b) = is_null (block_at p b))"

definition ref_frame :: "block_pool \<Rightarrow> block_pool \<Rightarrow> bool" where
  "ref_frame p q \<longleftrightarrow> same_consts p q \<and> cached_map q = cached_map p \<and> by_block q = by_block p \<and> kv_event_queue q = kv_event_queue p \<and>
     (\<forall>b. block_hash (block_at q b) = block_hash (block_at p b) \<and>
          block_hash_num_tokens (block_at q b) = block_hash_num_tokens (block_at p b) \<and>
          block_id (block_at q b) = block_id (block_at p b) \<and> is_null (block_at q b) = is_null (block_at p b))"

section \<open>Frames\<close>

lemma index_frame_refl: "index_frame p p"
  by (simp add: index_frame_def same_consts_def)

lemma index_frame_trans: "index_frame p q \<Longrightarrow> index_frame q r \<Longrightarrow> index_frame p r"
  by (simp add: index_frame_def same_consts_def)

lemma ref_frame_refl: "ref_frame p p"
  by (simp add: ref_frame_def same_consts_def)

lemma ref_frame_trans: "ref_frame p q \<Longrightarrow> ref_frame q r \<Longrightarrow> ref_frame p r"
  by (simp add: ref_frame_def same_consts_def)

lemma linked_cong: "(\<And>r. links (h' r) = links (h r)) \<Longrightarrow> linked h' l = linked h l"
  by (rule linked_frame) (simp_all add: links_def)

lemma represents_cong:
  assumes "\<And>r. links (heap q r) = links (heap p r)" "num_free_blocks q = num_free_blocks p"
  shows "represents q xs = represents p xs"
proof -
  have "linked (heap q) l = linked (heap p) l" for l using assms(1) by (rule linked_cong)
  moreover have "prev_free_block (heap q r) = prev_free_block (heap p r)" "next_free_block (heap q r) = next_free_block (heap p r)" for r
    using assms(1) [of r] by (simp_all add: links_def)
  ultimately show ?thesis by (simp only: represents_def spells_def assms(2))
qed

lemma refs_ok_frame:
  assumes "index_frame p q" "refs_ok p free limbo"
  shows "refs_ok q free limbo"
proof -
  have "represents q free = represents p free" using assms(1) by (intro represents_cong) (simp_all add: index_frame_def)
  then show ?thesis using assms unfolding refs_ok_def index_frame_def same_consts_def by simp
qed

lemma keys_of_frame: "ref_frame p q \<Longrightarrow> keys_of q b = keys_of p b"
  by (simp add: keys_of_def ref_frame_def)

lemma extra_ok_frame: "ref_frame p q \<Longrightarrow> extra_ok q b = extra_ok p b"
  by (simp add: extra_ok_def ref_frame_def)

lemma index_ok_frame: "ref_frame p q \<Longrightarrow> index_ok p \<Longrightarrow> index_ok q"
  using keys_of_frame [of p q] extra_ok_frame [of p q] unfolding index_ok_def by (simp add: ref_frame_def same_consts_def)

lemma block_at_upd [simp]: "block_at (upd_block b f p) c = (if c = b then f (block_at p b) else block_at p c)"
  by (simp add: block_at_def upd_block_def)

lemma upd_block_sel [simp]:
  "num_free_blocks (upd_block b f p) = num_free_blocks p" "num_gpu_blocks (upd_block b f p) = num_gpu_blocks p"
  "enable_caching (upd_block b f p) = enable_caching p" "hash_block_size (upd_block b f p) = hash_block_size p"
  "cached_map (upd_block b f p) = cached_map p" "by_block (upd_block b f p) = by_block p"
  "enable_events (upd_block b f p) = enable_events p" "kv_event_queue (upd_block b f p) = kv_event_queue p"
  "metrics (upd_block b f p) = metrics p" "int_hashes (upd_block b f p) = int_hashes p"
  "iter_order (upd_block b f p) = iter_order p"
  by (simp_all add: upd_block_def)

lemma block_at_sel [simp]:
  "block_at (p\<lparr>cached_map := m\<rparr>) b = block_at p b" "block_at (p\<lparr>by_block := d\<rparr>) b = block_at p b"
  "block_at (p\<lparr>kv_event_queue := e\<rparr>) b = block_at p b" "block_at (p\<lparr>metrics := c\<rparr>) b = block_at p b"
  by (simp_all add: block_at_def)

lemma links_upd: "(\<And>x. links (f x) = links x) \<Longrightarrow> links (heap (upd_block b f p) r) = links (heap p r)"
  by (simp add: upd_block_def)

lemma upd_block_index_frame:
  assumes "\<And>x. links (f x) = links x \<and> block_id (f x) = block_id x \<and> ref_cnt (f x) = ref_cnt x \<and> is_null (f x) = is_null x"
  shows "index_frame p (upd_block b f p)"
  using assms by (simp add: index_frame_def same_consts_def links_upd)

lemma on_metrics_frames: "index_frame p (on_metrics f p)" "ref_frame p (on_metrics f p)"
  by (simp_all add: on_metrics_def index_frame_def ref_frame_def same_consts_def split: option.splits)

lemma emit_removed_frame: "index_frame p (emit_block_removed_events keys p)"
  by (simp add: emit_block_removed_events_def index_frame_def same_consts_def)

lemma emit_removed_consts [simp]:
  "num_gpu_blocks (emit_block_removed_events keys p) = num_gpu_blocks p"
  "enable_caching (emit_block_removed_events keys p) = enable_caching p"
  "iter_order (emit_block_removed_events keys p) = iter_order p" "int_hashes (emit_block_removed_events keys p) = int_hashes p"
  "enable_events (emit_block_removed_events keys p) = enable_events p"
  "hash_block_size (emit_block_removed_events keys p) = hash_block_size p"
  by (simp_all add: emit_block_removed_events_def)

lemma emit_removed_sel [simp]:
  "cached_map (emit_block_removed_events keys p) = cached_map p" "by_block (emit_block_removed_events keys p) = by_block p"
  "block_at (emit_block_removed_events keys p) b = block_at p b"
  by (simp_all add: emit_block_removed_events_def)

lemma emit_removed_keys [simp]: "keys_of (emit_block_removed_events keys p) b = keys_of p b"
  by (simp add: keys_of_def)

lemma emit_removed_ok: "index_ok p \<Longrightarrow> index_ok (emit_block_removed_events keys p)"
  by (simp add: index_ok_def extra_ok_def)

section \<open>Index operations\<close>

text \<open>The effect of an operation on the keys of the blocks: those of \<open>b\<close> become \<open>ks\<close>.\<close>

definition keys_set :: "block_pool \<Rightarrow> nat \<Rightarrow> byte list set \<Rightarrow> block_pool \<Rightarrow> bool" where
  "keys_set p b ks q \<longleftrightarrow> index_ok q \<and> index_frame p q \<and> keys_of q b = ks \<and> (\<forall>c. c \<noteq> b \<longrightarrow> keys_of q c = keys_of p c)"

lemma block_keys_list_facts:
  assumes "index_ok p"
  shows "set (block_keys_list b p) = keys_of p b" "distinct (block_keys_list b p)"
    "block_keys_list b p = [] \<longleftrightarrow> block_hash (block_at p b) = None"
proof -
  have perm: "mset (iter_order p xs) = mset xs" for xs using assms by (simp add: index_ok_def)
  have s: "set (iter_order p xs) = set xs" for xs using perm by (metis set_mset_mset)
  have d: "distinct (iter_order p xs) = distinct xs" for xs using perm by (metis mset_eq_imp_distinct_iff)
  have x: "extra_ok p b" using assms by (simp add: index_ok_def)
  show "set (block_keys_list b p) = keys_of p b"
    by (auto simp: block_keys_list_def keys_of_def s split: option.splits)
  show "distinct (block_keys_list b p)" using x by (auto simp: block_keys_list_def extra_ok_def s d split: option.splits)
  show "block_keys_list b p = [] \<longleftrightarrow> block_hash (block_at p b) = None"
    using x by (auto simp: block_keys_list_def extra_ok_def split: option.splits)
qed

lemma remove_hashes_facts:
  assumes "index_ok p" "remove_cached_block_hashes b p = (removed, q)"
  shows "removed = block_keys_list b p" "keys_set p b {} q" "kv_event_queue q = kv_event_queue p"
proof -
  note ks = block_keys_list_facts [OF assms(1), of b]
  have m: "map_ok (cached_map p)" "\<And>k c. c \<in> members (cached_map p) k \<longleftrightarrow> k \<in> keys_of p c" using assms(1) by (simp_all add: index_ok_def)
  have all: "filter (\<lambda>k. b \<in> members (cached_map p) k) (block_keys_list b p) = block_keys_list b p"
    using ks(1) m(2) by (intro filter_True) blast
  let ?p1 = "p\<lparr>by_block := dict_del b (by_block p)\<rparr>"
  show rem: "removed = block_keys_list b p"
    using assms(2) pop_keys_facts(1) [OF m(1) ks(2), of b] all
    by (auto simp: remove_cached_block_hashes_def Let_def split: if_splits prod.splits)
  show "kv_event_queue q = kv_event_queue p"
    using assms(2) by (auto simp: remove_cached_block_hashes_def Let_def split: if_splits prod.splits)
  show "keys_set p b {} q"
  proof (cases "block_keys_list b p = []")
    case True
    then have q: "q = ?p1" and h: "block_hash (block_at p b) = None"
      using assms(2) ks(3) by (simp_all add: remove_cached_block_hashes_def Let_def)
    have "extra_ok p b" using assms(1) by (simp add: index_ok_def)
    then have "dict_get (by_block p) b = None" using h by (cases "dict_get (by_block p) b") (simp_all add: extra_ok_def)
    then have "keys_of q c = keys_of p c" "extra_ok q c = extra_ok p c" for c unfolding q by (simp_all add: keys_of_def extra_ok_def)
    moreover have "keys_of p b = {}" using ks(1) True by simp
    ultimately show ?thesis
      using assms(1) unfolding keys_set_def index_ok_def by (simp add: q index_frame_def same_consts_def)
  next
    case False
    let ?m = "snd (pop_keys (block_keys_list b p) b (cached_map p))"
    have q: "q = upd_block b reset_hash (?p1\<lparr>cached_map := ?m\<rparr>)"
      using assms(2) False by (auto simp: remove_cached_block_hashes_def Let_def split: prod.splits)
    have mem: "members ?m k = (if k \<in> keys_of p b then members (cached_map p) k - {b} else members (cached_map p) k)" for k
      using pop_keys_facts(3) [OF m(1) ks(2), of b k] by (simp add: ks(1))
    have k: "keys_of q c = (if c = b then {} else keys_of p c)" for c by (simp add: q keys_of_def reset_hash_def)
    have "c \<in> members ?m key \<longleftrightarrow> key \<in> keys_of q c" for key c using mem m(2) by (auto simp: k)
    moreover have "extra_ok q c" "block_hash (block_at q c) = None \<longleftrightarrow> block_hash_num_tokens (block_at q c) = None" for c
      using assms(1) by (simp_all add: index_ok_def extra_ok_def q reset_hash_def)
    ultimately have "index_ok q"
      using assms(1) pop_keys_facts(2) [OF m(1) ks(2)] unfolding index_ok_def by (simp add: k) (simp add: q)
    moreover have "index_frame ?p1 (upd_block b reset_hash (?p1\<lparr>cached_map := ?m\<rparr>))"
      by (rule index_frame_trans [OF _ upd_block_index_frame]) (simp_all add: reset_hash_def links_def index_frame_def same_consts_def)
    then have "index_frame p q" unfolding q by (rule index_frame_trans [rotated]) (simp add: index_frame_def same_consts_def)
    ultimately show ?thesis by (simp add: keys_set_def k)
  qed
qed

lemma no_hash_no_keys:
  assumes "index_ok p"
  shows "keys_of p b = {} \<longleftrightarrow> block_hash (block_at p b) = None"
proof -
  have "extra_ok p b" using assms by (simp add: index_ok_def)
  then show ?thesis by (auto simp: keys_of_def extra_ok_def)
qed

lemma insert_hash_facts:
  assumes ok: "index_ok p" and b: "0 < b" "b < num_gpu_blocks p" "enable_caching p"
  shows "\<exists>q. insert_block_hash key b (Some n) p = Inr q \<and> keys_set p b (insert key (keys_of p b)) q \<and>
    kv_event_queue q = kv_event_queue p \<and>
    (block_hash (block_at p b) = None \<longrightarrow> block_hash (block_at q b) = Some key \<and> block_hash_num_tokens (block_at q b) = Some n)"
proof (cases "key \<in> keys_of p b")
  case True
  then have "insert_block_hash key b (Some n) p = Inr p"
    using ok by (auto simp: insert_block_hash_def bi.cont_mem index_ok_def)
  moreover have "block_hash (block_at p b) \<noteq> None" using True no_hash_no_keys [OF ok, of b] by auto
  ultimately show ?thesis using True ok index_frame_refl by (auto simp: keys_set_def insert_absorb)
next
  case False
  have x: "extra_ok p b" and m: "map_ok (cached_map p)" "\<And>k c. c \<in> members (cached_map p) k \<longleftrightarrow> k \<in> keys_of p c"
    and nt: "block_hash (block_at p b) = None \<longleftrightarrow> block_hash_num_tokens (block_at p b) = None" using ok by (simp_all add: index_ok_def)
  let ?m = "insert_block key b (cached_map p)"
  let ?old = "case dict_get (by_block p) b of None \<Rightarrow> [] | Some keys \<Rightarrow> keys"
  have hash: "block_hash (block_at p b) \<noteq> Some key" "\<not> contain (cached_map p) key b"
    using False m(2) by (auto simp: keys_of_def bi.cont_mem)
  define q where "q = (if block_hash (block_at p b) = None
    then (upd_block b (\<lambda>_. (block_at p b)\<lparr>block_hash := Some key, block_hash_num_tokens := Some n\<rparr>) p)\<lparr>cached_map := ?m\<rparr>
    else p\<lparr>by_block := dict_set b (list_add key ?old) (by_block p), cached_map := ?m\<rparr>)"
  have run: "insert_block_hash key b (Some n) p = Inr q"
    using hash nt by (auto simp: insert_block_hash_def set_block_hash_def q_def Let_def)
  have none: "dict_get (by_block p) b = None" if "block_hash (block_at p b) = None"
    using that x by (cases "dict_get (by_block p) b") (simp_all add: extra_ok_def)
  have k: "keys_of q c = (if c = b then insert key (keys_of p b) else keys_of p c)" for c
    using none by (auto simp: q_def keys_of_def split: option.splits)
  have "extra_ok q c \<and> (block_hash (block_at q c) = None \<longleftrightarrow> block_hash_num_tokens (block_at q c) = None)" for c
  proof (cases "c = b")
    case True
    then show ?thesis
      using none x nt hash(1) by (cases "block_hash (block_at p b)") (auto simp: extra_ok_def q_def split: option.splits)
  next
    case False
    have "extra_ok p c \<and> (block_hash (block_at p c) = None \<longleftrightarrow> block_hash_num_tokens (block_at p c) = None)"
      using ok by (simp add: index_ok_def)
    then show ?thesis using False by (simp add: extra_ok_def q_def)
  qed
  moreover have "map_ok ?m" "members ?m k' = (if k' = key then insert b (members (cached_map p) k') else members (cached_map p) k')" for k'
    using bi.ins_ok [OF m(1)] bi.ins_mem by blast+
  moreover have "cached_map q = ?m" "num_gpu_blocks q = num_gpu_blocks p" "enable_caching q = enable_caching p" "iter_order q = iter_order p"
    by (simp_all add: q_def)
  ultimately have "index_ok q" using ok b unfolding index_ok_def by (auto simp: k)
  moreover have "index_frame p q"
    using links_upd [of "\<lambda>_. (block_at p b)\<lparr>block_hash := Some key, block_hash_num_tokens := Some n\<rparr>" b p]
    by (auto simp: q_def index_frame_def same_consts_def links_def upd_block_def block_at_def)
  moreover have "kv_event_queue q = kv_event_queue p \<and> (block_hash (block_at p b) = None \<longrightarrow>
      block_hash (block_at q b) = Some key \<and> block_hash_num_tokens (block_at q b) = Some n)" by (simp add: q_def)
  ultimately show ?thesis using run by (simp add: keys_set_def k)
qed

section \<open>Cache events\<close>

text \<open>
  A consumer of the events counts, for every external hash and group, the blocks stored less the blocks removed
  since the cache was last cleared. \<open>cached_count\<close> is the number of blocks the pool holds under that hash.
\<close>

type_synonym ext_key = "external_hash \<times> int"

definition ext_key :: "bool \<Rightarrow> byte list \<Rightarrow> ext_key" where
  "ext_key use_int_hashes key = (maybe_convert_block_hash use_int_hashes (get_block_hash key), get_group_id key)"

definition key_count :: "block_pool \<Rightarrow> ext_key \<Rightarrow> nat \<Rightarrow> int" where
  "key_count p x b = int (card {key \<in> keys_of p b. ext_key (int_hashes p) key = x})"

definition cached_count :: "block_pool \<Rightarrow> ext_key \<Rightarrow> int" where
  "cached_count p x = (\<Sum>b < num_gpu_blocks p. key_count p x b)"

primrec event_count :: "kv_event \<Rightarrow> ext_key \<Rightarrow> int \<Rightarrow> int" where
  "event_count (BlockStored e) x n = n + int (count_list (map (\<lambda>h. (h, group_idx e)) (ev_block_hashes e)) x)"
| "event_count (BlockRemoved hs med g) x n = n - int (count_list (map (\<lambda>h. (h, g)) hs) x)"
| "event_count AllBlocksCleared x n = 0"

definition net :: "kv_event list \<Rightarrow> ext_key \<Rightarrow> int \<Rightarrow> int" where
  "net es x n = fold (\<lambda>e. event_count e x) es n"

lemma net_append: "net (es @ fs) x n = net fs x (net es x n)"
  by (simp add: net_def)

lemma net_shift: "AllBlocksCleared \<notin> set es \<Longrightarrow> net es x n = n + net es x 0"
proof (induction es arbitrary: n)
  case (Cons e es)
  have e: "event_count e x n = n + event_count e x 0" using Cons.prems by (cases e) simp_all
  have IH: "net es x m = m + net es x 0" for m by (rule Cons.IH) (use Cons.prems in simp)
  have step: "net (e # es) x m = net es x (event_count e x m)" for m by (simp add: net_def)
  show ?case using e IH [of "event_count e x n"] IH [of "event_count e x 0"] unfolding step by linarith
qed (simp add: net_def)

text \<open>
  \<open>index_op p q d N\<close>: from \<open>p\<close> to \<open>q\<close> the index stays consistent, the reference half is untouched, the events
  emitted together with \<open>d\<close> account for the change in cached blocks, and the only keys gained are in \<open>N\<close>.
\<close>

definition balanced :: "block_pool \<Rightarrow> block_pool \<Rightarrow> (ext_key \<Rightarrow> int) \<Rightarrow> bool" where
  "balanced p q d \<longleftrightarrow> (\<exists>es. kv_event_queue q = kv_event_queue p @ es \<and> AllBlocksCleared \<notin> set es \<and>
     (\<forall>x. enable_events p \<longrightarrow> net es x 0 + d x = cached_count q x - cached_count p x))"

definition index_op :: "block_pool \<Rightarrow> block_pool \<Rightarrow> (ext_key \<Rightarrow> int) \<Rightarrow> (nat \<times> byte list) set \<Rightarrow> bool" where
  "index_op p q d N \<longleftrightarrow> index_ok q \<and> index_frame p q \<and> balanced p q d \<and>
     (\<forall>b key. key \<in> keys_of q b \<longrightarrow> key \<in> keys_of p b \<or> (b, key) \<in> N)"

lemma balanced_refl: "balanced p p (\<lambda>_. 0)"
  by (simp add: balanced_def net_def)

lemma balanced_trans:
  assumes "balanced p q d" "balanced q r e" "enable_events q = enable_events p"
  shows "balanced p r (\<lambda>x. d x + e x)"
proof -
  obtain es where es: "kv_event_queue q = kv_event_queue p @ es" "AllBlocksCleared \<notin> set es"
    "\<And>x. enable_events p \<Longrightarrow> net es x 0 + d x = cached_count q x - cached_count p x" using assms(1) by (auto simp: balanced_def)
  obtain fs where fs: "kv_event_queue r = kv_event_queue q @ fs" "AllBlocksCleared \<notin> set fs"
    "\<And>x. enable_events q \<Longrightarrow> net fs x 0 + e x = cached_count r x - cached_count q x" using assms(2) by (auto simp: balanced_def)
  have "net (es @ fs) x 0 = net es x 0 + net fs x 0" for x by (simp only: net_append net_shift [OF fs(2), of x "net es x 0"])
  then have "net (es @ fs) x 0 + (d x + e x) = cached_count r x - cached_count p x" if "enable_events p" for x
    using es(3) [OF that, of x] fs(3) [of x] that assms(3) by simp
  then show ?thesis unfolding balanced_def using es fs by (intro exI [of _ "es @ fs"]) simp
qed

lemma index_op_refl: "index_ok p \<Longrightarrow> index_op p p (\<lambda>_. 0) {}"
  by (simp add: index_op_def index_frame_refl balanced_refl)

lemma index_op_trans:
  assumes "index_op p q d N" "index_op q r e M"
  shows "index_op p r (\<lambda>x. d x + e x) (N \<union> M)"
proof -
  have f: "index_frame p q" "index_frame q r" using assms by (simp_all add: index_op_def)
  then have "enable_events q = enable_events p" by (simp add: index_frame_def same_consts_def)
  then show ?thesis
    using assms balanced_trans [of p q d r e] index_frame_trans [OF f] unfolding index_op_def by blast
qed

lemma index_op_weaken: "index_op p q d N \<Longrightarrow> N \<subseteq> M \<Longrightarrow> index_op p q d M"
  by (auto simp: index_op_def)

lemma finite_keys_of: "finite (keys_of p b)"
proof -
  have "keys_of p b \<subseteq> set_option (block_hash (block_at p b)) \<union> \<Union> (set ` set_option (dict_get (by_block p) b))"
    by (auto simp: keys_of_def)
  then show ?thesis by (rule finite_subset) (auto intro: finite_imageI)
qed

lemma cached_count_update:
  assumes "b < num_gpu_blocks p" "num_gpu_blocks q = num_gpu_blocks p" "int_hashes q = int_hashes p"
    "\<And>c. c \<noteq> b \<Longrightarrow> keys_of q c = keys_of p c"
  shows "cached_count q x - cached_count p x = key_count q x b - key_count p x b"
proof -
  have "(\<Sum>c \<in> {..<num_gpu_blocks p} - {b}. key_count q x c) = (\<Sum>c \<in> {..<num_gpu_blocks p} - {b}. key_count p x c)"
    using assms(3,4) by (intro sum.cong) (simp_all add: key_count_def)
  then show ?thesis
    using assms(1,2) by (simp add: cached_count_def sum.remove [of "{..<num_gpu_blocks p}" b])
qed

lemma count_keys:
  assumes "distinct keys"
  shows "int (count_list (map f keys) x) = int (card {key \<in> set keys. f key = x})"
proof -
  have "count_list (map f keys) x = length (filter (\<lambda>k. f k = x) keys)" by (induction keys) auto
  also have "\<dots> = card (set (filter (\<lambda>k. f k = x) keys))"
    by (rule distinct_card [symmetric], rule distinct_filter [OF assms])
  finally show ?thesis by simp
qed

lemma net_removed: "net (map (removed_event i) keys) x n = n - int (count_list (map (ext_key i) keys) x)"
  by (induction keys arbitrary: n) (auto simp: net_def removed_event_def ext_key_def)

lemma remove_emit_op:
  assumes ok: "index_ok p" and rem: "remove_cached_block_hashes b p = (removed, q)"
  shows "index_op p (emit_block_removed_events removed q) (\<lambda>_. 0) {} \<and> keys_of (emit_block_removed_events removed q) b = {} \<and>
    block_hash (block_at (emit_block_removed_events removed q) b) = None"
proof -
  let ?q = "emit_block_removed_events removed q"
  note f = remove_hashes_facts [OF ok rem] and ks = block_keys_list_facts [OF ok, of b]
  have kq: "index_ok q" "index_frame p q" "keys_of q b = {}" "\<And>c. c \<noteq> b \<Longrightarrow> keys_of q c = keys_of p c"
    using f(2) by (auto simp: keys_set_def)
  have fr: "index_frame p ?q" using index_frame_trans [OF kq(2) emit_removed_frame] .
  have cn: "num_gpu_blocks q = num_gpu_blocks p" "enable_events q = enable_events p" "int_hashes q = int_hashes p"
    using kq(2) by (simp_all add: index_frame_def same_consts_def)
  have ok': "index_ok ?q" using emit_removed_ok [OF kq(1)] .
  have "net (map (removed_event (int_hashes q)) removed) y 0 = cached_count ?q y - cached_count p y" for y
  proof (cases "b < num_gpu_blocks p")
    case True
    have "cached_count ?q y - cached_count p y = key_count ?q y b - key_count p y b"
      using cached_count_update [of b p ?q y] True cn kq(4) by simp
    then show ?thesis
      using count_keys [OF ks(2), of "ext_key (int_hashes p)" y] f(1) ks(1) by (simp add: net_removed key_count_def kq(3) cn)
  next
    case False
    then have "keys_of p b = {}" using ok by (auto simp: index_ok_def)
    then have "removed = []" "keys_of ?q c = keys_of p c" for c using f(1) ks(1) kq(3,4) by (cases "c = b"; simp)+
    then show ?thesis by (simp add: net_def cached_count_def key_count_def cn)
  qed
  moreover have "AllBlocksCleared \<notin> set (map (removed_event (int_hashes q)) removed)" by (auto simp: removed_event_def)
  ultimately have "balanced p ?q (\<lambda>_. 0)"
    unfolding balanced_def using f(3) cn(2)
    by (intro exI [of _ "if enable_events p then map (removed_event (int_hashes q)) removed else []"])
      (simp add: emit_block_removed_events_def)
  moreover have "key \<in> keys_of p c" if "key \<in> keys_of ?q c" for key c using that kq(3,4) by (cases "c = b") auto
  ultimately show ?thesis
    using ok' fr no_hash_no_keys [OF ok', of b] kq(3) by (simp add: index_op_def)
qed

lemma insert_hash_op:
  assumes ok: "index_ok p" and b: "0 < b" "b < num_gpu_blocks p" "enable_caching p" and new: "key \<notin> keys_of p b"
  shows "\<exists>q. insert_block_hash key b (Some n) p = Inr q \<and> key \<in> keys_of q b \<and> keys_of p b \<subseteq> keys_of q b \<and>
    (\<forall>c. c \<noteq> b \<longrightarrow> keys_of q c = keys_of p c) \<and>
    index_op p q (\<lambda>x. if ext_key (int_hashes p) key = x then 1 else 0) {(b, key)}"
proof -
  obtain q where q: "insert_block_hash key b (Some n) p = Inr q" "keys_set p b (insert key (keys_of p b)) q"
    "kv_event_queue q = kv_event_queue p" using insert_hash_facts [OF ok b] by blast
  have k: "index_ok q" "index_frame p q" "keys_of q b = insert key (keys_of p b)" "\<And>c. c \<noteq> b \<Longrightarrow> keys_of q c = keys_of p c"
    using q(2) by (auto simp: keys_set_def)
  then have cn: "num_gpu_blocks q = num_gpu_blocks p" "int_hashes q = int_hashes p" by (simp_all add: index_frame_def same_consts_def)
  have "{k \<in> insert key (keys_of p b). ext_key (int_hashes p) k = x} =
    (if ext_key (int_hashes p) key = x then insert key {k \<in> keys_of p b. ext_key (int_hashes p) k = x}
     else {k \<in> keys_of p b. ext_key (int_hashes p) k = x})" for x by auto
  then have "cached_count q x - cached_count p x = (if ext_key (int_hashes p) key = x then 1 else 0)" for x
    using cached_count_update [OF b(2) cn k(4), of x] new finite_keys_of [of p b] by (simp add: key_count_def k(3) cn)
  then have "balanced p q (\<lambda>x. if ext_key (int_hashes p) key = x then 1 else 0)"
    unfolding balanced_def using q(3) by (intro exI [of _ "[]"]) (simp add: net_def)
  moreover have "key' \<in> keys_of p c \<or> (c, key') \<in> {(b, key)}" if "key' \<in> keys_of q c" for c key'
    using that k(3,4) by (cases "c = b") auto
  ultimately show ?thesis using q(1) k by (auto simp: index_op_def)
qed

section \<open>Caching blocks of a request\<close>

lemma ext_key_make:
  assumes "make_block_hash_with_group_id h g = Inr key"
  shows "ext_key i key = (maybe_convert_block_hash i h, g)"
proof -
  obtain bs where bs: "to_bytes4 g = Inr bs" "key = h @ bs"
    using assms by (auto simp: make_block_hash_with_group_id_def bind_res_eq_Inr)
  then show ?thesis
    using length_to_bytes4 [OF bs(1)] from_to_bytes4 [OF bs(1)] by (simp add: ext_key_def get_block_hash_def get_group_id_def)
qed

text \<open>What a request needs of the pool to cache its blocks.\<close>

definition cacheable :: "block_pool \<Rightarrow> nat \<Rightarrow> bool" where
  "cacheable p b \<longleftrightarrow> enable_caching p \<and> b < num_gpu_blocks p \<and> (is_null (block_at p b) \<longleftrightarrow> b = 0)"

lemma cacheable_frame: "index_frame p q \<Longrightarrow> cacheable q b = cacheable p b"
  by (simp add: cacheable_def index_frame_def same_consts_def)

definition hash_counts :: "external_hash list \<Rightarrow> int \<Rightarrow> ext_key \<Rightarrow> int" where
  "hash_counts hs g x = int (count_list (map (\<lambda>h. (h, g)) hs) x)"

lemma hash_counts_append: "(\<lambda>x. hash_counts hs g x + hash_counts hs' g x) = hash_counts (hs @ hs') g"
  by (simp add: hash_counts_def fun_eq_iff)

lemma hash_counts_Nil [simp]: "hash_counts [] g = (\<lambda>_. 0)"
  by (simp add: hash_counts_def fun_eq_iff)

definition entries :: "byte list list \<Rightarrow> int \<Rightarrow> (nat \<times> nat) list \<Rightarrow> (nat \<times> byte list) set" where
  "entries hs gid ibs = {(b, key). \<exists>i. (i, b) \<in> set ibs \<and> i < length hs \<and> make_block_hash_with_group_id (hs ! i) gid = Inr key}"

text \<open>Inserting a key for a block without hashes.\<close>

lemma insert_fresh:
  assumes "index_ok p" "cacheable p b" "b \<noteq> 0" "block_hash (block_at p b) = None"
    "make_block_hash_with_group_id h gid = Inr key" "insert_block_hash key b (Some n) p = Inr q"
  shows "index_op p q (hash_counts [maybe_convert_block_hash (int_hashes p) h] gid) {(b, key)} \<and> key \<in> keys_of q b \<and>
    (\<forall>c. c \<noteq> b \<longrightarrow> keys_of q c = keys_of p c)"
proof -
  have "keys_of p b = {}" using no_hash_no_keys [OF assms(1)] assms(4) by simp
  moreover have "(\<lambda>x. if ext_key (int_hashes p) key = x then 1 else 0) = hash_counts [maybe_convert_block_hash (int_hashes p) h] gid"
    by (auto simp: hash_counts_def ext_key_make [OF assms(5)])
  ultimately show ?thesis
    using insert_hash_op [OF assms(1), of b key n] assms(2,3,6) by (auto simp: cacheable_def)
qed

lemma promote_op:
  assumes "index_ok p" "promote_partial b n p = Inr p1"
  shows "index_op p p1 (\<lambda>_. 0) {}" "block_hash (block_at p1 b) = None" "\<And>c. c \<noteq> b \<Longrightarrow> keys_of p1 c = keys_of p c"
proof -
  have "index_op p p1 (\<lambda>_. 0) {} \<and> block_hash (block_at p1 b) = None \<and> (\<forall>c. c \<noteq> b \<longrightarrow> keys_of p1 c = keys_of p c)"
  proof (cases "block_hash (block_at p b)")
    case None
    then show ?thesis using assms index_op_refl by (simp add: promote_partial_def)
  next
    case (Some h)
    obtain removed q where q: "remove_cached_block_hashes b p = (removed, q)" by fastforce
    then have "p1 = emit_block_removed_events removed q" using Some assms(2) by (simp add: promote_partial_def split: if_splits)
    then show ?thesis
      using remove_emit_op [OF assms(1) q] remove_hashes_facts(2) [OF assms(1) q] by (simp add: keys_set_def)
  qed
  then show "index_op p p1 (\<lambda>_. 0) {}" "block_hash (block_at p1 b) = None" "\<And>c. c \<noteq> b \<Longrightarrow> keys_of p1 c = keys_of p c" by blast+
qed

lemma cache_one_op:
  assumes ok: "index_ok p" and b: "cacheable p b"
    and run: "cache_one hs nc bs gid block_mask (i, b) (ext, p) = Inr (ext', q)"
  shows "\<exists>new. ext' = ext @ new \<and> index_op p q (hash_counts new gid) (entries hs gid [(i, b)])"
proof (cases "is_null (block_at p b) \<or> masked block_mask i")
  case True
  then have "ext' = ext @ []" "q = p" using run by (auto simp: cache_one_def)
  then show ?thesis
    using index_op_weaken [OF index_op_refl [OF ok]] by (auto intro!: exI [of _ "[]"])
next
  case False
  have i: "i < length hs" and b0: "b \<noteq> 0" using run False b by (auto simp: cache_one_def cacheable_def split: if_splits)
  obtain key n p1 where key: "make_block_hash_with_group_id (hs ! i) gid = Inr key" and p1: "promote_partial b n p = Inr p1"
    and q: "insert_block_hash key b (Some n) p1 = Inr q" and ext: "ext' = ext @ [maybe_convert_block_hash (int_hashes p) (hs ! i)]"
    using run False i unfolding cache_one_def by (auto simp: bind_res_eq_Inr Let_def)
  note p1 = promote_op [OF ok p1]
  have f: "index_ok p1" "index_frame p p1" using p1(1) by (simp_all add: index_op_def)
  have "int_hashes p1 = int_hashes p" using f(2) by (simp add: index_frame_def same_consts_def)
  moreover have "cacheable p1 b" using b by (simp add: cacheable_frame [OF f(2)])
  ultimately have "index_op p1 q (hash_counts [maybe_convert_block_hash (int_hashes p) (hs ! i)] gid) {(b, key)}"
    using insert_fresh [OF f(1) _ b0 p1(2) key q] by simp
  then have "index_op p q (hash_counts [maybe_convert_block_hash (int_hashes p) (hs ! i)] gid) {(b, key)}"
    using index_op_trans [OF p1(1)] by fastforce
  then show ?thesis using ext i key index_op_weaken by (auto simp: entries_def)
qed

lemma cache_loop_op:
  assumes "index_ok p" "\<forall>b \<in> snd ` set ibs. cacheable p b"
    "fold_res (cache_one hs nc bs gid block_mask) ibs (ext, p) = Inr (ext', q)"
  shows "\<exists>new. ext' = ext @ new \<and> index_op p q (hash_counts new gid) (entries hs gid ibs)"
  using assms
proof (induction ibs arbitrary: ext p)
  case Nil
  then show ?case using index_op_weaken [OF index_op_refl] by (auto intro!: exI [of _ "[]"])
next
  case (Cons ib ibs)
  obtain i b where ib: "ib = (i, b)" by fastforce
  obtain ext1 p1 where p1: "cache_one hs nc bs gid block_mask (i, b) (ext, p) = Inr (ext1, p1)"
    and rest: "fold_res (cache_one hs nc bs gid block_mask) ibs (ext1, p1) = Inr (ext', q)"
    using Cons.prems(3) by (auto simp: ib bind_res_eq_Inr)
  obtain new1 where new1: "ext1 = ext @ new1" "index_op p p1 (hash_counts new1 gid) (entries hs gid [(i, b)])"
    using cache_one_op [OF Cons.prems(1) _ p1] Cons.prems(2) by (auto simp: ib)
  have f: "index_ok p1" "index_frame p p1" using new1(2) by (simp_all add: index_op_def)
  have "\<forall>c \<in> snd ` set ibs. cacheable p1 c" using Cons.prems(2) f(2) by (simp add: cacheable_frame)
  from Cons.IH [OF f(1) this rest] obtain new2 where new2: "ext' = ext1 @ new2" "index_op p1 q (hash_counts new2 gid) (entries hs gid ibs)"
    by blast
  have "index_op p q (\<lambda>x. hash_counts new1 gid x + hash_counts new2 gid x) (entries hs gid [(i, b)] \<union> entries hs gid ibs)"
    using index_op_trans [OF new1(2) new2(2)] .
  moreover have "entries hs gid [(i, b)] \<union> entries hs gid ibs \<subseteq> entries hs gid (ib # ibs)" by (auto simp: entries_def ib)
  ultimately have "index_op p q (hash_counts (new1 @ new2) gid) (entries hs gid (ib # ibs))"
    unfolding hash_counts_append by (rule index_op_weaken)
  then show ?case using new1(1) new2(1) by auto
qed

lemma index_op_stored:
  assumes "index_op p q (hash_counts (ev_block_hashes e) (group_idx e)) N"
  shows "index_op p (q\<lparr>kv_event_queue := kv_event_queue q @ [BlockStored e]\<rparr>) (\<lambda>_. 0) N"
proof -
  let ?q = "q\<lparr>kv_event_queue := kv_event_queue q @ [BlockStored e]\<rparr>"
  have k: "keys_of ?q b = keys_of q b" "extra_ok ?q b = extra_ok q b" for b by (simp_all add: keys_of_def extra_ok_def)
  have "cached_count ?q x = cached_count q x" for x by (simp add: cached_count_def key_count_def k)
  moreover have "net (es @ [BlockStored e]) x 0 = net es x 0 + hash_counts (ev_block_hashes e) (group_idx e) x" for es x
    by (simp add: net_def hash_counts_def)
  moreover obtain es where "kv_event_queue q = kv_event_queue p @ es" "AllBlocksCleared \<notin> set es"
    "\<And>x. enable_events p \<Longrightarrow> net es x 0 + hash_counts (ev_block_hashes e) (group_idx e) x = cached_count q x - cached_count p x"
    using assms by (auto simp: index_op_def balanced_def)
  ultimately have "balanced p ?q (\<lambda>_. 0)" unfolding balanced_def by (intro exI [of _ "es @ [BlockStored e]"]) simp
  moreover have "index_ok q \<Longrightarrow> index_ok ?q" by (simp add: index_ok_def k)
  moreover have "index_frame p q \<Longrightarrow> index_frame p ?q" by (simp add: index_frame_def same_consts_def)
  ultimately show ?thesis using assms by (simp add: index_op_def k)
qed

lemma index_op_silent: "index_op p q d N \<Longrightarrow> \<not> enable_events p \<Longrightarrow> index_op p q e N"
  by (simp add: index_op_def balanced_def)

lemma hashes_from_at:
  assumes "hashes_from hs n = Inr l" "j < length l"
  shows "hash_at hs (n + j) = Inr (l ! j)"
proof (cases hs)
  case (View v)
  then obtain m where m: "view_len v = Inr m" "map_res (get_value_at v) [n ..< m] = Inr l"
    using assms(1) by (auto simp: hashes_from_def view_from_def bind_res_eq_Inr)
  then have l: "list_all2 (\<lambda>x y. get_value_at v x = Inr y) [n ..< m] l" by (simp add: map_res_eq_Inr)
  then have "j < length [n ..< m]" using assms(2) list_all2_lengthD by fastforce
  then have "get_value_at v ([n ..< m] ! j) = Inr (l ! j)" using list_all2_nthD [OF l] by blast
  then show ?thesis using \<open>j < length [n ..< m]\<close> View by (simp add: hash_at_def)
qed (use assms in \<open>auto simp: hashes_from_def hash_at_def\<close>)

text \<open>The entries that caching the blocks \<open>nc\<close> to \<open>nf - 1\<close> of a request may add.\<close>

definition full_entries :: "block_pool \<Rightarrow> request \<Rightarrow> nat list \<Rightarrow> nat \<Rightarrow> nat \<Rightarrow> nat \<Rightarrow> int \<Rightarrow> (nat \<times> byte list) set" where
  "full_entries p r blocks nc nf bs gid =
     {(b, key). \<exists>hs h i. resolve_block_hashes (Raw (block_hashes r)) (hash_block_size p) bs False None = Inr hs \<and>
        nc \<le> i \<and> i < nf \<and> i < length blocks \<and> b = blocks ! i \<and> hash_at hs i = Inr h \<and>
        make_block_hash_with_group_id h gid = Inr key}"

lemma entries_full:
  assumes "resolve_block_hashes (Raw (block_hashes r)) (hash_block_size p) bs False None = Inr hs" "hashes_from hs nc = Inr l"
  shows "entries l gid (zip [0 ..< length (py_slice blocks nc nf)] (py_slice blocks nc nf)) \<subseteq> full_entries p r blocks nc nf bs gid"
proof
  fix bk assume "bk \<in> entries l gid (zip [0 ..< length (py_slice blocks nc nf)] (py_slice blocks nc nf))"
  then obtain b key i where bk: "bk = (b, key)" and i: "(i, b) \<in> set (zip [0 ..< length (py_slice blocks nc nf)] (py_slice blocks nc nf))"
    "i < length l" "make_block_hash_with_group_id (l ! i) gid = Inr key" by (auto simp: entries_def)
  have "i < length (py_slice blocks nc nf)" "b = py_slice blocks nc nf ! i" using i(1) by (auto simp: in_set_zip)
  then have "nc + i < nf" "nc + i < length blocks" "b = blocks ! (nc + i)" by auto
  then show "bk \<in> full_entries p r blocks nc nf bs gid"
    unfolding full_entries_def bk using assms(1) hashes_from_at [OF assms(2) i(2)] i(3)
    by (auto intro!: exI [of _ hs] exI [of _ "l ! i"] exI [of _ "nc + i"])
qed

lemma stored_event_of:
  "\<exists>e. build_block_stored_event r hs parent s t bs gid keys = BlockStored e \<and> ev_block_hashes e = hs \<and> group_idx e = gid"
  by (simp add: build_block_stored_event_def)

lemma store_full_event_op:
  assumes "index_op p p1 (hash_counts ext gid) N"
    "store_full_event sha256 r blocks nc nf bs gid block_mask hs ext p1 = Inr (r', q)"
  shows "index_op p q (\<lambda>_. 0) N"
proof (cases "enable_events p1")
  case True
  then obtain parent keys where q: "q = p1\<lparr>kv_event_queue := kv_event_queue p1 @
      [build_block_stored_event r' ext parent (nc * bs) (nf * bs) bs gid keys]\<rparr>"
    using assms(2) unfolding store_full_event_def if_P [OF True] bind_res_eq_Inr by (elim exE conjE) auto
  obtain e where "build_block_stored_event r' ext parent (nc * bs) (nf * bs) bs gid keys = BlockStored e"
    "ev_block_hashes e = ext" "group_idx e = gid" using stored_event_of by blast
  with q show ?thesis using index_op_stored [of p p1] assms(1) by simp
next
  case False
  then have "\<not> enable_events p" "q = p1" using assms by (auto simp: store_full_event_def index_op_def index_frame_def same_consts_def)
  then show ?thesis using index_op_silent [OF assms(1)] by simp
qed

lemma cache_full_op:
  assumes ok: "index_ok p" and bl: "\<forall>b \<in> set blocks. cacheable p b"
    and run: "cache_full_blocks sha256 r blocks nc nf bs gid block_mask p = Inr (r', q)"
  shows "index_op p q (\<lambda>_. 0) (full_entries p r blocks nc nf bs gid)"
proof (cases "nf \<le> nc")
  case True
  then have "q = p" using run by (simp add: cache_full_blocks_def)
  then show ?thesis using index_op_weaken [OF index_op_refl [OF ok]] by simp
next
  case False
  let ?new = "py_slice blocks nc nf"
  obtain hs l ext p1 where res: "resolve_block_hashes (Raw (block_hashes r)) (hash_block_size p) bs False None = Inr hs"
    and l: "hashes_from hs nc = Inr l"
    and loop: "fold_res (cache_one l nc bs gid block_mask) (zip [0 ..< length ?new] ?new) ([], p) = Inr (ext, p1)"
    and fin: "store_full_event sha256 r blocks nc nf bs gid block_mask hs ext p1 = Inr (r', q)"
    using run False unfolding cache_full_blocks_def by (auto simp: bind_res_eq_Inr Let_def simp del: length_py_slice split: if_splits)
  have "\<forall>b \<in> snd ` set (zip [0 ..< length ?new] ?new). cacheable p b"
    using bl set_py_slice_subset [of blocks nc nf] by (auto dest!: set_zip_rightD)
  from cache_loop_op [OF ok this loop]
  have "index_op p p1 (hash_counts ext gid) (entries l gid (zip [0 ..< length ?new] ?new))" by simp
  then have op: "index_op p p1 (hash_counts ext gid) (full_entries p r blocks nc nf bs gid)"
    using index_op_weaken entries_full [OF res l] by blast
  then show ?thesis using fin by (rule store_full_event_op)
qed

text \<open>The entry that caching a partial block adds.\<close>

definition partial_entries :: "block_pool \<Rightarrow> request \<Rightarrow> nat \<Rightarrow> nat \<Rightarrow> int \<Rightarrow> (nat \<times> byte list) set" where
  "partial_entries p r b n gid =
     {(b', key). b' = b \<and> (\<exists>h. get_partial_block_hash r n p = Inr h \<and> make_block_hash_with_group_id h gid = Inr key)}"

lemma replace_shorter_op:
  assumes "index_ok p" "key \<notin> keys_of p b"
  shows "index_op p (replace_shorter key b n p) (\<lambda>_. 0) {} \<and> key \<notin> keys_of (replace_shorter key b n p) b"
proof -
  obtain removed q where q: "remove_cached_block_hashes b p = (removed, q)" by fastforce
  show ?thesis using remove_emit_op [OF assms(1) q] index_op_refl [OF assms(1)] assms(2) by (simp add: replace_shorter_def q)
qed

lemma already_cached_keys: "index_ok p \<Longrightarrow> already_cached key b p \<longleftrightarrow> key \<in> keys_of p b"
  by (auto simp: already_cached_def index_ok_def bi.cont_mem keys_of_def)

lemma store_partial_event_op:
  assumes "index_op p p1 (hash_counts [maybe_convert_block_hash (int_hashes p1) h] gid) N"
    "store_partial_event sha256 r h n gid p1 = Inr (r', q)"
  shows "index_op p q (\<lambda>_. 0) N"
proof -
  obtain parent s keys where q: "q = p1\<lparr>kv_event_queue := kv_event_queue p1 @
      [build_partial_stored_event (int_hashes p1) r' h parent s n gid keys]\<rparr>"
    using assms(2) by (auto simp: store_partial_event_def bind_res_eq_Inr split: prod.splits)
  obtain e where "build_partial_stored_event (int_hashes p1) r' h parent s n gid keys = BlockStored e"
    "ev_block_hashes e = [maybe_convert_block_hash (int_hashes p1) h]" "group_idx e = gid"
    by (simp add: build_partial_stored_event_def)
  with q show ?thesis using index_op_stored [of p p1] assms(1) by simp
qed

lemma cache_partial_op:
  assumes ok: "index_ok p" and b: "cacheable p b"
    and run: "cache_partial_block sha256 r b n gid bs p = Inr (res, r', q)"
  shows "index_op p q (\<lambda>_. 0) (partial_entries p r b n gid)"
proof (cases "is_null (block_at p b)")
  case True
  then have "q = p" using run by (simp add: cache_partial_block_def)
  then show ?thesis using index_op_weaken [OF index_op_refl [OF ok]] by simp
next
  case False
  define c where "c = int (n div hash_block_size p * hash_block_size p)"
  obtain h key p2 where h: "get_partial_block_hash r n p = Inr h" "make_block_hash_with_group_id h gid = Inr key"
    and p2: "insert_block_hash key b (Some c) (replace_shorter key b c p) = Inr p2"
    and fin: "if enable_events p2 \<and> \<not> already_cached key b p then store_partial_event sha256 r h n gid p2 = Inr (r', q) else q = p2"
    using run False unfolding cache_partial_block_def c_def by (auto simp: bind_res_eq_Inr Let_def split: if_splits)
  have e: "(b, key) \<in> partial_entries p r b n gid" using h by (simp add: partial_entries_def)
  show ?thesis
  proof (cases "key \<in> keys_of p b")
    case True
    then have "replace_shorter key b c p = p" "q = p2" using fin ok by (simp_all add: replace_shorter_def already_cached_keys split: if_splits)
    moreover have "insert_block_hash key b (Some c) p = Inr p"
      using True ok by (auto simp: insert_block_hash_def bi.cont_mem index_ok_def)
    ultimately have "q = p" using p2 by simp
    then show ?thesis using index_op_weaken [OF index_op_refl [OF ok]] by simp
  next
    case new: False
    let ?p1 = "replace_shorter key b c p"
    have p1: "index_op p ?p1 (\<lambda>_. 0) {}" "key \<notin> keys_of ?p1 b" using replace_shorter_op [OF ok new] by simp_all
    then have f: "index_ok ?p1" "index_frame p ?p1" by (simp_all add: index_op_def)
    have c: "cacheable ?p1 b" using b by (simp add: cacheable_frame [OF f(2)])
    have b0: "b \<noteq> 0" using b False by (simp add: cacheable_def)
    have "(\<lambda>x. if ext_key (int_hashes ?p1) key = x then 1 else 0) = hash_counts [maybe_convert_block_hash (int_hashes ?p1) h] gid"
      by (auto simp: hash_counts_def ext_key_make [OF h(2)])
    then have "index_op ?p1 p2 (hash_counts [maybe_convert_block_hash (int_hashes ?p1) h] gid) {(b, key)}"
      using insert_hash_op [OF f(1) _ _ _ p1(2), of c] c b0 p2 by (auto simp: cacheable_def)
    moreover from this have "int_hashes p2 = int_hashes ?p1" "enable_events p2 = enable_events p"
      using f(2) by (simp_all add: index_op_def index_frame_def same_consts_def)
    ultimately have op: "index_op p p2 (hash_counts [maybe_convert_block_hash (int_hashes p2) h] gid) (partial_entries p r b n gid)"
      using index_op_weaken [OF index_op_trans [OF p1(1)], of p2 "hash_counts [maybe_convert_block_hash (int_hashes p2) h] gid" "{(b, key)}"] e by simp
    show ?thesis
    proof (cases "enable_events p2")
      case True
      then show ?thesis using fin new ok store_partial_event_op [OF op] by (simp add: already_cached_keys)
    next
      case False
      then show ?thesis using fin index_op_silent [OF op] \<open>enable_events p2 = enable_events p\<close> by simp
    qed
  qed
qed

end
