(* ===== verification/Pool_Steps.thy ===== *)
theory Pool_Steps
  imports Pool_Invariant
begin

text \<open>
  Moving and evicting hashes, allocation, touching and release of blocks, and resetting the cache: each
  operation of the pool keeps the invariant of \<^verbatim>\<open>Pool_Invariant\<close>.
\<close>

section \<open>Both halves together\<close>

definition key_op :: "block_pool \<Rightarrow> block_pool \<Rightarrow> (nat \<times> byte list) set \<Rightarrow> bool" where
  "key_op p q N \<longleftrightarrow> index_ok q \<and> same_consts p q \<and> balanced p q (\<lambda>_. 0) \<and>
     (\<forall>b key. key \<in> keys_of q b \<longrightarrow> key \<in> keys_of p b \<or> (b, key) \<in> N)"

lemma key_op_index: "index_op p q (\<lambda>_. 0) N \<Longrightarrow> key_op p q N"
  by (simp add: key_op_def index_op_def index_frame_def)

lemma key_op_trans:
  assumes "key_op p q N" "key_op q r M"
  shows "key_op p r (N \<union> M)"
proof -
  have "enable_events q = enable_events p" using assms by (simp add: key_op_def same_consts_def)
  then have "balanced p r (\<lambda>_. 0)" using balanced_trans [of p q "\<lambda>_. 0" r "\<lambda>_. 0"] assms by (simp add: key_op_def)
  moreover have "same_consts p r" using assms by (simp add: key_op_def same_consts_def)
  ultimately show ?thesis using assms unfolding key_op_def by blast
qed

lemma key_op_ref:
  assumes "index_ok p" "ref_frame p q"
  shows "key_op p q {}"
proof -
  have "cached_count q x = cached_count p x" for x
    using assms(2) keys_of_frame [OF assms(2)] by (simp add: cached_count_def key_count_def ref_frame_def same_consts_def)
  then have "balanced p q (\<lambda>_. 0)"
    unfolding balanced_def using assms(2) by (intro exI [of _ "[]"]) (simp add: net_def ref_frame_def)
  then show ?thesis
    using index_ok_frame [OF assms(2,1)] assms(2) keys_of_frame [OF assms(2)] by (simp add: key_op_def ref_frame_def)
qed

lemma key_op_trans0: "key_op p q {} \<Longrightarrow> key_op q r N \<Longrightarrow> key_op p r N"
  using key_op_trans [of p q "{}" r N] by simp

lemma updates_facts:
  assumes "updates p q"
  shows "ref_frame p q" "ref_cnt (block_at q b) = ref_cnt (block_at p b)" "metrics q = metrics p"
proof -
  obtain h n where q: "q = p\<lparr>heap := h, num_free_blocks := n\<rparr>" and d: "\<And>r. data (h r) = data (heap p r)"
    using assms by (auto simp: updates_def)
  note e = data_eqD [OF d]
  show "ref_frame p q" using e by (simp add: q ref_frame_def same_consts_def block_at_def)
  show "ref_cnt (block_at q b) = ref_cnt (block_at p b)" "metrics q = metrics p" using e by (simp_all add: q block_at_def)
qed

lemma upd_ref_frame:
  assumes "\<And>x. block_hash (f x) = block_hash x \<and> block_hash_num_tokens (f x) = block_hash_num_tokens x \<and>
    block_id (f x) = block_id x \<and> is_null (f x) = is_null x"
  shows "ref_frame p (upd_block b f p)"
  using assms by (simp add: ref_frame_def same_consts_def)

lemma refs_ok_upd:
  assumes "refs_ok p free L" "\<And>x. links (f x) = links x \<and> block_id (f x) = block_id x \<and> is_null (f x) = is_null x"
    "L' \<subseteq> {1 ..< num_gpu_blocks p}" "set free \<inter> L' = {}" "\<And>c. c \<noteq> b \<Longrightarrow> c \<in> L' \<longleftrightarrow> c \<in> L"
    "b \<in> {1 ..< num_gpu_blocks p} \<Longrightarrow> 0 \<le> ref_cnt (f (block_at p b)) \<and> (ref_cnt (f (block_at p b)) = 0 \<longleftrightarrow> b \<in> set free \<union> L')"
  shows "refs_ok (upd_block b f p) free L'"
proof -
  have "represents (upd_block b f p) free" using assms(1,2) represents_cong [of "upd_block b f p" p] links_upd [of f b p]
    by (simp add: refs_ok_def)
  then show ?thesis using assms unfolding refs_ok_def by auto
qed

lemma refs_block:
  assumes "refs_ok p free L" "b < num_gpu_blocks p"
  shows "is_null (block_at p b) \<longleftrightarrow> b = 0" "b \<noteq> 0 \<Longrightarrow> 0 \<le> ref_cnt (block_at p b)"
    "b \<noteq> 0 \<Longrightarrow> ref_cnt (block_at p b) = 0 \<longleftrightarrow> b \<in> set free \<union> L"
  using assms by (simp_all add: refs_ok_def)

section \<open>Moving and evicting hashes\<close>

lemma remove_op:
  assumes ok: "index_ok p" and rem: "remove_cached_block_hashes b p = (removed, q)"
  shows "index_op p q (\<lambda>x. - int (count_list (map (ext_key (int_hashes p)) removed) x)) {}"
proof -
  note f = remove_hashes_facts [OF ok rem]
  have kq: "index_ok q" "index_frame p q" "keys_of q b = {}" "\<And>c. c \<noteq> b \<Longrightarrow> keys_of q c = keys_of p c"
    using f(2) by (auto simp: keys_set_def)
  have cn: "num_gpu_blocks q = num_gpu_blocks p" "int_hashes q = int_hashes p" "enable_events q = enable_events p"
    using kq(2) by (simp_all add: index_frame_def same_consts_def)
  let ?q = "emit_block_removed_events removed q"
  have "cached_count ?q x = cached_count q x" for x by (simp add: cached_count_def key_count_def)
  moreover have "balanced p ?q (\<lambda>_. 0)" using remove_emit_op [OF ok rem] by (simp add: index_op_def)
  ultimately have "- int (count_list (map (ext_key (int_hashes p)) removed) x) = cached_count q x - cached_count p x" if "enable_events p" for x
    using that f(3) cn net_removed [of "int_hashes p" removed x 0] by (cases x) (auto simp: balanced_def emit_block_removed_events_def)
  then have "balanced p q (\<lambda>x. - int (count_list (map (ext_key (int_hashes p)) removed) x))"
    unfolding balanced_def using f(3) by (intro exI [of _ "[]"]) (simp add: net_def)
  moreover have "key \<in> keys_of p c" if "key \<in> keys_of q c" for key c using that kq(3,4) by (cases "c = b") auto
  ultimately show ?thesis using kq by (simp add: index_op_def)
qed

lemma insert_keys_op:
  assumes "index_ok p" "cacheable p b" "b \<noteq> 0" "distinct keys" "set keys \<inter> keys_of p b = {}"
  shows "\<exists>q. fold_res (\<lambda>key. insert_block_hash key b (Some n)) keys p = Inr q \<and> keys_of q b = keys_of p b \<union> set keys \<and>
    index_op p q (\<lambda>x. int (count_list (map (ext_key (int_hashes p)) keys) x)) {(b', key). b' = b \<and> key \<in> set keys}"
  using assms
proof (induction keys arbitrary: p)
  case Nil
  then show ?case using index_op_refl by simp
next
  case (Cons key keys)
  have new: "key \<notin> keys_of p b" using Cons.prems(5) by auto
  obtain p1 where p1: "insert_block_hash key b (Some n) p = Inr p1" "keys_set p b (insert key (keys_of p b)) p1"
    using insert_hash_facts [OF Cons.prems(1), of b key n] Cons.prems(2,3) by (auto simp: cacheable_def)
  have op: "index_op p p1 (\<lambda>x. if ext_key (int_hashes p) key = x then 1 else 0) {(b, key)}"
    using insert_hash_op [OF Cons.prems(1) _ _ _ new, of n] Cons.prems(2,3) p1(1) by (auto simp: cacheable_def)
  have f: "index_ok p1" "index_frame p p1" "keys_of p1 b = insert key (keys_of p b)" using p1(2) by (simp_all add: keys_set_def)
  have i: "int_hashes p1 = int_hashes p" and c: "cacheable p1 b"
    using f(2) Cons.prems(2) cacheable_frame [OF f(2)] by (simp_all add: index_frame_def same_consts_def)
  have "set keys \<inter> keys_of p1 b = {}" using Cons.prems(4,5) f(3) by auto
  from Cons.IH [OF f(1) c Cons.prems(3) _ this] Cons.prems(4)
  obtain q where q: "fold_res (\<lambda>key. insert_block_hash key b (Some n)) keys p1 = Inr q" "keys_of q b = keys_of p1 b \<union> set keys"
    "index_op p1 q (\<lambda>x. int (count_list (map (ext_key (int_hashes p)) keys) x)) {(b', key). b' = b \<and> key \<in> set keys}"
    unfolding i by auto
  have "index_op p q (\<lambda>x. (if ext_key (int_hashes p) key = x then 1 else 0) + int (count_list (map (ext_key (int_hashes p)) keys) x))
      ({(b, key)} \<union> {(b', key). b' = b \<and> key \<in> set keys})"
    by (rule index_op_trans [OF op q(3)])
  moreover have "(\<lambda>x. (if ext_key (int_hashes p) key = x then 1 else 0) + int (count_list (map (ext_key (int_hashes p)) keys) x)) =
    (\<lambda>x. int (count_list (map (ext_key (int_hashes p)) (key # keys)) x))" by (simp add: fun_eq_iff)
  ultimately have "index_op p q (\<lambda>x. int (count_list (map (ext_key (int_hashes p)) (key # keys)) x)) {(b', k). b' = b \<and> k \<in> set (key # keys)}"
    by (auto intro: index_op_weaken)
  then show ?case using p1(1) q(1,2) f(3) by auto
qed

lemma move_op:
  assumes ok: "index_ok p" and c: "cacheable p dst" "dst \<noteq> 0" and run: "move_block_hashes src dst p = Inr q"
  shows "index_op p q (\<lambda>_. 0) {(b, key). b = dst \<and> key \<in> keys_of p src}" "keys_of q dst = keys_of p src"
proof -
  obtain removed p1 where rem: "remove_cached_block_hashes src p = (removed, p1)" by fastforce
  note f = remove_hashes_facts [OF ok rem] and ks = block_keys_list_facts [OF ok, of src]
  have k: "index_ok p1" "index_frame p p1" "keys_of p1 src = {}" "\<And>c. c \<noteq> src \<Longrightarrow> keys_of p1 c = keys_of p c"
    using f(2) by (auto simp: keys_set_def)
  have d: "block_hash (block_at p dst) = None" using run by (simp add: move_block_hashes_def split: if_splits)
  have "keys_of p1 dst = {}" using no_hash_no_keys [OF ok] d k(3,4) by (cases "dst = src") auto
  moreover have "cacheable p1 dst" using c(1) cacheable_frame [OF k(2)] by simp
  moreover have "distinct removed" "set removed = keys_of p src" using f(1) ks by simp_all
  ultimately obtain q' n where q': "fold_res (\<lambda>key. insert_block_hash key dst (Some n)) removed p1 = Inr q'"
    "keys_of q' dst = set removed" and n: "block_hash_num_tokens (block_at p src) = Some n \<or> removed = []"
    and op: "index_op p1 q' (\<lambda>x. int (count_list (map (ext_key (int_hashes p1)) removed) x)) {(b', key). b' = dst \<and> key \<in> set removed}"
    using insert_keys_op [OF k(1) _ c(2), of removed "the (block_hash_num_tokens (block_at p src))"] ok f(1) ks(3)
    by (cases "block_hash_num_tokens (block_at p src)") (auto simp: index_ok_def)
  have "q = q'" using run rem n q'(1) by (auto simp: move_block_hashes_def split: if_splits)
  moreover have "int_hashes p1 = int_hashes p" using k(2) by (simp add: index_frame_def same_consts_def)
  ultimately show "index_op p q (\<lambda>_. 0) {(b, key). b = dst \<and> key \<in> keys_of p src}" "keys_of q dst = keys_of p src"
    using index_op_trans [OF remove_op [OF ok rem] op] q'(2) \<open>set removed = keys_of p src\<close> by simp_all
qed

lemma evict_op:
  assumes "index_ok p"
  shows "index_op p (snd (maybe_evict_cached_block b p)) (\<lambda>_. 0) {}" "keys_of (snd (maybe_evict_cached_block b p)) b = {}"
    "c \<noteq> b \<Longrightarrow> keys_of (snd (maybe_evict_cached_block b p)) c = keys_of p c"
proof -
  let ?p = "on_metrics (on_block_evicted b) p"
  obtain removed q where rem: "remove_cached_block_hashes b ?p = (removed, q)" by fastforce
  have ev: "snd (maybe_evict_cached_block b p) = emit_block_removed_events removed q"
    by (simp add: maybe_evict_cached_block_def rem) (simp add: emit_block_removed_events_def)
  have ok: "index_ok ?p" using index_ok_frame [OF on_metrics_frames(2) assms] .
  have "key_op p ?p {}" using key_op_ref [OF assms on_metrics_frames(2)] .
  then have "index_op p ?p (\<lambda>_. 0) {}" using on_metrics_frames(1) by (simp add: index_op_def key_op_def)
  then show "index_op p (snd (maybe_evict_cached_block b p)) (\<lambda>_. 0) {}"
    using index_op_trans [of p ?p "\<lambda>_. 0" "{}"] remove_emit_op [OF ok rem] unfolding ev by fastforce
  show "keys_of (snd (maybe_evict_cached_block b p)) b = {}" using remove_emit_op [OF ok rem] unfolding ev by simp
  show "keys_of (snd (maybe_evict_cached_block b p)) c = keys_of p c" if "c \<noteq> b"
    using remove_hashes_facts(2) [OF ok rem] that keys_of_frame [OF on_metrics_frames(2)] unfolding ev by (simp add: keys_set_def)
qed

section \<open>Allocation\<close>

lemma ref_frame_consts: "ref_frame p q \<Longrightarrow> num_gpu_blocks q = num_gpu_blocks p"
  by (simp add: ref_frame_def same_consts_def)

text \<open>The reference count of \<open>b\<close> changes by \<open>k\<close>, with the metrics callback \<open>g\<close> afterwards.\<close>

definition add_ref :: "int \<Rightarrow> nat \<Rightarrow> (collector \<Rightarrow> collector) \<Rightarrow> block_pool \<Rightarrow> block_pool" where
  "add_ref k b g p = on_metrics g (upd_block b (\<lambda>blk. blk\<lparr>ref_cnt := ref_cnt blk + k\<rparr>) p)"

lemma on_metrics_at [simp]: "block_at (on_metrics g p) b = block_at p b"
  by (simp add: on_metrics_def split: option.splits)

lemma add_ref_cnt [simp]: "ref_cnt (block_at (add_ref k b g p) c) = ref_cnt (block_at p c) + (if c = b then k else 0)"
  by (simp add: add_ref_def)

lemma add_ref_frame: "ref_frame p (add_ref k b g p)"
  unfolding add_ref_def by (rule ref_frame_trans [OF upd_ref_frame on_metrics_frames(2)]) simp

lemma add_ref_refs:
  assumes "refs_ok p free L" "L' \<subseteq> {1 ..< num_gpu_blocks p}" "set free \<inter> L' = {}" "\<And>c. c \<noteq> b \<Longrightarrow> c \<in> L' \<longleftrightarrow> c \<in> L"
    "b \<in> {1 ..< num_gpu_blocks p} \<Longrightarrow> 0 \<le> ref_cnt (block_at p b) + k \<and> (ref_cnt (block_at p b) + k = 0 \<longleftrightarrow> b \<in> set free \<union> L')"
  shows "refs_ok (add_ref k b g p) free L'"
  unfolding add_ref_def
  by (rule refs_ok_frame [OF on_metrics_frames(1)], rule refs_ok_upd [OF assms(1) _ assms(2-4)])
    (use assms(5) in \<open>simp_all add: links_def\<close>)

lemma take_block_op:
  assumes ok: "index_ok p" and rf: "refs_ok p free L" and b: "b \<in> L"
  shows "\<exists>q. take_block b p = Inr q \<and> key_op p q {} \<and> refs_ok q free (L - {b}) \<and> keys_of q b = {} \<and>
    (\<forall>c. c \<noteq> b \<longrightarrow> keys_of q c = keys_of p c) \<and> (\<forall>c. ref_cnt (block_at q c) = ref_cnt (block_at p c) + (if c = b then 1 else 0))"
proof -
  define p1 where "p1 = (if enable_caching p then snd (maybe_evict_cached_block b p) else p)"
  have none: "keys_of p b = {}" if "\<not> enable_caching p" using ok that by (auto simp: index_ok_def)
  have p1: "index_op p p1 (\<lambda>_. 0) {}" "keys_of p1 b = {}" "\<And>c. c \<noteq> b \<Longrightarrow> keys_of p1 c = keys_of p c"
    using evict_op [OF ok, where b = b] index_op_refl [OF ok] none by (simp_all add: p1_def)
  then have f: "index_ok p1" "index_frame p p1" by (simp_all add: index_op_def)
  have rf1: "refs_ok p1 free L" using refs_ok_frame [OF f(2) rf] .
  have cnt: "ref_cnt (block_at p1 c) = ref_cnt (block_at p c)" for c using f(2) by (simp add: index_frame_def)
  have bn: "b < num_gpu_blocks p1" "b \<noteq> 0" using rf1 b by (auto simp: refs_ok_def)
  have z: "ref_cnt (block_at p1 b) = 0" using refs_block(3) [OF rf1 bn] b by simp
  let ?q = "add_ref 1 b (on_block_allocated b) p1"
  have "take_block b p = Inr ?q" using z by (simp add: take_block_def p1_def [symmetric] add_ref_def)
  moreover have "key_op p ?q {}" using key_op_trans0 [OF key_op_index [OF p1(1)] key_op_ref [OF f(1) add_ref_frame]] .
  moreover have "refs_ok ?q free (L - {b})"
    by (rule add_ref_refs [OF rf1]) (use rf1 z b in \<open>auto simp: refs_ok_def\<close>)
  moreover have "keys_of ?q c = keys_of p1 c" for c by (rule keys_of_frame [OF add_ref_frame])
  ultimately show ?thesis using p1(2,3) by (simp add: cnt)
qed

lemma take_blocks_op:
  assumes "index_ok p" "refs_ok p free L" "distinct bs" "set bs \<subseteq> L"
  shows "\<exists>q. fold_res take_block bs p = Inr q \<and> key_op p q {} \<and> refs_ok q free (L - set bs) \<and> (\<forall>b \<in> set bs. keys_of q b = {}) \<and>
    (\<forall>c. c \<notin> set bs \<longrightarrow> keys_of q c = keys_of p c) \<and>
    (\<forall>c. ref_cnt (block_at q c) = ref_cnt (block_at p c) + (if c \<in> set bs then 1 else 0))"
  using assms
proof (induction bs arbitrary: p L)
  case Nil
  then show ?case using key_op_ref ref_frame_refl by simp
next
  case (Cons b bs)
  obtain p1 where p1: "take_block b p = Inr p1" "key_op p p1 {}" "refs_ok p1 free (L - {b})" "keys_of p1 b = {}"
    "\<And>c. c \<noteq> b \<Longrightarrow> keys_of p1 c = keys_of p c" "\<And>c. ref_cnt (block_at p1 c) = ref_cnt (block_at p c) + (if c = b then 1 else 0)"
    using take_block_op [OF Cons.prems(1,2), of b] Cons.prems(4) by auto
  have "index_ok p1" "distinct bs" "set bs \<subseteq> L - {b}" using p1(2) Cons.prems(3,4) by (auto simp: key_op_def)
  from Cons.IH [OF this(1) p1(3) this(2,3)]
  obtain q where q: "fold_res take_block bs p1 = Inr q" "key_op p1 q {}" "refs_ok q free (L - {b} - set bs)"
    "\<forall>c \<in> set bs. keys_of q c = {}" "\<And>c. c \<notin> set bs \<Longrightarrow> keys_of q c = keys_of p1 c"
    "\<And>c. ref_cnt (block_at q c) = ref_cnt (block_at p1 c) + (if c \<in> set bs then 1 else 0)" by blast
  have "L - {b} - set bs = L - set (b # bs)" by auto
  moreover have "keys_of q b = {}" using q(5) [of b] p1(4) Cons.prems(3) by simp
  ultimately show ?case
    using p1 q key_op_trans0 [OF p1(2) q(2)] Cons.prems(3) by auto
qed

lemma refs_pop:
  assumes "refs_ok p (ys @ zs) {}"
  shows "\<exists>q. popleft_n (length ys) p = Inr (map Blk ys, q) \<and> refs_ok q zs (set ys) \<and> ref_frame p q \<and>
    (\<forall>b. ref_cnt (block_at q b) = ref_cnt (block_at p b))"
proof -
  have rep: "represents p (ys @ zs)" using assms by (simp add: refs_ok_def)
  obtain q where q: "popleft_n (length ys) p = Inr (map Blk ys, q)" "represents q zs" "updates p q"
    using fq.popn_take [OF rep] by blast
  note u = updates_facts [OF q(3)]
  have "distinct (ys @ zs)" using fq.rep_distinct [OF rep] .
  then have "refs_ok q zs (set ys)" using assms q(2) u by (auto simp: refs_ok_def ref_frame_def same_consts_def)
  then show ?thesis using q(1) u by auto
qed

lemma get_new_blocks_op:
  assumes ok: "index_ok p" and rf: "refs_ok p (ys @ zs) {}"
  shows "\<exists>q. get_new_blocks (length ys) p = Inr (ys, q) \<and> key_op p q {} \<and> refs_ok q zs {} \<and> (\<forall>b \<in> set ys. keys_of q b = {}) \<and>
    (\<forall>c. c \<notin> set ys \<longrightarrow> keys_of q c = keys_of p c) \<and>
    (\<forall>c. ref_cnt (block_at q c) = ref_cnt (block_at p c) + (if c \<in> set ys then 1 else 0))"
proof -
  have rep: "represents p (ys @ zs)" using rf by (simp add: refs_ok_def)
  then have n: "int (length ys) \<le> num_free_blocks p" by (simp add: represents_def)
  obtain p1 where p1: "popleft_n (length ys) p = Inr (map Blk ys, p1)" "refs_ok p1 zs (set ys)" "ref_frame p p1"
    "\<And>b. ref_cnt (block_at p1 b) = ref_cnt (block_at p b)" using refs_pop [OF rf] by blast
  have k1: "key_op p p1 {}" using key_op_ref [OF ok p1(3)] .
  have "distinct ys" using fq.rep_distinct [OF rep] by simp
  from take_blocks_op [OF index_ok_frame [OF p1(3) ok] p1(2) this]
  obtain q where q: "fold_res take_block ys p1 = Inr q" "key_op p1 q {}" "refs_ok q zs {}" "\<forall>b \<in> set ys. keys_of q b = {}"
    "\<And>c. c \<notin> set ys \<Longrightarrow> keys_of q c = keys_of p1 c" "\<And>c. ref_cnt (block_at q c) = ref_cnt (block_at p1 c) + (if c \<in> set ys then 1 else 0)"
    by auto
  have "map ref_id (map Blk ys) = ys" by (induction ys) (simp_all add: ref_id_def)
  then have "get_new_blocks (length ys) p = Inr (ys, q)" using n p1(1) q(1) by (simp add: get_new_blocks_def)
  then show ?thesis using q key_op_trans0 [OF k1 q(2)] p1(4) keys_of_frame [OF p1(3)] by simp
qed

section \<open>Touching blocks\<close>

lemma touch_one_op:
  assumes ok: "index_ok p" and rf: "refs_ok p free {}" and b: "b < num_gpu_blocks p"
  shows "\<exists>q. touch_one b p = Inr q \<and> key_op p q {} \<and> refs_ok q (filter (\<lambda>x. x \<noteq> b) free) {} \<and>
    (\<forall>c. keys_of q c = keys_of p c) \<and> (\<forall>c. ref_cnt (block_at q c) = ref_cnt (block_at p c) + (if c = b then 1 else 0))"
proof -
  let ?free = "filter (\<lambda>x. x \<noteq> b) free"
  have null: "is_null (block_at p b) \<longleftrightarrow> b = 0" using refs_block(1) [OF rf b] .
  obtain p1 where p1: "(if ref_cnt (block_at p b) = 0 \<and> \<not> is_null (block_at p b) then remove_q (Blk b) p else Inr p) = Inr p1"
    "ref_frame p p1" "refs_ok p1 ?free (if b \<in> set free then {b} else {})" "\<And>c. ref_cnt (block_at p1 c) = ref_cnt (block_at p c)"
  proof (cases "b \<in> set free")
    case True
    then have b0: "b \<noteq> 0" "ref_cnt (block_at p b) = 0" using rf b by (auto simp: refs_ok_def)
    obtain p1 where p1: "remove_q (Blk b) p = Inr p1" "represents p1 ?free" "updates p p1"
      using fq.rem_filter [of p free b] rf True by (auto simp: refs_ok_def)
    note u = updates_facts [OF p1(3)]
    have "refs_ok p1 ?free {b}" using rf True p1(2) u by (auto simp: refs_ok_def ref_frame_def same_consts_def)
    then show ?thesis using p1(1) u b0 null True by (intro that [of p1]) simp_all
  next
    case False
    then have "\<not> (ref_cnt (block_at p b) = 0 \<and> \<not> is_null (block_at p b))" using refs_block(3) [OF rf b] null by auto
    moreover have "?free = free" using False by (auto intro: filter_True)
    ultimately show ?thesis using rf False ref_frame_refl by (intro that [of p]) auto
  qed
  let ?q = "add_ref 1 b (on_block_accessed b) p1"
  have "touch_one b p = Inr ?q" using p1(1) by (simp add: touch_one_def add_ref_def)
  moreover have "ref_frame p ?q" using ref_frame_trans [OF p1(2) add_ref_frame] .
  moreover have "refs_ok ?q ?free {}"
  proof (rule add_ref_refs [OF p1(3)])
    assume "b \<in> {1 ..< num_gpu_blocks p1}"
    then have "0 \<le> ref_cnt (block_at p1 b)" using p1(3) by (simp add: refs_ok_def)
    then show "0 \<le> ref_cnt (block_at p1 b) + 1 \<and> (ref_cnt (block_at p1 b) + 1 = 0 \<longleftrightarrow> b \<in> set ?free \<union> {})" by simp
  qed auto
  ultimately show ?thesis
    using key_op_ref [OF ok] keys_of_frame [of p ?q] p1(4) by simp
qed

lemma touch_op:
  assumes "index_ok p" "refs_ok p free {}" "\<forall>b \<in> set bs. b < num_gpu_blocks p"
  shows "\<exists>q. touch bs p = Inr q \<and> key_op p q {} \<and> refs_ok q (filter (\<lambda>x. x \<notin> set bs) free) {} \<and> (\<forall>c. keys_of q c = keys_of p c) \<and>
    (\<forall>c. ref_cnt (block_at q c) = ref_cnt (block_at p c) + int (count_list bs c))"
  using assms unfolding touch_def
proof (induction bs arbitrary: p free)
  case Nil
  then show ?case using key_op_ref ref_frame_refl by simp
next
  case (Cons b bs)
  obtain p1 where p1: "touch_one b p = Inr p1" "key_op p p1 {}" "refs_ok p1 (filter (\<lambda>x. x \<noteq> b) free) {}"
    "\<And>c. keys_of p1 c = keys_of p c" "\<And>c. ref_cnt (block_at p1 c) = ref_cnt (block_at p c) + (if c = b then 1 else 0)"
    using touch_one_op [OF Cons.prems(1,2), of b] Cons.prems(3) by auto
  have "index_ok p1" "\<forall>b \<in> set bs. b < num_gpu_blocks p1" using p1(2) Cons.prems(3) by (auto simp: key_op_def same_consts_def)
  from Cons.IH [OF this(1) p1(3) this(2)]
  obtain q where q: "fold_res touch_one bs p1 = Inr q" "key_op p1 q {}"
    "refs_ok q (filter (\<lambda>x. x \<notin> set bs) (filter (\<lambda>x. x \<noteq> b) free)) {}" "\<And>c. keys_of q c = keys_of p1 c"
    "\<And>c. ref_cnt (block_at q c) = ref_cnt (block_at p1 c) + int (count_list bs c)" by blast
  have "filter (\<lambda>x. x \<notin> set bs) (filter (\<lambda>x. x \<noteq> b) free) = filter (\<lambda>x. x \<notin> set (b # bs)) free"
    by (auto intro: filter_cong)
  then show ?case using p1 q key_op_trans0 [OF p1(2) q(2)] by auto
qed

section \<open>Releasing blocks\<close>

text \<open>The blocks whose count reaches zero when the references \<open>bs\<close> are given back, in order.\<close>

fun released :: "(nat \<Rightarrow> int) \<Rightarrow> nat list \<Rightarrow> nat list" where
  "released cnt [] = []"
| "released cnt (b # bs) = (if b \<noteq> 0 \<and> cnt b = 1 then [b] else []) @ released (cnt(b := cnt b - 1)) bs"

definition evict_soon :: "block_pool \<Rightarrow> nat \<Rightarrow> bool" where
  "evict_soon p b \<longleftrightarrow> block_hash (block_at p b) = None \<or> \<not> enable_caching p"

definition freeable :: "block_pool \<Rightarrow> nat list \<Rightarrow> bool" where
  "freeable p bs \<longleftrightarrow> (\<forall>b \<in> set bs. b < num_gpu_blocks p \<and> (b \<noteq> 0 \<longrightarrow> int (count_list bs b) \<le> ref_cnt (block_at p b)))"

definition drop_ref :: "nat \<Rightarrow> block_pool \<Rightarrow> block_pool" where
  "drop_ref b p = upd_block b (\<lambda>blk. blk\<lparr>ref_cnt := ref_cnt blk - 1\<rparr>) p"

lemma drop_ref_facts:
  shows "ref_frame p (drop_ref b p)" "ref_cnt (block_at (drop_ref b p) c) = ref_cnt (block_at p c) - (if c = b then 1 else 0)"
  unfolding drop_ref_def by (rule upd_ref_frame) simp_all

lemma free_one_eq:
  "free_one b (F, L, p) =
     (let q = drop_ref b p
      in if ref_cnt (block_at p b) = 1 \<and> \<not> is_null (block_at p b) then
           if evict_soon p b then (F @ [b], L, q) else (F, L @ [b], q)
         else (F, L, q))"
  by (simp add: free_one_def Let_def drop_ref_def evict_soon_def)

lemma freeable_Cons:
  assumes "freeable p (b # bs)"
  shows "freeable (drop_ref b p) bs"
  unfolding freeable_def
proof
  fix c assume c: "c \<in> set bs"
  then have "c < num_gpu_blocks p" "c \<noteq> 0 \<longrightarrow> int (count_list (b # bs) c) \<le> ref_cnt (block_at p c)"
    using assms by (auto simp: freeable_def)
  then show "c < num_gpu_blocks (drop_ref b p) \<and> (c \<noteq> 0 \<longrightarrow> int (count_list bs c) \<le> ref_cnt (block_at (drop_ref b p) c))"
    by (auto simp: drop_ref_facts ref_frame_consts [OF drop_ref_facts(1)] split: if_splits)
qed

lemma free_loop:
  assumes "refs_ok p free (set F \<union> set L)" "distinct (F @ L)" "freeable p bs"
  defines "Z \<equiv> released (\<lambda>b. ref_cnt (block_at p b)) bs"
  shows "\<exists>q. fold free_one bs (F, L, p) = (F @ filter (evict_soon p) Z, L @ filter (\<lambda>b. \<not> evict_soon p b) Z, q) \<and>
    refs_ok q free (set F \<union> set L \<union> set Z) \<and> distinct (F @ L @ Z) \<and> ref_frame p q \<and>
    (\<forall>c. ref_cnt (block_at q c) = ref_cnt (block_at p c) - int (count_list bs c))"
  using assms(1-3) unfolding Z_def
proof (induction bs arbitrary: F L p)
  case Nil
  then show ?case using ref_frame_refl by simp
next
  case (Cons b bs)
  let ?p = "drop_ref b p" and ?cnt = "\<lambda>c. ref_cnt (block_at p c)"
  note d = drop_ref_facts [where b = b and p = p]
  have b: "b < num_gpu_blocks p" "b \<noteq> 0 \<Longrightarrow> 1 \<le> ?cnt b" using Cons.prems(3) by (auto simp: freeable_def)
  have null: "is_null (block_at p b) \<longleftrightarrow> b = 0" using refs_block(1) [OF Cons.prems(1) b(1)] .
  have out: "b \<noteq> 0 \<Longrightarrow> b \<notin> set free \<union> (set F \<union> set L)" using refs_block(3) [OF Cons.prems(1) b(1)] b(2) by auto
  have cnt: "(\<lambda>c. ref_cnt (block_at ?p c)) = ?cnt(b := ?cnt b - 1)" by (auto simp: d(2))
  have es: "evict_soon ?p = evict_soon p" using d(1) by (auto simp: evict_soon_def ref_frame_def same_consts_def)
  define z where "z \<longleftrightarrow> b \<noteq> 0 \<and> ?cnt b = 1"
  let ?F = "F @ (if z \<and> evict_soon p b then [b] else [])" and ?L = "L @ (if z \<and> \<not> evict_soon p b then [b] else [])"
  have step: "free_one b (F, L, p) = (?F, ?L, ?p)" by (auto simp: free_one_eq Let_def null z_def)
  have Z: "released ?cnt (b # bs) = (if z then [b] else []) @ released (\<lambda>c. ref_cnt (block_at ?p c)) bs"
    by (simp add: z_def cnt)
  have sets: "set ?F \<union> set ?L = set F \<union> set L \<union> (if z then {b} else {})" by auto
  have "refs_ok ?p free (set ?F \<union> set ?L)"
    unfolding drop_ref_def sets
  proof (rule refs_ok_upd [OF Cons.prems(1)])
    show "set F \<union> set L \<union> (if z then {b} else {}) \<subseteq> {1 ..< num_gpu_blocks p}"
      using Cons.prems(1) b(1) by (auto simp: refs_ok_def z_def)
    show "set free \<inter> (set F \<union> set L \<union> (if z then {b} else {})) = {}" using Cons.prems(1) out by (auto simp: refs_ok_def z_def)
  qed (use out b(2) in \<open>auto simp: links_def z_def\<close>)
  moreover have "distinct (?F @ ?L)" using Cons.prems(2) out by (auto simp: z_def)
  moreover note freeable_Cons [OF Cons.prems(3)]
  ultimately obtain q where q: "fold free_one bs (?F, ?L, ?p) =
      (?F @ filter (evict_soon p) (released (\<lambda>c. ref_cnt (block_at ?p c)) bs),
       ?L @ filter (\<lambda>b. \<not> evict_soon p b) (released (\<lambda>c. ref_cnt (block_at ?p c)) bs), q)"
    "refs_ok q free (set ?F \<union> set ?L \<union> set (released (\<lambda>c. ref_cnt (block_at ?p c)) bs))"
    "distinct (?F @ ?L @ released (\<lambda>c. ref_cnt (block_at ?p c)) bs)" "ref_frame ?p q"
    "\<And>c. ref_cnt (block_at q c) = ref_cnt (block_at ?p c) - int (count_list bs c)"
    using Cons.IH [of ?p ?F ?L] unfolding es by blast
  have "refs_ok q free (set F \<union> set L \<union> set (released ?cnt (b # bs)))"
    using q(2) unfolding Z sets by (simp add: Un_assoc split: if_splits)
  moreover have "distinct (F @ L @ released ?cnt (b # bs))" using q(3) unfolding Z by (auto split: if_splits)
  ultimately show ?case
    using q(1,5) ref_frame_trans [OF d(1) q(4)] unfolding Z by (simp add: step d(2))
qed

lemma free_blocks_op:
  assumes ok: "index_ok p" and rf: "refs_ok p free {}" and fr: "freeable p bs"
  defines "Z \<equiv> released (\<lambda>b. ref_cnt (block_at p b)) bs"
  shows "\<exists>q. free_blocks bs p = Inr q \<and> key_op p q {} \<and>
    refs_ok q (filter (evict_soon p) Z @ free @ filter (\<lambda>b. \<not> evict_soon p b) Z) {} \<and> (\<forall>c. keys_of q c = keys_of p c) \<and>
    (\<forall>c. ref_cnt (block_at q c) = ref_cnt (block_at p c) - int (count_list bs c))"
proof -
  let ?F = "filter (evict_soon p) Z" and ?L = "filter (\<lambda>b. \<not> evict_soon p b) Z"
  obtain p1 where p1: "fold free_one bs ([], [], p) = (?F, ?L, p1)" "refs_ok p1 free (set Z)" "distinct Z" "ref_frame p p1"
    "\<And>c. ref_cnt (block_at p1 c) = ref_cnt (block_at p c) - int (count_list bs c)"
    using free_loop [of p free "[]" "[]" bs] rf fr by (auto simp: Z_def)
  have rep1: "represents p1 free" using p1(2) by (simp add: refs_ok_def)
  have "distinct (?F @ free)" using p1(2,3) fq.rep_distinct [OF rep1] by (auto simp: refs_ok_def)
  then obtain p2 where p2: "prepend_n (map Blk ?F) p1 = Inr p2" "represents p2 (?F @ free)" "updates p1 p2"
    using fq.prepn_list [OF rep1] by blast
  have "distinct ((?F @ free) @ ?L)" using p1(2,3) fq.rep_distinct [OF rep1] by (auto simp: refs_ok_def)
  then obtain q where q: "append_n (map Blk ?L) p2 = Inr q" "represents q ((?F @ free) @ ?L)" "updates p2 q"
    using fq.appn_list [OF p2(2)] by blast
  note u = updates_facts [OF fq.upd_trans [OF p2(3) q(3)]]
  have "free_blocks bs p = Inr q" using p1(1) p2(1) q(1) by (simp add: free_blocks_def)
  moreover have "ref_frame p q" using ref_frame_trans [OF p1(4) u(1)] .
  moreover have "set (?F @ free @ ?L) = set free \<union> set Z" by auto
  then have "refs_ok q (?F @ free @ ?L) {}"
    using p1(2) q(2) u(1,2) by (auto simp: refs_ok_def ref_frame_def same_consts_def)
  ultimately show ?thesis
    using key_op_ref [OF ok] keys_of_frame [of p q] u(2) p1(5) by simp
qed

section \<open>Evicting, resetting and creating\<close>

lemma evict_blocks_op:
  assumes "index_ok p" "evict_blocks ids p = Inr q"
  shows "index_op p q (\<lambda>_. 0) {} \<and> (\<forall>b \<in> set ids. keys_of q b = {}) \<and> (\<forall>c. c \<notin> set ids \<longrightarrow> keys_of q c = keys_of p c)"
  using assms unfolding evict_blocks_def
proof (induction ids arbitrary: p)
  case Nil
  then show ?case using index_op_refl by simp
next
  case (Cons b ids)
  let ?p = "snd (maybe_evict_cached_block b p)"
  have "fold_res evict_one ids ?p = Inr q" using Cons.prems(2) unfolding fold_res.simps evict_one_def [of b] by (simp split: if_splits)
  moreover have op: "index_op p ?p (\<lambda>_. 0) {}" using evict_op(1) [OF Cons.prems(1)] .
  then have "index_ok ?p" by (simp add: index_op_def)
  ultimately have q: "index_op ?p q (\<lambda>_. 0) {}" "\<forall>c \<in> set ids. keys_of q c = {}" "\<And>c. c \<notin> set ids \<Longrightarrow> keys_of q c = keys_of ?p c"
    using Cons.IH by blast+
  have "index_op p q (\<lambda>_. 0) {}" using index_op_trans [OF op q(1)] by simp
  moreover have "keys_of q b = {}" using q(2) q(3) [of b] evict_op(2) [OF Cons.prems(1)] by (cases "b \<in> set ids") auto
  ultimately show ?case using q(2,3) evict_op(3) [OF Cons.prems(1)] by auto
qed

lemma reset_hashes_fold:
  fixes bs :: "nat list" and p :: block_pool
  defines "q \<equiv> fold (\<lambda>b. upd_block b reset_hash) bs p"
  shows "index_frame p q \<and> cached_map q = cached_map p \<and> by_block q = by_block p \<and> kv_event_queue q = kv_event_queue p \<and>
    metrics q = metrics p \<and> (\<forall>c. block_at q c = (if c \<in> set bs then reset_hash (block_at p c) else block_at p c))"
  unfolding q_def
proof (induction bs arbitrary: p)
  case Nil
  then show ?case using index_frame_refl by simp
next
  case (Cons b bs)
  have "index_frame p (upd_block b reset_hash p)" by (rule upd_block_index_frame) (simp add: reset_hash_def links_def)
  moreover have "reset_hash (reset_hash x) = reset_hash x" for x by (simp add: reset_hash_def)
  ultimately show ?case using Cons.IH [of "upd_block b reset_hash p"] index_frame_trans [of p "upd_block b reset_hash p"] by auto
qed

lemma reset_op:
  assumes ok: "index_ok p" and run: "reset_prefix_cache p = (True, q)"
  shows "index_ok q" "index_frame p q" "keys_of q b = {}"
    "kv_event_queue q = kv_event_queue p @ (if enable_events p then [AllBlocksCleared] else [])"
proof -
  let ?p1 = "p\<lparr>cached_map := [], by_block := []\<rparr>"
  let ?p2 = "fold (\<lambda>b. upd_block b reset_hash) [0 ..< num_gpu_blocks ?p1] ?p1"
  let ?p3 = "on_metrics reset_metrics ?p2"
  have q: "q = (if enable_events ?p3 then ?p3\<lparr>kv_event_queue := kv_event_queue ?p3 @ [AllBlocksCleared]\<rparr> else ?p3)"
    using run by (simp add: reset_prefix_cache_def Let_def split: if_splits)
  note f = reset_hashes_fold [of ?p1 "[0 ..< num_gpu_blocks ?p1]"]
  have "index_frame p ?p1" by (simp add: index_frame_def same_consts_def)
  then have f2: "index_frame p ?p2" using f index_frame_trans by blast
  then have f3: "index_frame p ?p3" using index_frame_trans [OF _ on_metrics_frames(1)] by blast
  then show fr: "index_frame p q" by (simp add: q index_frame_def same_consts_def)
  have at: "block_at q c = (if c < num_gpu_blocks p then reset_hash (block_at p c) else block_at p c)" for c using f by (simp add: q)
  have none: "block_hash (block_at p c) = None" if "\<not> c < num_gpu_blocks p" for c
    using that ok no_hash_no_keys [OF ok, of c] by (auto simp: index_ok_def)
  have m: "cached_map q = []" "by_block q = []" using f by (simp_all add: q on_metrics_def split: option.splits)
  show k: "keys_of q b = {}" for b using none by (simp add: keys_of_def m at reset_hash_def)
  have nt: "block_hash (block_at p c) = None \<longleftrightarrow> block_hash_num_tokens (block_at p c) = None" for c using ok by (simp add: index_ok_def)
  have "iter_order q = iter_order p" using fr by (simp add: index_frame_def same_consts_def)
  then show "index_ok q" using ok nt unfolding index_ok_def by (simp add: k m at extra_ok_def reset_hash_def) (simp add: members_def map_ok_def)
  have "enable_events ?p3 = enable_events p" using f3 by (simp add: index_frame_def same_consts_def)
  then show "kv_event_queue q = kv_event_queue p @ (if enable_events p then [AllBlocksCleared] else [])"
    using f by (simp add: q on_metrics_def split: option.splits)
qed

lemma new_pool_facts:
  assumes "0 < n" "\<And>xs. mset (order xs) = mset xs"
  shows "\<exists>p. new_pool n caching hbs events mc i order = Inr p \<and> index_ok p \<and> refs_ok p [1 ..< nat n] {} \<and> (\<forall>b. keys_of p b = {}) \<and>
    (\<forall>b. ref_cnt (block_at p b) = 0) \<and> kv_event_queue p = [] \<and> num_gpu_blocks p = nat n \<and> enable_caching p = caching \<and>
    hash_block_size p = hbs \<and> enable_events p = events \<and> int_hashes p = i"
proof -
  let ?q0 = "init_queue [0 ..< nat n] fresh_store"
  have up: "[0 ..< nat n] = 0 # [1 ..< nat n]" using assms(1) by (simp add: upt_conv_Cons)
  have "represents ?q0 (0 # [1 ..< nat n])" using fresh_queue [of "nat n"] unfolding up .
  then obtain q where q: "popleft ?q0 = Inr (Blk 0, q)" "represents q [1 ..< nat n]" "updates ?q0 q" using popleft_Cons by blast
  have "data (heap q (Blk b)) = data (heap ?q0 (Blk b))" for b using q(3) by (auto simp: updates_def)
  moreover have "data (heap ?q0 (Blk b)) = data (fresh_store (Blk b))" for b by (rule init_queue_data) simp
  ultimately have d: "data (heap q (Blk b)) = data (new_block (int b))" for b by (simp add: fresh_store_def)
  note e = data_eqD [OF d]
  let ?h = "(heap q)(Blk 0 := (heap q (Blk 0))\<lparr>is_null := True\<rparr>)"
  let ?p = "\<lparr>heap = ?h, num_free_blocks = num_free_blocks q, num_gpu_blocks = nat n, enable_caching = caching,
    hash_block_size = hbs, cached_map = [], by_block = [], enable_events = events, kv_event_queue = [], metrics = mc,
    int_hashes = i, iter_order = order\<rparr>"
  have at: "block_at ?p b = (if b = 0 then (heap q (Blk 0))\<lparr>is_null := True\<rparr> else heap q (Blk b))" for b by (simp add: block_at_def)
  have run: "new_pool n caching hbs events mc i order = Inr ?p" using assms(1) q(1) by (simp add: new_pool_def)
  have "represents ?p [1 ..< nat n] = represents (q :: free_queue) [1 ..< nat n]"
  proof -
    have lk: "links (?h r) = links (heap q r)" for r by (simp add: links_def)
    have pn: "prev_free_block (?h r) = prev_free_block (heap q r)" "next_free_block (?h r) = next_free_block (heap q r)" for r
      using lk [of r] by (simp_all only: links_def prod.inject)
    show ?thesis unfolding represents_def spells_def using linked_cong [of ?h "heap q", OF lk] by (simp add: pn del: fun_upd_apply)
  qed
  then have "represents ?p [1 ..< nat n]" using q(2) by simp
  then have "refs_ok ?p [1 ..< nat n] {}" using assms(1) unfolding refs_ok_def at by (auto simp: e new_block_def)
  moreover have k: "keys_of ?p b = {}" for b unfolding keys_of_def at by (simp add: e new_block_def)
  moreover have "index_ok ?p"
    unfolding index_ok_def at k by (simp add: e new_block_def extra_ok_def members_def map_ok_def assms(2))
  moreover have "ref_cnt (block_at ?p b) = 0" for b unfolding at by (simp add: e new_block_def)
  ultimately show ?thesis using run by (intro exI [of _ ?p]) simp
qed

end
