(* ===== verification/Pool_Runs.thy ===== *)
theory Pool_Runs
  imports Pool_Steps
begin

text \<open>
  Runs of the block pool: any interleaving of its operations that a scheduler may issue. The state carries two
  ghost components, the events a consumer has taken so far and a log of which request and which prefix every
  block was cached for since it was last handed out.

  The properties of this theory hold in every state of every run: the free list and the reference counts agree,
  a block that is handed out is fresh, the events tell the cached blocks, and a cache hit is a block that was
  filled for the same tokens.
\<close>

section \<open>Runs\<close>

text \<open>A log entry: block, group, request and the number of hash blocks of the request that the entry covers.\<close>

type_synonym log_entry = "nat \<times> int \<times> request \<times> nat"

record run_state =
  pool :: block_pool
  taken :: "kv_event list"
  cache_log :: "log_entry set"

inductive pool_run :: "(byte list \<Rightarrow> byte list) \<Rightarrow> run_state \<Rightarrow> bool" for sha256 where
  run_start: "new_pool n caching hbs events mc i order = Inr p \<Longrightarrow> (\<And>xs. mset (order xs) = mset xs) \<Longrightarrow>
    pool_run sha256 \<lparr>pool = p, taken = [], cache_log = {}\<rparr>"
| run_new: "pool_run sha256 g \<Longrightarrow> get_new_blocks n (pool g) = Inr (bs, q) \<Longrightarrow>
    pool_run sha256 (g\<lparr>pool := q, cache_log := {e \<in> cache_log g. fst e \<notin> set bs}\<rparr>)"
| run_touch: "pool_run sha256 g \<Longrightarrow> \<forall>b \<in> set bs. b < num_gpu_blocks (pool g) \<Longrightarrow> touch bs (pool g) = Inr q \<Longrightarrow>
    pool_run sha256 (g\<lparr>pool := q\<rparr>)"
| run_free: "pool_run sha256 g \<Longrightarrow> freeable (pool g) bs \<Longrightarrow> free_blocks bs (pool g) = Inr q \<Longrightarrow>
    pool_run sha256 (g\<lparr>pool := q\<rparr>)"
| run_full: "pool_run sha256 g \<Longrightarrow> enable_caching (pool g) \<Longrightarrow> \<forall>b \<in> set bs. b < num_gpu_blocks (pool g) \<Longrightarrow> 0 < bsz \<Longrightarrow>
    cache_full_blocks sha256 r bs nc nf bsz gid block_mask (pool g) = Inr (r', q) \<Longrightarrow>
    pool_run sha256 (g\<lparr>pool := q, cache_log := cache_log g \<union>
      {(bs ! i, gid, r, (i + 1) * (bsz div hash_block_size (pool g))) | i. nc \<le> i \<and> i < nf \<and> i < length bs}\<rparr>)"
| run_partial: "pool_run sha256 g \<Longrightarrow> enable_caching (pool g) \<Longrightarrow> b < num_gpu_blocks (pool g) \<Longrightarrow>
    cache_partial_block sha256 r b n gid bsz (pool g) = Inr (key, r', q) \<Longrightarrow>
    pool_run sha256 (g\<lparr>pool := q, cache_log := insert (b, gid, r, n div hash_block_size (pool g)) (cache_log g)\<rparr>)"
| run_move: "pool_run sha256 g \<Longrightarrow> enable_caching (pool g) \<Longrightarrow> dst \<noteq> 0 \<Longrightarrow> dst < num_gpu_blocks (pool g) \<Longrightarrow>
    move_block_hashes src dst (pool g) = Inr q \<Longrightarrow>
    pool_run sha256 (g\<lparr>pool := q, cache_log := cache_log g \<union> {(dst, e) | e. (src, e) \<in> cache_log g}\<rparr>)"
| run_evict: "pool_run sha256 g \<Longrightarrow> evict_blocks ids (pool g) = Inr q \<Longrightarrow> pool_run sha256 (g\<lparr>pool := q\<rparr>)"
| run_reset: "pool_run sha256 g \<Longrightarrow> reset_prefix_cache (pool g) = (b, q) \<Longrightarrow> pool_run sha256 (g\<lparr>pool := q\<rparr>)"
| run_take: "pool_run sha256 g \<Longrightarrow> take_events (pool g) = (es, q) \<Longrightarrow>
    pool_run sha256 (g\<lparr>pool := q, taken := taken g @ es\<rparr>)"

section \<open>The invariant of a run\<close>

definition entry_key :: "int \<Rightarrow> request \<Rightarrow> nat \<Rightarrow> byte list \<Rightarrow> bool" where
  "entry_key gid r m key \<longleftrightarrow> 0 < m \<and> m \<le> length (block_hashes r) \<and>
     make_block_hash_with_group_id (block_hashes r ! (m - 1)) gid = Inr key"

definition logged :: "block_pool \<Rightarrow> log_entry set \<Rightarrow> bool" where
  "logged p lg \<longleftrightarrow> (\<forall>b key. key \<in> keys_of p b \<longrightarrow> (\<exists>gid r m. (b, gid, r, m) \<in> lg \<and> entry_key gid r m key))"

definition run_inv :: "run_state \<Rightarrow> bool" where
  "run_inv g \<longleftrightarrow> index_ok (pool g) \<and> (\<exists>free. refs_ok (pool g) free {}) \<and> logged (pool g) (cache_log g) \<and>
     (enable_events (pool g) \<longrightarrow> (\<forall>x. net (taken g @ kv_event_queue (pool g)) x 0 = cached_count (pool g) x))"

lemma net_balanced:
  assumes "balanced p q (\<lambda>_. 0)" "enable_events p" "net (es @ kv_event_queue p) x 0 = cached_count p x"
  shows "net (es @ kv_event_queue q) x 0 = cached_count q x"
proof -
  obtain fs where fs: "kv_event_queue q = kv_event_queue p @ fs" "AllBlocksCleared \<notin> set fs"
    "net fs x 0 = cached_count q x - cached_count p x" using assms(1,2) unfolding balanced_def by (auto simp del: split_paired_All)
  have "net (es @ kv_event_queue q) x 0 = net fs x (net (es @ kv_event_queue p) x 0)"
    unfolding fs(1) append_assoc [symmetric] by (rule net_append)
  then show ?thesis using net_shift [OF fs(2), of x "cached_count p x"] assms(3) fs(3) by simp
qed

text \<open>An operation that keeps both halves, emits balanced events and gains only logged keys keeps the invariant.\<close>

lemma run_inv_step:
  assumes g: "run_inv g" and k: "key_op (pool g) q N" and rf: "refs_ok q free {}"
    and old: "\<And>b gid r m. (b, gid, r, m) \<in> cache_log g \<Longrightarrow> (b, gid, r, m) \<in> lg \<or> keys_of q b = {}"
    and new: "\<And>b key. (b, key) \<in> N \<Longrightarrow> \<exists>gid r m. (b, gid, r, m) \<in> lg \<and> entry_key gid r m key"
  shows "run_inv (g\<lparr>pool := q, cache_log := lg\<rparr>)"
proof -
  have "logged q lg"
    unfolding logged_def
  proof (intro allI impI)
    fix b key assume key: "key \<in> keys_of q b"
    then consider "key \<in> keys_of (pool g) b" | "(b, key) \<in> N" using k by (auto simp: key_op_def)
    then show "\<exists>gid r m. (b, gid, r, m) \<in> lg \<and> entry_key gid r m key"
    proof cases
      case 1
      then obtain gid r m where e: "(b, gid, r, m) \<in> cache_log g" "entry_key gid r m key" using g unfolding run_inv_def logged_def by blast
      then have "(b, gid, r, m) \<in> lg" using old key by blast
      then show ?thesis using e(2) by blast
    qed (rule new)
  qed
  moreover have "enable_events q = enable_events (pool g)" "balanced (pool g) q (\<lambda>_. 0)" "index_ok q"
    using k by (simp_all add: key_op_def same_consts_def)
  ultimately show ?thesis using g rf net_balanced [of "pool g" q "taken g"] by (auto simp: run_inv_def)
qed

lemma run_inv_same_log:
  assumes "run_inv g" "key_op (pool g) q {}" "refs_ok q free {}"
  shows "run_inv (g\<lparr>pool := q\<rparr>)"
  using run_inv_step [OF assms, of "cache_log g"] by simp

lemma hash_at_fine:
  assumes "resolve_block_hashes (Raw l) hbs bsz False None = Inr hs" "hash_at hs i = Inr h" "0 < bsz"
  shows "0 < (i + 1) * (bsz div hbs) \<and> (i + 1) * (bsz div hbs) \<le> length l \<and> h = l ! ((i + 1) * (bsz div hbs) - 1)"
proof (cases "bsz = hbs")
  case True
  then show ?thesis using assms by (auto simp: resolve_block_hashes_def hash_at_def split: if_splits)
next
  case False
  then have "hbs \<noteq> 0" "bsz mod hbs = 0" and hs: "hs = View \<lparr>hv_hashes = l, scale_factor = bsz div hbs\<rparr>"
    using assms(1) by (auto simp: resolve_block_hashes_def BlockHashListWithBlockSize_def split: if_splits)
  then have k: "0 < bsz div hbs" using assms(3) by (auto simp: div_greater_zero_iff intro: dvd_imp_le)
  define m where "m = (i + 1) * (bsz div hbs)"
  have "(if l = [] \<or> length l < m then Inl IndexError else if m = 0 then Inr (last l) else Inr (l ! (m - 1))) = Inr h"
    using assms(2) unfolding hs hash_at_def hash_list.case get_value_at_def hash_view.select_convs Let_def m_def .
  moreover have "0 < m" using k by (simp add: m_def)
  ultimately show ?thesis unfolding m_def [symmetric] by (simp split: if_splits)
qed

lemma full_entries_logged:
  assumes "(b, key) \<in> full_entries p r bs nc nf bsz gid" "0 < bsz"
  shows "\<exists>i. nc \<le> i \<and> i < nf \<and> i < length bs \<and> b = bs ! i \<and> entry_key gid r ((i + 1) * (bsz div hash_block_size p)) key"
  using assms hash_at_fine [OF _ _ assms(2), of "block_hashes r" "hash_block_size p"]
  unfolding full_entries_def entry_key_def by blast

lemma partial_entries_logged:
  assumes "(b', key) \<in> partial_entries p r b n gid"
  shows "b' = b \<and> entry_key gid r (n div hash_block_size p) key"
  using assms by (auto simp: partial_entries_def entry_key_def get_partial_block_hash_def Let_def split: if_splits)

lemma refs_cacheable: "refs_ok p free L \<Longrightarrow> enable_caching p \<Longrightarrow> b < num_gpu_blocks p \<Longrightarrow> cacheable p b"
  by (simp add: cacheable_def refs_ok_def)

lemma get_new_result:
  assumes ok: "index_ok p" and rf: "refs_ok p free {}" and run: "get_new_blocks n p = Inr (bs, q)"
  shows "n \<le> length free" "bs = take n free" "key_op p q {}" "refs_ok q (drop n free) {}" "\<forall>b \<in> set bs. keys_of q b = {}"
proof -
  have "int (length free) = num_free_blocks p" using rf by (simp add: refs_ok_def represents_def)
  then show n: "n \<le> length free" using run by (simp add: get_new_blocks_def split: if_splits)
  then have "refs_ok p (take n free @ drop n free) {}" "length (take n free) = n" using rf by simp_all
  from get_new_blocks_op [OF ok this(1)] this(2) run
  show "bs = take n free" "key_op p q {}" "refs_ok q (drop n free) {}" "\<forall>b \<in> set bs. keys_of q b = {}" by auto
qed

lemma run_inv_new:
  assumes "run_inv g" "get_new_blocks n (pool g) = Inr (bs, q)"
  shows "run_inv (g\<lparr>pool := q, cache_log := {e \<in> cache_log g. fst e \<notin> set bs}\<rparr>)"
proof -
  obtain free where f: "index_ok (pool g)" "refs_ok (pool g) free {}" using assms(1) by (auto simp: run_inv_def)
  note r = get_new_result [OF f assms(2)]
  show ?thesis by (rule run_inv_step [OF assms(1) r(3,4)]) (use r(5) in auto)
qed

lemma run_inv_index:
  assumes "run_inv g" "index_op (pool g) q (\<lambda>_. 0) N"
    "\<And>b key. (b, key) \<in> N \<Longrightarrow> \<exists>gid r m. (b, gid, r, m) \<in> lg \<and> entry_key gid r m key"
  shows "run_inv (g\<lparr>pool := q, cache_log := cache_log g \<union> lg\<rparr>)"
proof -
  obtain free where "refs_ok (pool g) free {}" using assms(1) by (auto simp: run_inv_def)
  then have "refs_ok q free {}" using assms(2) refs_ok_frame by (auto simp: index_op_def)
  then show ?thesis
    by (rule run_inv_step [OF assms(1) key_op_index [OF assms(2)]]) (use assms(3) in blast)+
qed

lemma run_inv_move:
  assumes g: "run_inv g" and c: "enable_caching (pool g)" "dst \<noteq> 0" "dst < num_gpu_blocks (pool g)"
    and run: "move_block_hashes src dst (pool g) = Inr q"
  shows "run_inv (g\<lparr>pool := q, cache_log := cache_log g \<union> {(dst, e) | e. (src, e) \<in> cache_log g}\<rparr>)"
proof -
  obtain free where f: "index_ok (pool g)" "refs_ok (pool g) free {}" using g by (auto simp: run_inv_def)
  show ?thesis
  proof (rule run_inv_index [OF g move_op(1) [OF f(1) refs_cacheable [OF f(2) c(1,3)] c(2) run]])
    fix b key assume "(b, key) \<in> {(b, key). b = dst \<and> key \<in> keys_of (pool g) src}"
    then have b: "b = dst" "key \<in> keys_of (pool g) src" by auto
    then obtain gid r m where "(src, gid, r, m) \<in> cache_log g" "entry_key gid r m key" using g unfolding run_inv_def logged_def by blast
    then show "\<exists>gid r m. (b, gid, r, m) \<in> {(dst, e) | e. (src, e) \<in> cache_log g} \<and> entry_key gid r m key" using b(1) by blast
  qed
qed

lemma run_inv_reset:
  assumes g: "run_inv g" and run: "reset_prefix_cache (pool g) = (b, q)"
  shows "run_inv (g\<lparr>pool := q\<rparr>)"
proof (cases b)
  case True
  obtain free where f: "index_ok (pool g)" "refs_ok (pool g) free {}" using g by (auto simp: run_inv_def)
  have "reset_prefix_cache (pool g) = (True, q)" using run True by simp
  note r = reset_op [OF f(1) this]
  have "cached_count q x = 0" for x by (simp add: cached_count_def key_count_def r(3))
  moreover have "enable_events q = enable_events (pool g)" using r(2) by (simp add: index_frame_def same_consts_def)
  moreover have "net (es @ [AllBlocksCleared]) x 0 = 0" for es x by (simp add: net_def)
  ultimately have "enable_events q \<longrightarrow> net (taken g @ kv_event_queue q) x 0 = cached_count q x" for x
    by (simp add: r(4) del: append_assoc add: append_assoc [symmetric])
  then show ?thesis using r(1,3) refs_ok_frame [OF r(2) f(2)] by (auto simp: run_inv_def logged_def)
next
  case False
  then have "q = pool g" using run by (auto simp: reset_prefix_cache_def Let_def split: if_splits)
  then show ?thesis using g by simp
qed

lemma run_inv_take:
  assumes g: "run_inv g" and run: "take_events (pool g) = (es, q)"
  shows "run_inv (g\<lparr>pool := q, taken := taken g @ es\<rparr>)"
proof (cases "enable_events (pool g)")
  case True
  then have q: "q = (pool g)\<lparr>kv_event_queue := []\<rparr>" "es = kv_event_queue (pool g)" using run by (simp_all add: take_events_def)
  have k: "keys_of q b = keys_of (pool g) b" "extra_ok q b = extra_ok (pool g) b" for b
    by (simp_all add: q(1) keys_of_def extra_ok_def)
  have fr: "index_frame (pool g) q" by (simp add: q(1) index_frame_def same_consts_def)
  have "\<exists>free. refs_ok q free {}" using g refs_ok_frame [OF fr] unfolding run_inv_def by blast
  moreover have "index_ok (pool g)" using g by (simp add: run_inv_def)
  then have "index_ok q" unfolding index_ok_def k by (simp add: q(1))
  moreover have "cached_count q x = cached_count (pool g) x" for x by (simp add: cached_count_def key_count_def k) (simp add: q(1))
  moreover have "logged q (cache_log g)" using g by (simp add: run_inv_def logged_def k)
  ultimately show ?thesis using g by (simp add: run_inv_def q(2)) (simp add: q(1))
next
  case False
  then show ?thesis using g run by (auto simp: take_events_def run_inv_def)
qed

lemma run_inv_start:
  assumes "new_pool n caching hbs events mc i order = Inr p" "\<And>xs. mset (order xs) = mset xs"
  shows "run_inv \<lparr>pool = p, taken = [], cache_log = {}\<rparr>"
proof -
  have "0 < n" using assms(1) by (simp add: new_pool_def split: if_splits)
  from new_pool_facts [OF this assms(2), of caching hbs events mc i] assms(1)
  have p: "index_ok p" "refs_ok p [1 ..< nat n] {}" "\<And>b. keys_of p b = {}" "kv_event_queue p = []" by auto
  then show ?thesis by (auto simp: run_inv_def logged_def net_def cached_count_def key_count_def)
qed

lemma run_invariant: "pool_run sha256 g \<Longrightarrow> run_inv g"
proof (induction rule: pool_run.induct)
  case (run_start n caching hbs events mc i order p)
  then show ?case by (rule run_inv_start)
next
  case (run_new g n bs q)
  then show ?case by (intro run_inv_new)
next
  case (run_touch g bs q)
  then obtain free where "index_ok (pool g)" "refs_ok (pool g) free {}" by (auto simp: run_inv_def)
  from touch_op [OF this run_touch(2)] run_touch(3) show ?case
    using run_inv_same_log [OF run_touch.IH] by auto
next
  case (run_free g bs q)
  then obtain free where "index_ok (pool g)" "refs_ok (pool g) free {}" by (auto simp: run_inv_def)
  from free_blocks_op [OF this run_free(2)] run_free(3) show ?case
    using run_inv_same_log [OF run_free.IH] by auto
next
  case (run_full g bs bsz r nc nf gid block_mask r' q)
  then obtain free where f: "index_ok (pool g)" "refs_ok (pool g) free {}" by (auto simp: run_inv_def)
  have "\<forall>b \<in> set bs. cacheable (pool g) b" using refs_cacheable [OF f(2) run_full(2)] run_full(3) by blast
  from cache_full_op [OF f(1) this run_full(5)] show ?case
    by (rule run_inv_index [OF run_full.IH]) (use full_entries_logged [OF _ run_full(4)] in blast)
next
  case (run_partial g b r n gid bsz key r' q)
  then obtain free where f: "index_ok (pool g)" "refs_ok (pool g) free {}" by (auto simp: run_inv_def)
  from cache_partial_op [OF f(1) refs_cacheable [OF f(2) run_partial(2,3)] run_partial(4)]
  have "run_inv (g\<lparr>pool := q, cache_log := cache_log g \<union> {(b, gid, r, n div hash_block_size (pool g))}\<rparr>)"
    by (rule run_inv_index [OF run_partial.IH]) (use partial_entries_logged in blast)
  then show ?case by simp
next
  case (run_move g dst src q)
  then show ?case by (intro run_inv_move)
next
  case (run_evict g ids q)
  then have "index_op (pool g) q (\<lambda>_. 0) {}" using evict_blocks_op by (auto simp: run_inv_def)
  from run_inv_index [OF run_evict.IH this, of "{}"] show ?case by simp
next
  case (run_reset g b q)
  then show ?case by (intro run_inv_reset)
next
  case (run_take g es q)
  then show ?case by (intro run_inv_take)
qed

section \<open>Properties\<close>

lemma run_free:
  assumes "pool_run sha256 g"
  obtains free where "index_ok (pool g)" "refs_ok (pool g) free {}"
  using run_invariant [OF assms] by (auto simp: run_inv_def)

lemma lookup_keys:
  assumes "index_ok p" "get_cached_block p h [gid] = Inr (Some [b])"
  shows "\<exists>key. make_block_hash_with_group_id h gid = Inr key \<and> key \<in> keys_of p b"
proof -
  obtain key where key: "make_block_hash_with_group_id h gid = Inr key" "get_one_block (cached_map p) key = Inr (Some b)"
    using assms(2) by (auto simp: bind_res_eq_Inr split: option.splits)
  have "map_ok (cached_map p)" using assms(1) by (simp add: index_ok_def)
  then have "b \<in> members (cached_map p) key" using key(2) by (rule bi.one_mem)
  then show ?thesis using key(1) assms(1) by (auto simp: index_ok_def)
qed

text \<open>
  Property C7. In every state of a run, the free list holds exactly the blocks other than the null block that
  have no references, each once; the counter of free blocks is its length; no reference count is negative; and
  a block is found under a hash key exactly if the key is one of its own hashes.
\<close>

theorem pool_invariant:
  assumes "pool_run sha256 g"
  defines "p \<equiv> pool g"
  shows "\<exists>free. represents p free \<and> distinct free \<and> get_num_free_blocks p = int (length free) \<and>
    set free = {b. 0 < b \<and> b < num_gpu_blocks p \<and> ref_cnt (block_at p b) = 0} \<and>
    (\<forall>b. 0 < b \<and> b < num_gpu_blocks p \<longrightarrow> 0 \<le> ref_cnt (block_at p b)) \<and>
    (\<forall>key b. contain (cached_map p) key b \<longleftrightarrow> key \<in> keys_of p b)"
proof -
  obtain free where ok: "index_ok p" and rf: "refs_ok p free {}" using run_free [OF assms(1)] unfolding p_def .
  have rep: "represents p free" using rf by (simp add: refs_ok_def)
  have "set free = {b. 0 < b \<and> b < num_gpu_blocks p \<and> ref_cnt (block_at p b) = 0}" using rf by (auto simp: refs_ok_def)
  moreover have "\<forall>b. 0 < b \<and> b < num_gpu_blocks p \<longrightarrow> 0 \<le> ref_cnt (block_at p b)" using rf by (simp add: refs_ok_def)
  moreover have "contain (cached_map p) key b \<longleftrightarrow> key \<in> keys_of p b" for key b using ok by (simp add: index_ok_def bi.cont_mem)
  ultimately show ?thesis
    using rep fq.rep_distinct [OF rep] by (auto simp: get_num_free_blocks_def represents_def intro!: exI [of _ free])
qed

text \<open>A pool of three blocks, for the concrete instances.\<close>

lemma demo_run:
  "\<exists>p. pool_run id \<lparr>pool = p, taken = [], cache_log = {}\<rparr> \<and> index_ok p \<and> refs_ok p [1, 2] {} \<and> num_gpu_blocks p = 3 \<and>
    enable_caching p \<and> enable_events p \<and> hash_block_size p = 2 \<and> (\<forall>b. keys_of p b = {}) \<and> (\<forall>b. ref_cnt (block_at p b) = 0)"
proof -
  obtain p where p: "new_pool 3 True 2 True None False id = Inr p" "index_ok p" "refs_ok p [1 ..< nat 3] {}" "num_gpu_blocks p = nat 3"
    "enable_caching p" "enable_events p" "hash_block_size p = 2" "\<forall>b. keys_of p b = {}" "\<forall>b. ref_cnt (block_at p b) = 0"
    using new_pool_facts [of 3 id True 2 True None False] by auto
  have "[1 ..< nat 3] = [1, 2]" by (simp add: upt_rec)
  moreover have "pool_run id \<lparr>pool = p, taken = [], cache_log = {}\<rparr>" by (rule run_start [OF p(1)]) simp
  ultimately show ?thesis using p by (intro exI [of _ p]) simp
qed

lemma demo_run_taken:
  "\<exists>g. pool_run id g \<and> index_ok (pool g) \<and> refs_ok (pool g) [] {} \<and> num_gpu_blocks (pool g) = 3 \<and> enable_caching (pool g) \<and>
    enable_events (pool g) \<and> hash_block_size (pool g) = 2 \<and> (\<forall>b. keys_of (pool g) b = {}) \<and>
    (\<forall>b \<in> {1, 2}. ref_cnt (block_at (pool g) b) = 1) \<and> cache_log g = {}"
proof -
  obtain p where p: "pool_run id \<lparr>pool = p, taken = [], cache_log = {}\<rparr>" "index_ok p" "refs_ok p ([1, 2] @ []) {}" "num_gpu_blocks p = 3"
    "enable_caching p" "enable_events p" "hash_block_size p = 2" "\<And>b. keys_of p b = {}" "\<And>b. ref_cnt (block_at p b) = 0"
    using demo_run by auto
  obtain q where q: "get_new_blocks (length [1, 2 :: nat]) p = Inr ([1, 2], q)" "key_op p q {}" "refs_ok q [] {}"
    "\<And>c. ref_cnt (block_at q c) = ref_cnt (block_at p c) + (if c \<in> set [1, 2] then 1 else 0)"
    using get_new_blocks_op [OF p(2,3)] by blast
  have "keys_of q b = {}" for b using q(2) p(8) by (auto simp: key_op_def)
  moreover have "pool_run id (\<lparr>pool = p, taken = [], cache_log = {}\<rparr>\<lparr>pool := q,
      cache_log := {e \<in> cache_log \<lparr>pool = p, taken = [], cache_log = {}\<rparr>. fst e \<notin> set [1, 2]}\<rparr>)"
    by (rule run_new [OF p(1)]) (use q(1) in simp)
  ultimately show ?thesis using q p by (intro exI conjI) (auto simp: key_op_def same_consts_def)
qed

theorem pool_invariant_witness:
  "\<exists>g free. pool_run id g \<and> represents (pool g) free \<and> distinct free"
proof -
  obtain p where "pool_run id \<lparr>pool = p, taken = [], cache_log = {}\<rparr>" using demo_run by blast
  from this pool_invariant [OF this] show ?thesis by blast
qed

text \<open>
  Property C10. Handing out blocks: a request for as many blocks as are free, or fewer, returns that many
  distinct blocks from the front of the free list, none of them the null block, each with no reference before
  and one after, and no cache lookup finds any of them afterwards; the other blocks keep their counts and hashes.
  A larger request is a \<open>ValueError\<close>.
\<close>

theorem get_new_blocks_fresh:
  assumes "pool_run sha256 g"
  defines "p \<equiv> pool g"
  shows "(int n > get_num_free_blocks p \<longrightarrow> get_new_blocks n p = Inl ValueError) \<and>
    (int n \<le> get_num_free_blocks p \<longrightarrow> (\<exists>bs q. get_new_blocks n p = Inr (bs, q) \<and> length bs = n \<and> distinct bs \<and>
      (\<forall>b \<in> set bs. 0 < b \<and> ref_cnt (block_at p b) = 0 \<and> ref_cnt (block_at q b) = 1 \<and>
         (\<forall>h gid. get_cached_block q h [gid] \<noteq> Inr (Some [b]))) \<and>
      (\<forall>c. c \<notin> set bs \<longrightarrow> ref_cnt (block_at q c) = ref_cnt (block_at p c) \<and> keys_of q c = keys_of p c)))"
proof -
  obtain free where ok: "index_ok p" and rf: "refs_ok p free {}" using run_free [OF assms(1)] unfolding p_def .
  have len: "get_num_free_blocks p = int (length free)" using rf by (simp add: get_num_free_blocks_def refs_ok_def represents_def)
  have "get_new_blocks n p = Inl ValueError" if "int n > get_num_free_blocks p"
    using that by (simp add: get_new_blocks_def get_num_free_blocks_def)
  moreover
  have "\<exists>bs q. get_new_blocks n p = Inr (bs, q) \<and> length bs = n \<and> distinct bs \<and>
      (\<forall>b \<in> set bs. 0 < b \<and> ref_cnt (block_at p b) = 0 \<and> ref_cnt (block_at q b) = 1 \<and>
         (\<forall>h gid. get_cached_block q h [gid] \<noteq> Inr (Some [b]))) \<and>
      (\<forall>c. c \<notin> set bs \<longrightarrow> ref_cnt (block_at q c) = ref_cnt (block_at p c) \<and> keys_of q c = keys_of p c)"
    if "int n \<le> get_num_free_blocks p"
  proof -
    let ?ys = "take n free"
    have "refs_ok p (?ys @ drop n free) {}" "length ?ys = n" using rf that len by simp_all
    from get_new_blocks_op [OF ok this(1)] this(2)
    obtain q where q: "get_new_blocks n p = Inr (?ys, q)" "key_op p q {}" "\<forall>b \<in> set ?ys. keys_of q b = {}"
      "\<forall>c. c \<notin> set ?ys \<longrightarrow> keys_of q c = keys_of p c"
      "\<forall>c. ref_cnt (block_at q c) = ref_cnt (block_at p c) + (if c \<in> set ?ys then 1 else 0)" by auto
    have "represents p free" using rf by (simp add: refs_ok_def)
    then have "distinct free" by (rule fq.rep_distinct)
    moreover have "0 < b \<and> ref_cnt (block_at p b) = 0" if "b \<in> set ?ys" for b
      using rf in_set_takeD [OF that] by (auto simp: refs_ok_def)
    moreover have "get_cached_block q h [gid] \<noteq> Inr (Some [b])" if "b \<in> set ?ys" for b h gid
      using lookup_keys [of q h gid b] q(2,3) that by (auto simp: key_op_def)
    ultimately show ?thesis using q \<open>length ?ys = n\<close> by (intro exI [of _ ?ys] exI [of _ q]) auto
  qed
  ultimately show ?thesis by blast
qed

theorem get_new_blocks_fresh_witness:
  "\<exists>g bs q. pool_run id g \<and> get_new_blocks 2 (pool g) = Inr (bs, q) \<and> length bs = 2 \<and> distinct bs \<and> get_new_blocks 3 (pool g) = Inl ValueError"
proof -
  obtain p where p: "pool_run id \<lparr>pool = p, taken = [], cache_log = {}\<rparr>" "refs_ok p [1, 2] {}" using demo_run by blast
  have "get_num_free_blocks p = 2" using p(2) by (simp add: get_num_free_blocks_def refs_ok_def represents_def)
  then show ?thesis
    using get_new_blocks_fresh [OF p(1), of 2] get_new_blocks_fresh [OF p(1), of 3] p(1)
    by (intro exI [of _ "\<lparr>pool = p, taken = [], cache_log = {}\<rparr>"]) auto
qed

text \<open>
  Property C19. The events tell the cache: with events enabled, for every external hash and group, the number of
  blocks reported as stored less the number reported as removed since the last clearing, over all events taken so
  far and still queued, is the number of blocks cached under it. The runs do not contain
  \<open>emit_cached_block_events\<close>, which on purpose reports blocks reused from the cache a second time.
\<close>

theorem events_match_cache:
  assumes "pool_run sha256 g" "enable_events (pool g)"
  shows "net (taken g @ kv_event_queue (pool g)) x 0 = cached_count (pool g) x"
  using run_invariant [OF assms(1)] assms(2) unfolding run_inv_def by blast

theorem events_match_cache_witness:
  "\<exists>g. pool_run id g \<and> net (taken g @ kv_event_queue (pool g)) (EBytes [], 0) 0 = cached_count (pool g) (EBytes [], 0)"
proof -
  obtain p where p: "pool_run id \<lparr>pool = p, taken = [], cache_log = {}\<rparr>" "enable_events p" using demo_run by blast
  then show ?thesis using events_match_cache [OF p(1), of "(EBytes [], 0)"] by auto
qed

text \<open>
  Property C26. Giving references back: if no block is given back more often than it is referenced, the
  release succeeds; the blocks that lose their last reference enter the free list, those without a hash (or all,
  without caching) in front for immediate reuse and those with a hash at the end, in the order they were
  given back; hashes are untouched.
\<close>

theorem free_blocks_order:
  assumes "pool_run sha256 g" "freeable (pool g) bs"
  defines "p \<equiv> pool g"
  defines "Z \<equiv> released (\<lambda>b. ref_cnt (block_at p b)) bs"
  shows "\<exists>free q. represents p free \<and> free_blocks bs p = Inr q \<and>
    represents q (filter (evict_soon p) Z @ free @ filter (\<lambda>b. \<not> evict_soon p b) Z) \<and>
    (\<forall>c. ref_cnt (block_at q c) = ref_cnt (block_at p c) - int (count_list bs c) \<and> keys_of q c = keys_of p c)"
proof -
  obtain free where f: "index_ok p" "refs_ok p free {}" using run_free [OF assms(1)] unfolding p_def .
  obtain q where "free_blocks bs p = Inr q" "refs_ok q (filter (evict_soon p) Z @ free @ filter (\<lambda>b. \<not> evict_soon p b) Z) {}"
    "\<forall>c. keys_of q c = keys_of p c" "\<forall>c. ref_cnt (block_at q c) = ref_cnt (block_at p c) - int (count_list bs c)"
    using free_blocks_op [OF f assms(2) [folded p_def]] unfolding Z_def by blast
  then show ?thesis using f(2) by (auto simp: refs_ok_def intro!: exI [of _ free] exI [of _ q])
qed

theorem free_blocks_order_witness:
  "\<exists>g q. pool_run id g \<and> represents (pool g) [] \<and> free_blocks [2, 1] (pool g) = Inr q \<and> represents q [2, 1]"
proof -
  obtain g where g: "pool_run id g" "refs_ok (pool g) [] {}" "num_gpu_blocks (pool g) = 3" "\<forall>b \<in> {1, 2}. ref_cnt (block_at (pool g) b) = 1"
    "\<forall>b. keys_of (pool g) b = {}" "index_ok (pool g)" using demo_run_taken by blast
  have "freeable (pool g) [2, 1]" using g(3,4) by (simp add: freeable_def)
  note f = free_blocks_order [OF g(1) this]
  have "released (\<lambda>b. ref_cnt (block_at (pool g) b)) [2, 1] = [2, 1]" using g(4) by simp
  moreover have "evict_soon (pool g) b" for b using g(5) no_hash_no_keys [OF g(6)] by (simp add: evict_soon_def)
  ultimately obtain free q where q: "represents (pool g) free" "free_blocks [2, 1] (pool g) = Inr q" "represents q ([2, 1] @ free)"
    using f by auto
  moreover have "free = []" using fq.rep_unique [OF q(1)] g(2) by (simp add: refs_ok_def)
  ultimately show ?thesis using g(1) by auto
qed

end
