(* ===== verification/Prefix_Cache.thy ===== *)
theory Prefix_Cache
  imports Pool_Runs
begin

text \<open>
  Prefix caching end to end: the block pool of \<^verbatim>\<open>vllm/v1/core/block_pool.py\<close> indexed by the chained hashes of
  \<^verbatim>\<open>vllm/v1/core/kv_cache_utils.py\<close>. Blocks that a request caches are found by any later request with the same
  prefix, and only by those.
\<close>

section \<open>Hits\<close>

lemma make_key_inject:
  assumes "make_block_hash_with_group_id h g = Inr key" "make_block_hash_with_group_id h' g' = Inr key"
  shows "h = h'" "g = g'"
proof -
  obtain bs bs' where b: "to_bytes4 g = Inr bs" "key = h @ bs" "to_bytes4 g' = Inr bs'" "key = h' @ bs'"
    using assms by (auto simp: make_block_hash_with_group_id_def bind_res_eq_Inr)
  have "length bs = length bs'" using length_to_bytes4 [OF b(1)] length_to_bytes4 [OF b(3)] by simp
  then have "h = h'" "bs = bs'" using b(2,4) by simp_all
  then show "h = h'" "g = g'" using from_to_bytes4 [OF b(1)] from_to_bytes4 [OF b(3)] by simp_all
qed

lemma hashes_ok_nth:
  assumes "hashes_ok sha256 hash_fn nh hbs r" "0 < m" "m \<le> length (block_hashes r)"
  shows "block_hashes r ! (m - 1) = chain sha256 hash_fn nh hbs r m"
  using assms by (auto simp: hashes_ok_def simp del: upt_Suc)


section \<open>Caching full blocks succeeds\<close>

lemma resolved_hashes:
  assumes "hashes_ok sha256 hash_fn nh hbs r" "0 < hbs" "0 < bs" "hbs dvd bs"
  defines "hash \<equiv> \<lambda>i. chain sha256 hash_fn nh hbs r ((i + 1) * (bs div hbs))"
  shows "\<exists>hs. resolve_block_hashes (Raw (block_hashes r)) hbs bs False None = Inr hs \<and>
    (\<forall>i < num_tokens r div bs. hash_at hs i = Inr (hash i)) \<and>
    (\<forall>n. hashes_from hs n = Inr (map hash [n ..< num_tokens r div bs]))"
proof (cases "bs = hbs")
  case True
  have bh: "block_hashes r = map (chain sha256 hash_fn nh hbs r) [1 ..< num_tokens r div hbs + 1]" using assms(1) by (simp add: hashes_ok_def)
  then have "block_hashes r = map hash [0 ..< num_tokens r div bs]"
    using True assms(2) by (simp add: hash_def map_Suc_upt [symmetric] del: upt_Suc chain.simps)
  then show ?thesis using True by (auto simp: resolve_block_hashes_def hash_at_def hashes_from_def drop_map)
next
  case False
  obtain k where k: "bs = hbs * k" using assms(4) by (elim dvdE)
  then have k0: "0 < k" "bs div hbs = k" using assms(2,3) by simp_all
  let ?v = "\<lparr>hv_hashes = block_hashes r, scale_factor = k\<rparr>"
  have "length (block_hashes r) = num_tokens r div hbs" using assms(1) by (simp add: hashes_ok_def)
  then have n: "length (block_hashes r) div k = num_tokens r div bs" by (simp add: k div_mult2_eq)
  have at: "get_value_at ?v i = Inr (hash i)" if "i < num_tokens r div bs" for i
    using get_value_at_chain [OF assms(1) k0(1)] that by (simp add: n hash_def k0 del: chain.simps)
  then have "map_res (get_value_at ?v) [m ..< num_tokens r div bs] = Inr (map hash [m ..< num_tokens r div bs])" for m
    by (intro map_res_Inr) simp
  then show ?thesis
    using at False assms(2,4) k0 n
    by (auto simp: resolve_block_hashes_def BlockHashListWithBlockSize_def hash_at_def hashes_from_def view_from_def view_len_def
        dvd_eq_mod_eq_0)
qed

lemma mm_idx_ok_mono: "mm_idx_ok fs s idx \<Longrightarrow> s \<le> t \<Longrightarrow> mm_idx_ok fs t idx"
  by (fastforce simp: mm_idx_ok_def)

lemma extra_keys_loop:
  assumes "mm_sorted (mm_features r)" "nf \<le> length blocks" "nc \<le> nf" "mm_idx_ok (mm_features r) (int (nc * bs)) idx"
    "embeds_ok sha256 (with_cache r d)"
  shows "\<exists>keys idx' d'. embeds_ok sha256 (with_cache r d') \<and> fold_res (\<lambda>i st.
         if length blocks \<le> i then Inl IndexError
         else if is_null (block_at p (blocks ! i)) then Inr st
         else if masked block_mask (i - m) then Inr st
         else extra_key_step sha256 bs i st) [nc ..< nf] (acc, idx, with_cache r d) = Inr (keys, idx', with_cache r d')"
  using assms(3-5)
proof (induction "nf - nc" arbitrary: nc idx d acc)
  case 0
  then have nil: "[nc ..< nf] = []" by simp
  show ?case unfolding nil fold_res.simps using 0(4) by blast
next
  case (Suc n)
  let ?f = "\<lambda>i st. if length blocks \<le> i then Inl IndexError
         else if is_null (block_at p (blocks ! i)) then Inr st
         else if masked block_mask (i - m) then Inr st
         else extra_key_step sha256 bs i st"
  have lt: "nc < nf" "n = nf - Suc nc" "nc < length blocks" using Suc.hyps(2) assms(2) by linarith+
  have up: "[nc ..< nf] = nc # [Suc nc ..< nf]" using lt(1) by (rule upt_conv_Cons)
  obtain acc' idx' d' where s: "?f nc (acc, idx, with_cache r d) = Inr (acc', idx', with_cache r d')"
    "mm_idx_ok (mm_features r) (int (Suc nc * bs)) idx'" "embeds_ok sha256 (with_cache r d')"
  proof (cases "is_null (block_at p (blocks ! nc)) \<or> masked block_mask (nc - m)")
    case True
    have "mm_idx_ok (mm_features r) (int (Suc nc * bs)) idx" using mm_idx_ok_mono [OF Suc.prems(2)] by simp
    then show ?thesis using True lt(3) by (intro that [OF _ _ Suc.prems(3)]) auto
  next
    case False
    obtain i2 d2 where g: "generate_block_hash_extra_keys sha256 (with_cache r d) (nc * bs) (nc * bs + bs) idx =
        Inr (block_keys sha256 r (nc * bs) (nc * bs + bs), i2, with_cache r d2)"
      "mm_idx_ok (mm_features r) (int (nc * bs + bs)) i2" "embeds_ok sha256 (with_cache r d2)"
      using generate_keys_correct [of "with_cache r d" "nc * bs" idx "nc * bs + bs" sha256] assms(1) Suc.prems(2,3) by auto
    have st: "?f nc (acc, idx, with_cache r d) = Inr (acc @ [block_keys sha256 r (nc * bs) (nc * bs + bs)], i2, with_cache r d2)"
      using False lt(3) g(1) by (simp add: extra_key_step_def)
    have "mm_idx_ok (mm_features r) (int (Suc nc * bs)) i2" using g(2) by (simp add: add.commute)
    then show ?thesis by (rule that [OF st _ g(3)])
  qed
  from Suc.hyps(1) [OF lt(2) _ s(2,3), of acc'] lt(1) show ?case unfolding up fold_res.simps s(1) bind_res_Inr by simp
qed

lemma cache_one_total:
  assumes ok: "index_ok p" and b: "cacheable p b" "i < length hs" "b \<noteq> 0 \<Longrightarrow> keys_of p b = {}" and g: "0 \<le> gid" "gid < 2 ^ 32"
  shows "\<exists>ext' q. cache_one hs nc bs gid block_mask (i, b) (ext, p) = Inr (ext', q) \<and>
    (b \<noteq> 0 \<longrightarrow> \<not> masked block_mask i \<longrightarrow> (\<exists>key. make_block_hash_with_group_id (hs ! i) gid = Inr key \<and> key \<in> keys_of q b)) \<and>
    (\<forall>c. c \<noteq> b \<or> b = 0 \<longrightarrow> keys_of q c = keys_of p c)"
proof (cases "b = 0 \<or> masked block_mask i")
  case True
  then have "is_null (block_at p b) \<or> masked block_mask i" using b(1) by (auto simp: cacheable_def)
  then show ?thesis using True by (auto simp: cache_one_def)
next
  case False
  then have nn: "\<not> is_null (block_at p b)" and c: "0 < b" "b < num_gpu_blocks p" "enable_caching p"
    using b(1) by (simp_all add: cacheable_def)
  have h: "block_hash (block_at p b) = None" using no_hash_no_keys [OF ok] b(3) False by simp
  obtain key where key: "make_block_hash_with_group_id (hs ! i) gid = Inr key"
    using g by (auto simp: make_block_hash_with_group_id_def to_bytes4_def)
  obtain q where q: "insert_block_hash key b (Some (int ((nc + i + 1) * bs))) p = Inr q"
    "keys_set p b (insert key (keys_of p b)) q" using insert_hash_facts [OF ok c] by blast
  have "promote_partial b (int ((nc + i + 1) * bs)) p = Inr p" using h by (simp add: promote_partial_def)
  then have "cache_one hs nc bs gid block_mask (i, b) (ext, p) = Inr (ext @ [maybe_convert_block_hash (int_hashes p) (hs ! i)], q)"
    using nn False b(2) key q(1) by (simp add: cache_one_def Let_def del: of_nat_mult of_nat_add)
  then show ?thesis using key q(2) False by (auto simp: keys_set_def)
qed

lemma cache_loop_total:
  assumes "index_ok p" "\<forall>(i, b) \<in> set ibs. cacheable p b \<and> i < length hs \<and> (b \<noteq> 0 \<longrightarrow> keys_of p b = {})"
    "distinct (filter (\<lambda>b. b \<noteq> 0) (map snd ibs))" "0 \<le> gid" "gid < 2 ^ 32"
  shows "\<exists>ext' q. fold_res (cache_one hs nc bs gid block_mask) ibs (ext, p) = Inr (ext', q) \<and>
    (\<forall>(i, b) \<in> set ibs. b \<noteq> 0 \<longrightarrow> \<not> masked block_mask i \<longrightarrow> (\<exists>key. make_block_hash_with_group_id (hs ! i) gid = Inr key \<and> key \<in> keys_of q b)) \<and>
    (\<forall>c. c \<notin> snd ` set ibs \<or> c = 0 \<longrightarrow> keys_of q c = keys_of p c)"
  using assms(1-3)
proof (induction ibs arbitrary: p ext)
  case (Cons ib ibs)
  obtain i b where ib: "ib = (i, b)" by fastforce
  have b: "cacheable p b" "i < length hs" "b \<noteq> 0 \<Longrightarrow> keys_of p b = {}" using Cons.prems(2) by (auto simp: ib)
  obtain ext1 p1 where p1: "cache_one hs nc bs gid block_mask (i, b) (ext, p) = Inr (ext1, p1)"
    "b \<noteq> 0 \<Longrightarrow> \<not> masked block_mask i \<Longrightarrow> \<exists>key. make_block_hash_with_group_id (hs ! i) gid = Inr key \<and> key \<in> keys_of p1 b"
    "\<And>c. c \<noteq> b \<or> b = 0 \<Longrightarrow> keys_of p1 c = keys_of p c"
    using cache_one_total [OF Cons.prems(1) b assms(4,5)] by blast
  obtain new where "index_op p p1 (hash_counts new gid) (entries hs gid [(i, b)])"
    using cache_one_op [OF Cons.prems(1) b(1) p1(1)] by blast
  then have f: "index_ok p1" "index_frame p p1" by (simp_all add: index_op_def)
  have out: "b \<notin> snd ` set ibs" if "b \<noteq> 0" using Cons.prems(3) that by (auto simp: ib)
  have "\<forall>(j, c) \<in> set ibs. cacheable p1 c \<and> j < length hs \<and> (c \<noteq> 0 \<longrightarrow> keys_of p1 c = {})"
  proof
    fix jc assume jc: "jc \<in> set ibs"
    obtain j c where jc': "jc = (j, c)" by fastforce
    have "cacheable p c" "j < length hs" "c \<noteq> 0 \<Longrightarrow> keys_of p c = {}" using Cons.prems(2) jc by (auto simp: jc')
    moreover have "c \<noteq> b \<or> b = 0" using out jc by (force simp: jc')
    ultimately show "case jc of (j, c) \<Rightarrow> cacheable p1 c \<and> j < length hs \<and> (c \<noteq> 0 \<longrightarrow> keys_of p1 c = {})"
      using p1(3) by (simp add: jc' cacheable_frame [OF f(2)])
  qed
  moreover have "distinct (filter (\<lambda>b. b \<noteq> 0) (map snd ibs))" using Cons.prems(3) by (simp add: ib split: if_splits)
  ultimately obtain ext2 q where q: "fold_res (cache_one hs nc bs gid block_mask) ibs (ext1, p1) = Inr (ext2, q)"
    "\<forall>(i, b) \<in> set ibs. b \<noteq> 0 \<longrightarrow> \<not> masked block_mask i \<longrightarrow> (\<exists>key. make_block_hash_with_group_id (hs ! i) gid = Inr key \<and> key \<in> keys_of q b)"
    "\<And>c. c \<notin> snd ` set ibs \<or> c = 0 \<Longrightarrow> keys_of q c = keys_of p1 c" using Cons.IH [OF f(1)] by blast
  have "\<exists>key. make_block_hash_with_group_id (hs ! i) gid = Inr key \<and> key \<in> keys_of q b" if "b \<noteq> 0" "\<not> masked block_mask i"
    using p1(2) [OF that] q(3) [of b] out [OF that(1)] by simp
  moreover have "keys_of q c = keys_of p c" if "c \<notin> snd ` set (ib # ibs) \<or> c = 0" for c
    using q(3) [of c] p1(3) [of c] that by (auto simp: ib)
  ultimately show ?case using q(1,2) p1(1) by (simp add: ib)
qed simp

lemma store_full_event_total:
  assumes "mm_sorted (mm_features r)" "embeds_ok sha256 r" "nf \<le> length blocks" "nc \<le> nf"
    "\<And>i. i < nc \<Longrightarrow> \<exists>h. hash_at hs i = Inr h"
  shows "\<exists>r' es. (\<exists>d. r' = with_cache r d) \<and> embeds_ok sha256 r' \<and> store_full_event sha256 r blocks nc nf bs gid block_mask hs ext p = Inr (r', p\<lparr>kv_event_queue := kv_event_queue p @ es\<rparr>)"
proof (cases "enable_events p")
  case True
  have "embeds_ok sha256 (with_cache r (prompt_embeds_hashes r))" "mm_idx_ok (mm_features r) (int (nc * bs)) 0"
    using assms(2) by (simp_all add: mm_idx_ok_def)
  from extra_keys_loop [OF assms(1,3,4) this(2,1), where p = p and m = nc and acc = "[]" and block_mask = block_mask]
  obtain keys idx' d' where keys: "embeds_ok sha256 (with_cache r d')" "full_extra_keys sha256 p blocks nc nf bs block_mask r = Inr (keys, idx', with_cache r d')"
    unfolding full_extra_keys_def by auto
  obtain parent where "(if nc = 0 then Inr None
      else bind_res (hash_at hs (nc - 1)) (\<lambda>h. Inr (Some (maybe_convert_block_hash (int_hashes p) h)))) = Inr parent"
    using assms(5) [of "nc - 1"] by (cases "nc = 0") auto
  then show ?thesis unfolding store_full_event_def if_P [OF True] using keys(1) by (simp only: keys(2) bind_res_Inr prod.case) blast
next
  case False
  then show ?thesis using assms(2)
    by (intro exI [of _ r] exI [of _ "[]"]) (auto simp: store_full_event_def intro!: exI [of _ "prompt_embeds_hashes r"])
qed

lemma masked_None: "\<not> masked None i"
  by (simp add: masked_def)

lemma lookup_hit:
  assumes "index_ok p" "make_block_hash_with_group_id h gid = Inr key" "key \<in> keys_of p b"
  shows "\<exists>b'. get_cached_block p h [gid] = Inr (Some [b'])"
proof -
  have m: "map_ok (cached_map p)" "b \<in> members (cached_map p) key" using assms(1,3) by (auto simp: index_ok_def)
  then obtain b' where "get_one_block (cached_map p) key = Inr (Some b')" using bi.one_hit [OF m(1)] by blast
  then show ?thesis using assms(2) by simp
qed

lemma cache_full_total:
  assumes f: "index_ok p" "refs_ok p free {}" and c: "enable_caching p" and hbs: "hbs = hash_block_size p" "0 < hbs" "0 < bs" "hbs dvd bs"
    and r: "hashes_ok sha256 hash_fn nh hbs r" "mm_sorted (mm_features r)" and n: "nc < nf" "nf \<le> length blocks" "nf * bs \<le> num_tokens r"
    and gid: "0 \<le> gid" "gid < 2 ^ 32" and bl: "\<forall>b \<in> set (py_slice blocks nc nf). b < num_gpu_blocks p \<and> (b \<noteq> 0 \<longrightarrow> keys_of p b = {})"
    "distinct (filter (\<lambda>b. b \<noteq> 0) (py_slice blocks nc nf))"
    and bm: "case block_mask of None \<Rightarrow> True | Some ms \<Rightarrow> length ms = nf - nc"
  shows "\<exists>r' q. cache_full_blocks sha256 r blocks nc nf bs gid block_mask p = Inr (r', q) \<and> (\<exists>d. r' = with_cache r d) \<and> embeds_ok sha256 r' \<and>
    (\<forall>i. nc \<le> i \<and> i < nf \<and> blocks ! i \<noteq> 0 \<and> \<not> masked block_mask (i - nc) \<longrightarrow>
      (\<exists>b. get_cached_block q (chain sha256 hash_fn nh hbs r ((i + 1) * (bs div hbs))) [gid] = Inr (Some [b])))"
proof -
  let ?new = "py_slice blocks nc nf" and ?N = "num_tokens r div bs"
  define hash where "hash i = chain sha256 hash_fn nh hbs r ((i + 1) * (bs div hbs))" for i
  obtain hs where hs: "resolve_block_hashes (Raw (block_hashes r)) hbs bs False None = Inr hs"
    "\<And>i. i < ?N \<Longrightarrow> hash_at hs i = Inr (hash i)" "hashes_from hs nc = Inr (map hash [nc ..< ?N])"
    using resolved_hashes [OF r(1) hbs(2-4)] unfolding hash_def by blast
  have nf: "nf \<le> ?N" using hbs(3) n(3) by (simp add: less_eq_div_iff_mult_less_eq)
  have len: "length ?new = nf - nc" using n(1,2) by simp
  have bm': "case block_mask of None \<Rightarrow> True | Some ms \<Rightarrow> length ms = length ?new" using bm len by (cases block_mask) auto
  let ?ibs = "zip [0 ..< length ?new] ?new"
  have "\<forall>(i, b) \<in> set ?ibs. cacheable p b \<and> i < length (map hash [nc ..< ?N]) \<and> (b \<noteq> 0 \<longrightarrow> keys_of p b = {})"
    using bl(1) refs_cacheable [OF f(2) c] nf len by (auto dest: set_zip_leftD set_zip_rightD)
  moreover have "distinct (filter (\<lambda>b. b \<noteq> 0) (map snd ?ibs))" using bl(2) by simp
  ultimately obtain ext q where q: "fold_res (cache_one (map hash [nc ..< ?N]) nc bs gid block_mask) ?ibs ([], p) = Inr (ext, q)"
    "\<forall>(i, b) \<in> set ?ibs. b \<noteq> 0 \<longrightarrow> \<not> masked block_mask i \<longrightarrow> (\<exists>key. make_block_hash_with_group_id (map hash [nc ..< ?N] ! i) gid = Inr key \<and> key \<in> keys_of q b)"
    using cache_loop_total [OF f(1) _ _ gid, where ibs = ?ibs and hs = "map hash [nc ..< ?N]" and nc = nc and bs = bs and ext = "[]" and block_mask = block_mask] by blast
  have "\<forall>b \<in> snd ` set ?ibs. cacheable p b" using bl(1) refs_cacheable [OF f(2) c] by (auto dest: set_zip_rightD)
  then obtain N where "index_op p q (hash_counts ext gid) N" using cache_loop_op [OF f(1) _ q(1)] by auto
  then have okq: "index_ok q" by (simp add: index_op_def)
  obtain r' es where ev: "store_full_event sha256 r blocks nc nf bs gid block_mask hs ext q = Inr (r', q\<lparr>kv_event_queue := kv_event_queue q @ es\<rparr>)"
    "\<exists>d. r' = with_cache r d" "embeds_ok sha256 r'"
    using store_full_event_total [of r sha256 nf blocks nc hs bs gid block_mask ext q] r n(1,2) hs(2) nf by (auto simp: hashes_ok_def)
  have run: "cache_full_blocks sha256 r blocks nc nf bs gid block_mask p = Inr (r', q\<lparr>kv_event_queue := kv_event_queue q @ es\<rparr>)"
    using n(1) hs(1,3) q(1) ev(1) hbs(1) bm' by (simp add: cache_full_blocks_def Let_def del: length_py_slice)
  moreover have "\<exists>b. get_cached_block (q\<lparr>kv_event_queue := kv_event_queue q @ es\<rparr>) (hash i) [gid] = Inr (Some [b])"
    if i: "nc \<le> i" "i < nf" "blocks ! i \<noteq> 0" "\<not> masked block_mask (i - nc)" for i
  proof -
    have "(i - nc, blocks ! i) \<in> set ?ibs" using i n(2) len by (auto simp: in_set_zip intro!: exI [of _ "i - nc"])
    then obtain key where key: "make_block_hash_with_group_id (hash i) gid = Inr key" "key \<in> keys_of q (blocks ! i)"
      using q(2) i nf by auto
    then show ?thesis using lookup_hit [OF okq key] by simp
  qed
  ultimately show ?thesis using ev(2,3) unfolding hash_def by blast
qed

text \<open>
  Property C18. What is cached is found: caching fresh blocks of a request (blocks without a hash, the null
  block excepted) that are full succeeds, also when the block size of the group is a multiple of the hash block
  size, and afterwards the lookup of the chain hash of every cached block that is not null hits.
\<close>

theorem cached_blocks_found:
  assumes "pool_run sha256 g" "enable_caching (pool g)" "hbs = hash_block_size (pool g)" "0 < hbs" "0 < bs" "hbs dvd bs"
    "hashes_ok sha256 hash_fn nh hbs r" "mm_sorted (mm_features r)" "nc < nf" "nf \<le> length blocks" "nf * bs \<le> num_tokens r"
    "0 \<le> gid" "gid < 2 ^ 32" "\<forall>b \<in> set (py_slice blocks nc nf). b < num_gpu_blocks (pool g) \<and> (b \<noteq> 0 \<longrightarrow> keys_of (pool g) b = {})"
    "distinct (filter (\<lambda>b. b \<noteq> 0) (py_slice blocks nc nf))"
  shows "\<exists>r' q. cache_full_blocks sha256 r blocks nc nf bs gid None (pool g) = Inr (r', q) \<and>
    (\<forall>i. nc \<le> i \<and> i < nf \<and> blocks ! i \<noteq> 0 \<longrightarrow>
      (\<exists>b. get_cached_block q (chain sha256 hash_fn nh hbs r ((i + 1) * (bs div hbs))) [gid] = Inr (Some [b])))"
proof (rule run_free [OF assms(1)])
  fix free
  assume f: "index_ok (pool g)" "refs_ok (pool g) free {}"
  show ?thesis using cache_full_total [OF f assms(2-15), of None] masked_None by auto
qed

section \<open>Concrete instances\<close>

abbreviation demo_req :: "int list \<Rightarrow> request" where
  "demo_req xs \<equiv> hashed 2 (demo_request xs)"

lemma demo_req_facts: "hashes_ok id toy_hash [1] 2 (demo_req xs)" "mm_sorted (mm_features (demo_req xs))"
  "num_tokens (demo_req xs) = length xs + 1"
proof -
  have "prompt_embeds_hashes (demo_request xs) = []" by (simp add: demo_request_def)
  then show "hashes_ok id toy_hash [1] 2 (demo_req xs)" by (rule hashed_ok)
  show "mm_sorted (mm_features (demo_req xs))" "num_tokens (demo_req xs) = length xs + 1"
    by (simp_all add: hashed_def demo_request_def mm_sorted_def num_tokens_def)
qed

lemma demo_index: "0 \<le> (1 :: nat) \<and> (1 :: nat) < 2 \<and> [1, 2] ! 1 \<noteq> (0 :: nat)"
  by simp

lemma demo_blocks: "(1 + 1) * (2 div 2) = (2 :: nat)"
  by simp

theorem cached_blocks_found_witness:
  "\<exists>g r' q b. pool_run id g \<and> cache_full_blocks id (demo_req [5, 2, 8]) [1, 2] 0 2 2 0 None (pool g) = Inr (r', q) \<and>
    get_cached_block q (chain id toy_hash [1] 2 (demo_req [5, 2, 8]) 2) [0] = Inr (Some [b])"
proof -
  obtain g where g: "pool_run id g" "enable_caching (pool g)" "hash_block_size (pool g) = 2" "num_gpu_blocks (pool g) = 3" "\<And>b. keys_of (pool g) b = {}"
    using demo_run_taken by blast
  have "\<exists>r' q. cache_full_blocks id (demo_req [5, 2, 8]) [1, 2] 0 2 2 0 None (pool g) = Inr (r', q) \<and>
    (\<forall>i. 0 \<le> i \<and> i < 2 \<and> [1, 2] ! i \<noteq> (0 :: nat) \<longrightarrow>
      (\<exists>b. get_cached_block q (chain id toy_hash [1] 2 (demo_req [5, 2, 8]) ((i + 1) * (2 div 2))) [0] = Inr (Some [b])))"
    by (rule cached_blocks_found [OF g(1,2)])
      (use g(3-5) demo_req_facts [of "[5, 2, 8]"] in \<open>simp_all add: py_slice_def del: chain.simps\<close>)
  then obtain r' q where q: "cache_full_blocks id (demo_req [5, 2, 8]) [1, 2] 0 2 2 0 None (pool g) = Inr (r', q)"
    "\<forall>i. 0 \<le> i \<and> i < 2 \<and> [1, 2] ! i \<noteq> (0 :: nat) \<longrightarrow>
      (\<exists>b. get_cached_block q (chain id toy_hash [1] 2 (demo_req [5, 2, 8]) ((i + 1) * (2 div 2))) [0] = Inr (Some [b]))" by blast
  obtain b where b: "get_cached_block q (chain id toy_hash [1] 2 (demo_req [5, 2, 8]) ((1 + 1) * (2 div 2))) [0] = Inr (Some [b])"
    using q(2) [rule_format, OF demo_index] by (elim exE)
  show ?thesis using g(1) q(1) b unfolding demo_blocks by blast
qed

lemma demo_cached:
  "\<exists>g b. pool_run id g \<and> hash_block_size (pool g) = 2 \<and> (\<forall>(b, gid, r, m) \<in> cache_log g. r = demo_req [5, 2, 8]) \<and>
    get_cached_block (pool g) (block_hashes (demo_req [5, 2, 8]) ! 1) [0] = Inr (Some [b])"
proof -
  let ?r = "demo_req [5, 2, 8]"
  obtain g where g: "pool_run id g" "index_ok (pool g)" "refs_ok (pool g) [] {}" "enable_caching (pool g)" "hash_block_size (pool g) = 2"
    "num_gpu_blocks (pool g) = 3" "\<And>b. keys_of (pool g) b = {}" "cache_log g = {}" using demo_run_taken by blast
  have "\<exists>r' q. cache_full_blocks id ?r [1, 2] 0 2 2 0 None (pool g) = Inr (r', q) \<and> (\<exists>d. r' = with_cache ?r d) \<and> embeds_ok id r' \<and>
    (\<forall>i. 0 \<le> i \<and> i < 2 \<and> [1, 2] ! i \<noteq> (0 :: nat) \<and> \<not> masked None (i - 0) \<longrightarrow>
      (\<exists>b. get_cached_block q (chain id toy_hash [1] 2 ?r ((i + 1) * (2 div 2))) [0] = Inr (Some [b])))"
    by (rule cache_full_total [OF g(2-4)])
      (use g(5-7) demo_req_facts [of "[5, 2, 8]"] in \<open>simp_all add: py_slice_def del: chain.simps\<close>)
  then obtain r' q where q: "cache_full_blocks id ?r [1, 2] 0 2 2 0 None (pool g) = Inr (r', q)"
    "\<exists>b. get_cached_block q (chain id toy_hash [1] 2 ?r ((1 + 1) * (2 div 2))) [0] = Inr (Some [b])"
    using demo_index masked_None by blast
  have "block_hashes ?r ! 1 = chain id toy_hash [1] 2 ?r 2"
    using hashes_ok_nth [OF demo_req_facts(1), of 2 "[5, 2, 8]"] demo_req_facts(1,3) [of "[5, 2, 8]"] by (simp add: hashes_ok_def del: upt_Suc chain.simps)
  moreover have "pool_run id (g\<lparr>pool := q, cache_log := cache_log g \<union>
      {([1, 2] ! i, 0, ?r, (i + 1) * (2 div hash_block_size (pool g))) | i. 0 \<le> i \<and> i < 2 \<and> i < length [1, 2 :: nat]}\<rparr>)"
    by (rule run_full [OF g(1,4) _ _ q(1)]) (use g(6) in simp_all)
  moreover have "hash_block_size q = 2"
    using cache_full_op [OF g(2) _ q(1)] refs_cacheable [OF g(3,4)] g(5,6) by (auto simp: index_op_def index_frame_def same_consts_def)
  moreover obtain b where "get_cached_block q (chain id toy_hash [1] 2 ?r 2) [0] = Inr (Some [b])" using q(2) unfolding demo_blocks by blast
  ultimately show ?thesis
    using g(8) by (intro exI [of _ "g\<lparr>pool := q, cache_log := cache_log g \<union>
      {([1, 2] ! i, 0, ?r, (i + 1) * (2 div hash_block_size (pool g))) | i. 0 \<le> i \<and> i < 2 \<and> i < length [1, 2 :: nat]}\<rparr>"] exI [of _ b])
      (auto simp del: chain.simps get_cached_block.simps)
qed


section \<open>Resetting the cache\<close>

text \<open>
  Property C27. Resetting the prefix cache succeeds exactly if no block other than the null block is referenced;
  afterwards no lookup hits and the references are unchanged. Otherwise the pool is left as it was.
\<close>

theorem reset_prefix_cache_correct:
  assumes "pool_run sha256 g"
  defines "p \<equiv> pool g"
  shows "\<exists>ok q. reset_prefix_cache p = (ok, q) \<and> (ok \<longleftrightarrow> (\<forall>b. 0 < b \<and> b < num_gpu_blocks p \<longrightarrow> ref_cnt (block_at p b) = 0)) \<and>
    (ok \<longrightarrow> (\<forall>h gid. get_cached_block q h [gid] \<in> {Inr None, Inl OverflowError}) \<and>
      (\<forall>b. ref_cnt (block_at q b) = ref_cnt (block_at p b))) \<and>
    (\<not> ok \<longrightarrow> q = p)"
proof -
  obtain free where ok: "index_ok p" and rf: "refs_ok p free {}" using run_free [OF assms(1)] unfolding p_def .
  obtain b q where q: "reset_prefix_cache p = (b, q)" by fastforce
  have rep: "represents p free" and sub: "set free \<subseteq> {1 ..< num_gpu_blocks p}" and n: "0 < num_gpu_blocks p" using rf by (simp_all add: refs_ok_def)
  have card: "card (set free) = length free" using fq.rep_distinct [OF rep] by (rule distinct_card)
  have "b \<longleftrightarrow> length free = num_gpu_blocks p - 1"
    using q rep n by (auto simp: reset_prefix_cache_def get_num_free_blocks_def represents_def Let_def split: if_splits)
  also have "\<dots> \<longleftrightarrow> set free = {1 ..< num_gpu_blocks p}" using sub card card_subset_eq [OF _ sub] by auto
  also have "\<dots> \<longleftrightarrow> (\<forall>b. 0 < b \<and> b < num_gpu_blocks p \<longrightarrow> ref_cnt (block_at p b) = 0)" using rf by (auto simp: refs_ok_def)
  finally have b: "b \<longleftrightarrow> (\<forall>b. 0 < b \<and> b < num_gpu_blocks p \<longrightarrow> ref_cnt (block_at p b) = 0)" .
  have "get_cached_block q h [gid] \<in> {Inr None, Inl OverflowError} \<and> (\<forall>c. ref_cnt (block_at q c) = ref_cnt (block_at p c))" if "b" for h gid
  proof -
    note r = reset_op [OF ok, of q]
    have rq: "reset_prefix_cache p = (True, q)" using q that by simp
    have "map_ok (cached_map q)" "members (cached_map q) key = {}" for key using r(1,3) [OF rq] by (auto simp: index_ok_def)
    then have "get_one_block (cached_map q) key = Inr None" for key by (rule bi.one_miss)
    then show ?thesis using r(2) [OF rq] by (auto simp: index_frame_def make_block_hash_with_group_id_def to_bytes4_def)
  qed
  moreover have "q = p" if "\<not> b" using q that by (auto simp: reset_prefix_cache_def Let_def split: if_splits)
  ultimately show ?thesis using q b by (intro exI [of _ b] exI [of _ q]) (simp del: get_cached_block.simps)
qed

theorem reset_prefix_cache_correct_witness:
  "\<exists>g q. pool_run id g \<and> reset_prefix_cache (pool g) = (False, q)"
proof -
  obtain g where g: "pool_run id g" "num_gpu_blocks (pool g) = 3" "ref_cnt (block_at (pool g) 1) = 1" using demo_run_taken by auto
  have "\<not> (\<forall>b. 0 < b \<and> b < num_gpu_blocks (pool g) \<longrightarrow> ref_cnt (block_at (pool g) b) = 0)" using g(2,3) by (auto intro!: exI [of _ 1])
  moreover obtain ok q where "reset_prefix_cache (pool g) = (ok, q)"
    "ok \<longleftrightarrow> (\<forall>b. 0 < b \<and> b < num_gpu_blocks (pool g) \<longrightarrow> ref_cnt (block_at (pool g) b) = 0)"
    using reset_prefix_cache_correct [OF g(1)] by blast
  ultimately have "reset_prefix_cache (pool g) = (False, q)" by metis
  then show ?thesis using g(1) by blast
qed

end
