(* ===== verification/Type_Manager.thy ===== *)
theory Type_Manager
  imports Prefix_Cache
begin

text \<open>
  The managers of one attention type (\<^verbatim>\<open>vllm/v1/core/single_type_kv_cache_manager.py\<close>): which blocks every request holds, how
  many new ones it needs, what is cached, and what the attention window no longer needs. Full attention, reference sliding
  windows, sliding windows, chunked local attention and cross attention are modelled; the state-space (Mamba) manager
  is not.

  The block pool is shared by all managers and passed along as a second state. Blocks are their ids; the null block is
  block \<open>0\<close>. Reading a missing entry of \<open>req_to_blocks\<close>, a \<open>defaultdict\<close>, creates it. Token counts are naturals: every
  subtraction in the source is guarded by a comparison or by \<open>max\<close>, except the number of blocks for external tokens in
  \<open>allocate_external_computed_blocks\<close>. It is negative only if the request holds more blocks than its computed tokens fill;
  the model then asks for none, and the lemmas about it assume hits that fit.
\<close>

section \<open>Definitions: state\<close>

datatype attn_kind = FullAttention | RSWA nat | SlidingWindow nat nat | ChunkedLocal nat | CrossAttention

record manager =
  mgr_kind :: attn_kind
  spec_block_size :: nat
  mgr_block_size :: nat
  scheduler_block_size :: nat
  mgr_caching :: bool
  max_admission_blocks :: "nat option"
  record_new_block_ids :: bool
  new_block_ids :: "nat list"
  req_to_blocks :: "(string, nat list) dict"
  num_cached_block :: "(string, nat) dict"
  kv_cache_group_id :: int
  mgr_use_eagle :: bool
  partial_hit_reqs :: "(string, nat \<times> nat) dict"
  pending_cow_copies :: "(nat \<times> nat) list"

definition blocks_for :: "nat \<Rightarrow> nat \<Rightarrow> nat" where
  "blocks_for n block_size = nat (cdiv (int n) (int block_size))"

definition max_admission_blocks_per_request :: "attn_kind \<Rightarrow> nat \<Rightarrow> nat \<Rightarrow> nat \<Rightarrow> nat option" where
  "max_admission_blocks_per_request kind block_size max_in_flight max_model_len =
     (case kind of
        SlidingWindow w extra \<Rightarrow> Some (blocks_for (min (w - 1 + extra + max_in_flight) max_model_len) block_size + 1)
      | ChunkedLocal c \<Rightarrow> Some (blocks_for (min (c + max_in_flight) max_model_len) block_size)
      | _ \<Rightarrow> None)"

definition get_manager_for_kv_cache_spec ::
  "attn_kind \<Rightarrow> nat \<Rightarrow> nat \<Rightarrow> nat \<Rightarrow> bool \<Rightarrow> int \<Rightarrow> nat \<Rightarrow> nat \<Rightarrow> bool \<Rightarrow> manager" where
  "get_manager_for_kv_cache_spec kind block_size max_in_flight max_model_len caching gid dcp sched_block_size zeroing =
     \<lparr>mgr_kind = kind, spec_block_size = block_size,
      mgr_block_size = (if dcp > 1 then block_size * dcp else block_size), scheduler_block_size = sched_block_size,
      mgr_caching = caching, max_admission_blocks = max_admission_blocks_per_request kind block_size max_in_flight max_model_len,
      record_new_block_ids = zeroing, new_block_ids = [], req_to_blocks = [], num_cached_block = [],
      kv_cache_group_id = gid, mgr_use_eagle = False, partial_hit_reqs = [], pending_cow_copies = []\<rparr>"

definition blocks_of :: "string \<Rightarrow> manager \<Rightarrow> nat list" where
  "blocks_of rid m = (case dict_get (req_to_blocks m) rid of None \<Rightarrow> [] | Some bs \<Rightarrow> bs)"

definition set_blocks :: "string \<Rightarrow> nat list \<Rightarrow> manager \<Rightarrow> manager" where
  "set_blocks rid bs m = m\<lparr>req_to_blocks := dict_set rid bs (req_to_blocks m)\<rparr>"

section \<open>Definitions: how many blocks\<close>

definition get_num_skipped_tokens :: "attn_kind \<Rightarrow> nat \<Rightarrow> nat" where
  "get_num_skipped_tokens kind num_computed =
     (case kind of
        SlidingWindow w extra \<Rightarrow> num_computed + 1 - w - extra
      | ChunkedLocal c \<Rightarrow> num_computed div c * c
      | _ \<Rightarrow> 0)"

definition get_num_evictable_blocks :: "block_pool \<Rightarrow> nat list \<Rightarrow> nat" where
  "get_num_evictable_blocks p bs = length (filter (\<lambda>b. ref_cnt (block_at p b) = 0 \<and> \<not> is_null (block_at p b)) bs)"

definition has_partial_local_hit :: "manager \<Rightarrow> nat list \<Rightarrow> nat \<Rightarrow> bool" where
  "has_partial_local_hit m new_computed num_local \<longleftrightarrow> 0 < length new_computed \<and> num_local mod mgr_block_size m \<noteq> 0"

definition num_blocks_to_allocate ::
  "string \<Rightarrow> nat \<Rightarrow> nat list \<Rightarrow> nat \<Rightarrow> nat \<Rightarrow> bool \<Rightarrow> manager \<Rightarrow> block_pool \<Rightarrow> nat res" where
  "num_blocks_to_allocate rid ntoks new_computed num_total num_local apply_cap m p =
     (let full = blocks_for ntoks (mgr_block_size m);
          required = (case max_admission_blocks m of Some c \<Rightarrow> if apply_cap then min full c else full | None \<Rightarrow> full);
          num_req = length (blocks_of rid m)
      in if rid \<in> set (dict_keys (num_cached_block m)) then
           bind_res (py_assert (length new_computed = 0)) (\<lambda>_. Inr (required - num_req))
         else
           let num_skipped = get_num_skipped_tokens (mgr_kind m) num_total div mgr_block_size m;
               num_new = required - max num_skipped (length new_computed + num_req);
               evictable = get_num_evictable_blocks p (drop (num_skipped - num_req) new_computed)
           in Inr ((if has_partial_local_hit m new_computed num_local then num_new + 1 else num_new) + evictable))"

section \<open>Definitions: adding blocks\<close>

definition add_local_computed_blocks ::
  "string \<Rightarrow> nat list \<Rightarrow> nat \<Rightarrow> nat \<Rightarrow> manager \<times> block_pool \<Rightarrow> (manager \<times> block_pool) res" where
  "add_local_computed_blocks rid new_computed num_local num_external st =
     (case st of (m, p) \<Rightarrow>
        if mgr_kind m = CrossAttention then bind_res (py_assert (length new_computed = 0)) (\<lambda>_. Inr (m, p))
        else
          bind_res (py_assert (length (blocks_of rid m) = 0)) (\<lambda>_.
            let num_skipped = get_num_skipped_tokens (mgr_kind m) (num_local + num_external) div mgr_block_size m;
                hits = drop num_skipped new_computed
            in bind_res (if mgr_caching m then touch hits p else bind_res (py_assert (hits = [])) (\<lambda>_. Inr p)) (\<lambda>p1.
                 let blocks = replicate num_skipped 0 @ hits;
                     m1 = (set_blocks rid blocks m)\<lparr>num_cached_block := dict_set rid (length blocks) (num_cached_block m)\<rparr>
                 in if has_partial_local_hit m hits num_local then
                      let idx = num_local div mgr_block_size m
                      in Inr (m1\<lparr>partial_hit_reqs := dict_set rid (idx, last hits) (partial_hit_reqs m1),
                                 num_cached_block := dict_set rid idx (num_cached_block m1)\<rparr>, p1)
                    else Inr (m1, p1))))"

definition note_new_blocks :: "nat list \<Rightarrow> manager \<Rightarrow> manager" where
  "note_new_blocks bs m = (if record_new_block_ids m then m\<lparr>new_block_ids := new_block_ids m @ bs\<rparr> else m)"

definition allocate_external_computed_blocks ::
  "string \<Rightarrow> nat \<Rightarrow> nat \<Rightarrow> manager \<times> block_pool \<Rightarrow> (manager \<times> block_pool) res" where
  "allocate_external_computed_blocks rid num_local num_external st =
     (case st of (m, p) \<Rightarrow>
        if mgr_kind m = CrossAttention then Inr (m, p)
        else
          let num_total = num_local + num_external;
              num_skipped = get_num_skipped_tokens (mgr_kind m) num_total;
              num_ext = (if num_skipped > 0 then min (num_total - num_skipped) num_external else num_external)
          in if num_ext = 0 then Inr (m, p)
             else bind_res (get_new_blocks (blocks_for num_total (mgr_block_size m) - length (blocks_of rid m)) p) (\<lambda>(new, p1).
                    Inr (note_new_blocks new (set_blocks rid (blocks_of rid m @ new) m), p1)))"

definition apply_cow ::
  "string \<Rightarrow> nat \<Rightarrow> nat \<Rightarrow> nat \<Rightarrow> manager \<times> block_pool \<Rightarrow> (manager \<times> block_pool) res" where
  "apply_cow rid idx src cow st =
     (case st of (m, p) \<Rightarrow>
        let bs = blocks_of rid m
        in bind_res (py_assert (idx < length bs)) (\<lambda>_.
           bind_res (py_assert (bs ! idx = src)) (\<lambda>_.
           bind_res (py_assert (\<not> is_null (block_at p src) \<and> ref_cnt (block_at p src) > 0)) (\<lambda>_.
             Inr ((set_blocks rid (bs[idx := cow]) m)\<lparr>pending_cow_copies := pending_cow_copies m @ [(src, cow)]\<rparr>,
                  upd_block cow (\<lambda>blk. blk\<lparr>ref_cnt := ref_cnt blk + 1\<rparr>) p)))))"

definition redirect_partial_hit ::
  "string \<Rightarrow> manager \<times> block_pool \<Rightarrow> (nat list \<times> manager \<times> block_pool) res" where
  "redirect_partial_hit rid st =
     (case st of (m, p) \<Rightarrow>
        case dict_get (partial_hit_reqs m) rid of
          None \<Rightarrow> Inr ([], m, p)
        | Some (idx, src) \<Rightarrow>
            bind_res (get_new_blocks 1 p) (\<lambda>(new, p1).
            bind_res (apply_cow rid idx src (hd new) (m\<lparr>partial_hit_reqs := dict_del rid (partial_hit_reqs m)\<rparr>, p1)) (\<lambda>(m1, p2).
              Inr ([hd new], m1\<lparr>new_block_ids := new_block_ids m1 @ [hd new]\<rparr>, p2))))"

definition mgr_allocate_new_blocks ::
  "string \<Rightarrow> nat \<Rightarrow> manager \<times> block_pool \<Rightarrow> (nat list \<times> manager \<times> block_pool) res" where
  "mgr_allocate_new_blocks rid ntoks st =
     bind_res (redirect_partial_hit rid st) (\<lambda>(cow, m, p).
       let bs = blocks_of rid m; num_new = blocks_for ntoks (mgr_block_size m) - length bs
       in if num_new = 0 then Inr (cow, set_blocks rid bs m, p)
          else bind_res (get_new_blocks num_new p) (\<lambda>(new, p1).
                 Inr (cow @ new, note_new_blocks new (set_blocks rid (bs @ new) m), p1)))"

definition take_new_block_ids :: "manager \<Rightarrow> nat list \<times> manager" where
  "take_new_block_ids m = (new_block_ids m, m\<lparr>new_block_ids := []\<rparr>)"

definition take_pending_cow_copies :: "manager \<Rightarrow> (nat \<times> nat) list \<times> manager" where
  "take_pending_cow_copies m = (pending_cow_copies m, m\<lparr>pending_cow_copies := []\<rparr>)"

section \<open>Definitions: caching\<close>

definition contiguous_blocks_for_hit :: "nat \<Rightarrow> nat \<Rightarrow> bool \<Rightarrow> nat" where
  "contiguous_blocks_for_hit w block_size eagle =
     (let n = blocks_for (w - 1) block_size in if eagle then n + 1 else n)"

definition near_boundary :: "nat \<Rightarrow> nat \<Rightarrow> nat \<Rightarrow> nat \<Rightarrow> int \<Rightarrow> nat \<Rightarrow> bool" where
  "near_boundary align block_size need eagle_shift boundary j \<longleftrightarrow>
     (let aligned = boundary div int align * int align; e = aligned div int block_size + int eagle_shift
      in e - int need \<le> int j \<and> int j < e)"

definition reachable_block_mask ::
  "attn_kind \<Rightarrow> nat \<Rightarrow> nat \<Rightarrow> nat \<Rightarrow> nat \<Rightarrow> bool \<Rightarrow> nat option \<Rightarrow> int list \<Rightarrow> bool list option res" where
  "reachable_block_mask kind block_size start_block end_block align eagle retention boundaries =
     (case kind of
        SlidingWindow w extra \<Rightarrow>
          bind_res (py_assert (align mod block_size = 0)) (\<lambda>_.
            let need = contiguous_blocks_for_hit w block_size eagle;
                eagle_shift = (if eagle then 1 else 0);
                segment = (case retention of None \<Rightarrow> Some align | Some i \<Rightarrow> if i = 0 then None else Some i);
                near = (\<lambda>j. retention \<noteq> None \<and> list_ex (\<lambda>b. near_boundary align block_size need eagle_shift b j) boundaries)
            in case segment of
                 None \<Rightarrow> Inr (Some (map near [start_block ..< end_block]))
               | Some s \<Rightarrow>
                   let per = s div block_size
                   in if need \<ge> per then Inr None
                      else Inr (Some (map (\<lambda>i. (i \<ge> eagle_shift \<and> (i - eagle_shift) mod per \<ge> per - need) \<or> near i) [start_block ..< end_block])))
      | _ \<Rightarrow> Inr None)"

definition cache_partial_tail_block ::
  "(byte list \<Rightarrow> byte list) \<Rightarrow> request \<Rightarrow> nat \<Rightarrow> manager \<times> block_pool \<Rightarrow> (request \<times> manager \<times> block_pool) res" where
  "cache_partial_tail_block sha256 r ntoks st =
     (case st of (m, p) \<Rightarrow>
        let hbs = hash_block_size p; boundary = num_prompt_tokens r div hbs * hbs
        in if boundary = 0 \<or> boundary > ntoks then Inr (r, m, p)
           else if boundary mod mgr_block_size m = 0 then Inr (r, m, p)
           else
             let bs = blocks_of (request_id r) m; idx = boundary div mgr_block_size m; m1 = set_blocks (request_id r) bs m
             in if idx \<ge> length bs then Inr (r, m1, p)
                else bind_res (cache_partial_block sha256 r (bs ! idx) boundary (kv_cache_group_id m) (mgr_block_size m) p)
                       (\<lambda>(_, r', p'). Inr (r', m1, p')))"

definition mgr_cache_full ::
  "(byte list \<Rightarrow> byte list) \<Rightarrow> request \<Rightarrow> nat \<Rightarrow> nat option \<Rightarrow> manager \<times> block_pool \<Rightarrow> (request \<times> manager \<times> block_pool) res" where
  "mgr_cache_full sha256 r ntoks retention st =
     (case st of (m, p) \<Rightarrow>
        let rid = request_id r;
            num_cached = (case dict_get (num_cached_block m) rid of None \<Rightarrow> 0 | Some n \<Rightarrow> n);
            num_full = ntoks div mgr_block_size m
        in if num_cached \<ge> num_full then Inr (r, m, p)
           else
             bind_res (reachable_block_mask (mgr_kind m) (spec_block_size m) num_cached num_full (scheduler_block_size m)
                 (mgr_use_eagle m) retention
                 ([int (num_prompt_tokens r) - 1] @
                  (if shared_prefix_boundary r \<noteq> 0 then [int (shared_prefix_boundary r)] else []))) (\<lambda>block_mask.
             bind_res (cache_full_blocks sha256 r (blocks_of rid m) num_cached num_full (mgr_block_size m)
                 (kv_cache_group_id m) block_mask p) (\<lambda>(r', p').
               Inr (r', (set_blocks rid (blocks_of rid m) m)\<lparr>num_cached_block := dict_set rid num_full (num_cached_block m)\<rparr>, p'))))"

definition mgr_cache_blocks ::
  "(byte list \<Rightarrow> byte list) \<Rightarrow> request \<Rightarrow> nat \<Rightarrow> nat option \<Rightarrow> manager \<times> block_pool \<Rightarrow> (request \<times> manager \<times> block_pool) res" where
  "mgr_cache_blocks sha256 r ntoks retention st =
     (case st of (m, p) \<Rightarrow>
        case mgr_kind m of
          CrossAttention \<Rightarrow> Inl ValueError
        | SlidingWindow _ _ \<Rightarrow> mgr_cache_full sha256 r ntoks retention st
        | ChunkedLocal _ \<Rightarrow> mgr_cache_full sha256 r ntoks retention st
        | _ \<Rightarrow> bind_res (mgr_cache_full sha256 r ntoks retention st) (\<lambda>(r', m', p').
                 if mgr_block_size m' = hash_block_size p' then Inr (r', m', p')
                 else cache_partial_tail_block sha256 r' ntoks (m', p')))"

section \<open>Definitions: giving blocks back\<close>

definition mgr_pop_blocks_for_free :: "string \<Rightarrow> manager \<Rightarrow> nat list \<times> manager" where
  "mgr_pop_blocks_for_free rid m =
     (blocks_of rid m,
      m\<lparr>req_to_blocks := dict_del rid (req_to_blocks m), num_cached_block := dict_del rid (num_cached_block m),
        partial_hit_reqs := dict_del rid (partial_hit_reqs m)\<rparr>)"

definition mgr_free :: "string \<Rightarrow> manager \<times> block_pool \<Rightarrow> (manager \<times> block_pool) res" where
  "mgr_free rid st =
     (case st of (m, p) \<Rightarrow> case mgr_pop_blocks_for_free rid m of (bs, m1) \<Rightarrow>
        bind_res (free_blocks (rev bs) p) (\<lambda>p1. Inr (m1, p1)))"

fun null_back :: "nat list \<Rightarrow> nat list \<Rightarrow> nat list \<Rightarrow> nat list \<times> nat list" where
  "null_back [] bs freed = (bs, freed)"
| "null_back (i # is) bs freed = (if bs ! i = 0 then (bs, freed) else null_back is (bs[i := 0]) (freed @ [bs ! i]))"

definition remove_blocks_in_range ::
  "string \<Rightarrow> nat \<Rightarrow> nat \<Rightarrow> manager \<times> block_pool \<Rightarrow> (manager \<times> block_pool) res" where
  "remove_blocks_in_range rid first_block last_block st =
     (case st of (m, p) \<Rightarrow>
        if rid \<notin> set (dict_keys (req_to_blocks m)) \<or> first_block \<ge> last_block then Inr (m, p)
        else
          let bs = blocks_of rid m; e = min last_block (length bs)
          in case null_back (rev [first_block ..< e]) bs [] of (bs', freed) \<Rightarrow>
               bind_res (if freed = [] then Inr p else free_blocks freed p) (\<lambda>p1. Inr (set_blocks rid bs' m, p1)))"

definition remove_skipped_default :: "string \<Rightarrow> nat \<Rightarrow> manager \<times> block_pool \<Rightarrow> (manager \<times> block_pool) res" where
  "remove_skipped_default rid processed st =
     (case st of (m, p) \<Rightarrow>
        let num_skipped = get_num_skipped_tokens (mgr_kind m) processed
        in if num_skipped = 0 then Inr (m, p)
           else let bs = blocks_of rid m; n = min (num_skipped div mgr_block_size m) (length bs)
                in remove_blocks_in_range rid 0 n (set_blocks rid bs m, p))"

definition mgr_remove_skipped_blocks ::
  "string \<Rightarrow> nat \<Rightarrow> nat option \<Rightarrow> manager \<times> block_pool \<Rightarrow> (manager \<times> block_pool) res" where
  "mgr_remove_skipped_blocks rid processed num_prompt st =
     (case st of (m, p) \<Rightarrow>
        case (mgr_kind m, num_prompt) of
          (RSWA w, Some n) \<Rightarrow>
            let bsz = mgr_block_size m; first_gap = blocks_for n bsz; window_start = max n (processed - w)
            in remove_blocks_in_range rid first_gap (window_start div bsz) st
        | _ \<Rightarrow> remove_skipped_default rid processed st)"

definition mgr_num_common_prefix_blocks :: "string \<Rightarrow> manager \<Rightarrow> block_pool \<Rightarrow> nat \<times> manager" where
  "mgr_num_common_prefix_blocks rid m p =
     (if (case mgr_kind m of FullAttention \<Rightarrow> True | RSWA _ \<Rightarrow> True | _ \<Rightarrow> False) then
        let m1 = set_blocks rid (blocks_of rid m) m
        in (length (takeWhile (\<lambda>b. ref_cnt (block_at p b) = int (length (req_to_blocks m1))) (blocks_of rid m)), m1)
      else (0, m))"

end
