(* ===== verification/Cache_Hit.thy ===== *)
theory Cache_Hit
  imports Type_Manager
begin

text \<open>
  The search for the longest cached prefix of a request, for full attention, sliding windows and chunked local
  attention (the \<open>find_longest_cache_hit\<close> methods of \<^verbatim>\<open>vllm/v1/core/single_type_kv_cache_manager.py\<close>). The hashes are those
  of the request at the granularity of the pool; the result has one list of blocks per group and the length of the hit
  in tokens.
\<close>

section \<open>Definitions: full attention\<close>

definition append_each :: "nat list list \<Rightarrow> nat list \<Rightarrow> nat list list" where
  "append_each computed cached = map (\<lambda>(bs, b). bs @ [b]) (zip computed cached)"

fun full_run :: "block_pool \<Rightarrow> int list \<Rightarrow> byte list list \<Rightarrow> nat list list \<Rightarrow> nat list list res" where
  "full_run p gids [] computed = Inr computed"
| "full_run p gids (h # hs) computed =
     bind_res (get_cached_block p h gids) (\<lambda>c.
       case c of
         None \<Rightarrow> Inr computed
       | Some bs \<Rightarrow> if bs = [] then Inr computed else full_run p gids hs (append_each computed bs))"

fun probe_tail :: "block_pool \<Rightarrow> int list \<Rightarrow> byte list list \<Rightarrow> nat list \<Rightarrow> (nat \<times> nat list) option res" where
  "probe_tail p gids hs [] = Inr None"
| "probe_tail p gids hs (i # is) =
     bind_res (get_cached_block p (hs ! i) gids) (\<lambda>c.
       case c of
         None \<Rightarrow> probe_tail p gids hs is
       | Some bs \<Rightarrow> if bs = [] then probe_tail p gids hs is else Inr (Some (i, bs)))"

text \<open>Phase 2 tries the hash boundaries inside the first block that is not cached as a whole, the longest first.\<close>

definition extend_partial ::
  "block_pool \<Rightarrow> int list \<Rightarrow> byte list list \<Rightarrow> nat \<Rightarrow> nat \<Rightarrow> nat \<Rightarrow> nat list list \<Rightarrow> (nat list list \<times> nat) res" where
  "extend_partial p gids hs max_length align block_size computed =
     (let scale = block_size div align;
          num = length (computed ! 0);
          first_idx = num * scale;
          max_idx = min (min (first_idx + scale - 1) (max_length div align)) (length hs)
      in bind_res (probe_tail p gids hs (rev [first_idx ..< max_idx])) (\<lambda>t.
           case t of
             None \<Rightarrow> Inr (computed, num * block_size)
           | Some (i, bs) \<Rightarrow> Inr (append_each computed bs, (i + 1) * align)))"

definition trim_hit :: "bool \<Rightarrow> nat \<Rightarrow> nat \<Rightarrow> nat list list \<times> nat \<Rightarrow> nat list list \<times> nat" where
  "trim_hit drop_eagle align block_size st =
     (case st of (computed, hit) \<Rightarrow>
        let hit1 = (if drop_eagle \<and> hit > 0 then hit - min align block_size else hit);
            hit2 = hit1 - hit1 mod align
        in (map (take (blocks_for hit2 block_size)) computed, hit2))"

definition find_full ::
  "byte list list \<Rightarrow> int \<Rightarrow> int list \<Rightarrow> block_pool \<Rightarrow> nat \<Rightarrow> bool \<Rightarrow> nat \<Rightarrow> (nat list list \<times> nat) res" where
  "find_full hashes max_length gids p block_size drop_eagle align =
     (if align = 0 \<or> block_size = 0 then Inl ZeroDivisionError else
     bind_res (resolve_block_hashes (Raw hashes) (hash_block_size p) block_size True (Some align)) (\<lambda>hs.
       let fine = align < block_size \<and> block_size mod align = 0
       in bind_res (if fine then
                      (case hs of
                         Raw l \<Rightarrow> bind_res (BlockHashListWithBlockSize l align block_size) (\<lambda>v. Inr (View v))
                       | View _ \<Rightarrow> Inl AssertionError)
                    else Inr hs) (\<lambda>full_hashes.
          bind_res (hashes_from full_hashes 0) (\<lambda>l.
          if max_length div int block_size < 0 then Inl ValueError
          else
          bind_res (full_run p gids (take (nat (max_length div int block_size)) l) (replicate (length gids) [])) (\<lambda>computed.
          if computed = [] then Inl IndexError
          else
          bind_res (if fine then
                      (case hs of
                         Raw raw \<Rightarrow> extend_partial p gids raw (nat max_length) align block_size computed
                       | View _ \<Rightarrow> Inl AssertionError)
                    else Inr (computed, length (computed ! 0) * block_size)) (\<lambda>st.
            Inr (trim_hit drop_eagle align block_size st)))))))"

section \<open>Definitions: sliding windows\<close>

definition put_each :: "nat \<Rightarrow> nat list list \<Rightarrow> nat list \<Rightarrow> nat list list" where
  "put_each i computed cached = map (\<lambda>(bs, b). bs[i := b]) (zip computed cached)"

text \<open>The search runs from right to left over the block indices; its result says whether enough contiguous blocks were found.\<close>

fun window_run ::
  "block_pool \<Rightarrow> int list \<Rightarrow> hash_list \<Rightarrow> nat \<Rightarrow> nat \<Rightarrow> bool \<Rightarrow> nat \<Rightarrow> nat list \<Rightarrow> nat list list \<Rightarrow> nat \<Rightarrow>
   (nat list list \<times> nat \<times> bool) res" where
  "window_run p gids hs block_size align drop_eagle need [] computed cnt = Inr (computed, cnt, False)"
| "window_run p gids hs block_size align drop_eagle need (i # is) computed cnt =
     bind_res (hash_at hs i) (\<lambda>h.
     bind_res (get_cached_block p h gids) (\<lambda>c.
       case c of
         None \<Rightarrow> window_run p gids hs block_size align drop_eagle need is computed 0
       | Some bs \<Rightarrow>
           if bs = [] then window_run p gids hs block_size align drop_eagle need is computed 0
           else if cnt = 0 \<and> block_size \<noteq> align \<and> ((if drop_eagle then i else i + 1) * block_size) mod align \<noteq> 0 then
             window_run p gids hs block_size align drop_eagle need is computed cnt
           else
             let computed1 = put_each i computed bs; cnt1 = cnt + 1
             in if cnt1 \<ge> need then Inr (map (take (i + cnt1)) computed1, cnt1, True)
                else window_run p gids hs block_size align drop_eagle need is computed1 cnt1))"

fun pop_unaligned :: "nat \<Rightarrow> nat \<Rightarrow> nat \<Rightarrow> nat" where
  "pop_unaligned block_size align 0 = 0"
| "pop_unaligned block_size align (Suc n) =
     (if block_size \<noteq> align \<and> (Suc n * block_size) mod align \<noteq> 0 then pop_unaligned block_size align n else Suc n)"

definition find_window ::
  "byte list list \<Rightarrow> int \<Rightarrow> int list \<Rightarrow> block_pool \<Rightarrow> nat \<Rightarrow> nat \<Rightarrow> bool \<Rightarrow> nat \<Rightarrow> nat \<Rightarrow> (nat list list \<times> nat) res" where
  "find_window hashes max_length gids p w block_size drop_eagle align dcp =
     bind_res (py_assert (dcp = 1)) (\<lambda>_.
     if align = 0 \<or> block_size = 0 then Inl ZeroDivisionError else
     bind_res (py_assert (align mod block_size = 0)) (\<lambda>_.
     bind_res (resolve_block_hashes (Raw hashes) (hash_block_size p) block_size False (Some align)) (\<lambda>hs.
       let need = contiguous_blocks_for_hit w block_size drop_eagle;
           max_num = nat (max_length div int block_size)
       in bind_res (window_run p gids hs block_size align drop_eagle need (rev [0 ..< max_num])
                      (replicate (length gids) (replicate max_num 0)) 0) (\<lambda>(computed, cnt, found).
          if computed = [] then Inl IndexError
          else
            let computed1 = (if found then computed
                             else let c = map (take cnt) computed
                                  in map (take (pop_unaligned block_size align (length (c ! 0)))) c);
                computed2 = (if drop_eagle \<and> computed1 ! 0 \<noteq> [] then
                               map (take (pop_unaligned block_size align (length (computed1 ! 0) - 1))) computed1
                             else computed1)
            in Inr (computed2, length (computed2 ! 0) * block_size)))))"

section \<open>Definitions: chunked local attention\<close>

fun chunk_run :: "block_pool \<Rightarrow> int list \<Rightarrow> hash_list \<Rightarrow> nat list \<Rightarrow> nat list list \<Rightarrow> nat list list res" where
  "chunk_run p gids hs [] computed = Inr computed"
| "chunk_run p gids hs (i # is) computed =
     bind_res (hash_at hs i) (\<lambda>h.
     bind_res (get_cached_block p h gids) (\<lambda>c.
       case c of
         None \<Rightarrow> Inr computed
       | Some bs \<Rightarrow> if bs = [] then Inr computed else chunk_run p gids hs is (append_each computed bs)))"

definition find_chunked ::
  "byte list list \<Rightarrow> int \<Rightarrow> int list \<Rightarrow> block_pool \<Rightarrow> nat \<Rightarrow> nat \<Rightarrow> bool \<Rightarrow> nat \<Rightarrow> nat \<Rightarrow> (nat list list \<times> nat) res" where
  "find_chunked hashes max_length gids p chunk block_size drop_eagle align dcp =
     bind_res (py_assert (\<not> drop_eagle)) (\<lambda>_.
     bind_res (py_assert (dcp = 1)) (\<lambda>_.
     bind_res (py_assert (block_size = align)) (\<lambda>_.
     if block_size = 0 \<or> (chunk = 0 \<and> max_length > 0) then Inl ZeroDivisionError else
     bind_res (resolve_block_hashes (Raw hashes) (hash_block_size p) block_size False (Some align)) (\<lambda>hs.
       let max_num = nat (max_length div int block_size);
           local_start = (if max_length > 0 then nat max_length div chunk * chunk else 0);
           start_block = local_start div block_size
       in bind_res (chunk_run p gids hs [start_block ..< max_num] (replicate (length gids) (replicate start_block 0))) (\<lambda>computed.
          if computed = [] then Inl IndexError else Inr (computed, length (computed ! 0) * block_size))))))"

definition find_longest_cache_hit ::
  "attn_kind \<Rightarrow> byte list list \<Rightarrow> int \<Rightarrow> int list \<Rightarrow> block_pool \<Rightarrow> nat \<Rightarrow> bool \<Rightarrow> nat \<Rightarrow> nat \<Rightarrow> (nat list list \<times> nat) res" where
  "find_longest_cache_hit kind hashes max_length gids p block_size drop_eagle align dcp =
     (case kind of
        SlidingWindow w _ \<Rightarrow> find_window hashes max_length gids p w block_size drop_eagle align dcp
      | ChunkedLocal c \<Rightarrow> find_chunked hashes max_length gids p c block_size drop_eagle align dcp
      | CrossAttention \<Rightarrow> Inl NotImplementedError
      | _ \<Rightarrow> find_full hashes max_length gids p (if dcp > 1 then block_size * dcp else block_size) drop_eagle align)"

end
