(* ===== verification/Coordinator.thy ===== *)
theory Coordinator
  imports Cache_Hit
begin

text \<open>
  The coordinator of the KV-cache groups (\<^verbatim>\<open>vllm/v1/core/kv_cache_coordinator.py\<close>): one manager per group over one block
  pool, in the three classes of the source (no prefix caching, a single group, several groups). A spec is its attention
  kind, its block size, and a tag for the fields that only the tensor layout reads, which matter for the equality of specs.
  Prefill context parallelism is \<open>1\<close>. There are no state-space groups, so the coordinator never enables partial
  hash hits by itself; the flag is a field all the same.
\<close>

section \<open>Definitions: state\<close>

record kv_spec =
  spec_kind :: attn_kind
  spec_size :: nat
  spec_layout :: nat

record group_config =
  group_spec :: kv_spec
  is_eagle_group :: bool

record spec_group =
  grp_spec :: kv_spec
  group_ids :: "nat list"
  grp_use_eagle :: bool

datatype coordinator_class = NoPrefixCache | Unitary | Hybrid

record coordinator =
  coord_class :: coordinator_class
  groups :: "group_config list"
  managers :: "manager list"
  coord_pool :: block_pool
  coord_block_size :: nat
  num_reprefillable_tokens :: nat
  eagle_group_ids :: "nat list"
  retention_interval :: "nat option"
  dcp_world_size :: nat
  attention_groups :: "spec_group list"
  enable_partial_hash_hits :: bool

definition is_full_spec :: "kv_spec \<Rightarrow> bool" where
  "is_full_spec s = (case spec_kind s of FullAttention \<Rightarrow> True | RSWA _ \<Rightarrow> True | _ \<Rightarrow> False)"

definition is_window_spec :: "kv_spec \<Rightarrow> bool" where
  "is_window_spec s = (case spec_kind s of SlidingWindow _ _ \<Rightarrow> True | _ \<Rightarrow> False)"

section \<open>Definitions: construction\<close>

definition validate_retention :: "nat option \<Rightarrow> nat \<Rightarrow> group_config list \<Rightarrow> unit res" where
  "validate_retention retention sched_block_size gs =
     (case retention of
        None \<Rightarrow> Inr ()
      | Some i \<Rightarrow>
          if \<not> list_ex (\<lambda>g. is_window_spec (group_spec g)) gs then Inl ValueError
          else if sched_block_size = 0 then Inl ZeroDivisionError
          else if i mod sched_block_size \<noteq> 0 then Inl ValueError
          else Inr ())"

fun join_group :: "kv_spec \<Rightarrow> nat \<Rightarrow> bool \<Rightarrow> spec_group list \<Rightarrow> spec_group list" where
  "join_group s i eagle [] = [\<lparr>grp_spec = s, group_ids = [i], grp_use_eagle = eagle\<rparr>]"
| "join_group s i eagle (g # gs) =
     (if grp_spec g = s then g\<lparr>group_ids := group_ids g @ [i], grp_use_eagle := grp_use_eagle g \<or> eagle\<rparr> # gs
      else g # join_group s i eagle gs)"

definition split_groups :: "group_config list \<Rightarrow> nat list \<Rightarrow> spec_group list" where
  "split_groups gs eagle_ids =
     (let joined = fold (\<lambda>(i, g). join_group (group_spec g) i (i \<in> set eagle_ids)) (zip [0 ..< length gs] gs) []
      in filter (\<lambda>g. is_full_spec (grp_spec g)) joined @ filter (\<lambda>g. \<not> is_full_spec (grp_spec g)) joined)"

definition mark_eagle :: "spec_group list \<Rightarrow> manager list \<Rightarrow> manager list" where
  "mark_eagle ags ms =
     fold (\<lambda>g ms. if grp_use_eagle g then fold (\<lambda>i ms. ms[i := (ms ! i)\<lparr>mgr_use_eagle := True\<rparr>]) (group_ids g) ms else ms) ags ms"

definition base_coordinator ::
  "coordinator_class \<Rightarrow> group_config list \<Rightarrow> int \<Rightarrow> nat \<Rightarrow> nat \<Rightarrow> bool \<Rightarrow> bool \<Rightarrow> bool \<Rightarrow> nat \<Rightarrow> nat \<Rightarrow> nat \<Rightarrow>
   collector option \<Rightarrow> nat \<Rightarrow> nat option \<Rightarrow> bool \<Rightarrow> bool \<Rightarrow> (byte list list \<Rightarrow> byte list list) \<Rightarrow> coordinator res" where
  "base_coordinator cls gs num_blocks max_len max_in_flight eagle caching events dcp sched_bs hash_bs mc lookahead
      retention zeroing use_int_hashes order =
     (if hash_bs = 0 \<or> list_ex (\<lambda>g. spec_size (group_spec g) = 0) gs then Inl ZeroDivisionError
      else
      bind_res (py_assert (sched_bs mod hash_bs = 0 \<and> list_all (\<lambda>g. sched_bs mod spec_size (group_spec g) = 0) gs)) (\<lambda>_.
      bind_res (new_pool num_blocks caching hash_bs events mc use_int_hashes order) (\<lambda>p.
        let flagged = map fst (filter (\<lambda>(i, g). is_eagle_group g) (zip [0 ..< length gs] gs));
            eagle_ids = (if eagle \<and> flagged = [] then [0 ..< length gs] else flagged)
        in if caching \<and> eagle_ids \<noteq> [] \<and> sched_bs < lookahead then Inl ValueError
           else bind_res (validate_retention retention sched_bs gs) (\<lambda>_.
             Inr \<lparr>coord_class = cls, groups = gs,
                  managers = map (\<lambda>(i, g). get_manager_for_kv_cache_spec (spec_kind (group_spec g)) (spec_size (group_spec g))
                    max_in_flight max_len caching (int i) dcp sched_bs zeroing) (zip [0 ..< length gs] gs),
                  coord_pool = p, coord_block_size = sched_bs, num_reprefillable_tokens = lookahead - 1,
                  eagle_group_ids = eagle_ids, retention_interval = retention, dcp_world_size = dcp,
                  attention_groups = [], enable_partial_hash_hits = False\<rparr>))))"

definition finish_unitary :: "bool \<Rightarrow> coordinator \<Rightarrow> coordinator res" where
  "finish_unitary caching c =
     bind_res (py_assert (\<not> caching \<or> hash_block_size (coord_pool c) = mgr_block_size (managers c ! 0))) (\<lambda>_.
       Inr (c\<lparr>managers := (managers c)[0 := (managers c ! 0)\<lparr>mgr_use_eagle := 0 \<in> set (eagle_group_ids c)\<rparr>]\<rparr>))"

definition finish_hybrid :: "coordinator \<Rightarrow> coordinator res" where
  "finish_hybrid c =
     (let hbs = hash_block_size (coord_pool c); ags = split_groups (groups c) (eagle_group_ids c)
      in bind_res (py_assert (list_all (\<lambda>m. mgr_block_size m mod hbs = 0) (managers c))) (\<lambda>_.
         bind_res (py_assert (dcp_world_size c > 1 \<longrightarrow> list_all (\<lambda>g. is_full_spec (group_spec g)) (groups c))) (\<lambda>_.
         bind_res (py_assert (length ags > 1)) (\<lambda>_.
           Inr (c\<lparr>attention_groups := ags, managers := mark_eagle ags (managers c)\<rparr>)))))"

definition get_kv_cache_coordinator ::
  "group_config list \<Rightarrow> int \<Rightarrow> nat \<Rightarrow> nat \<Rightarrow> bool \<Rightarrow> bool \<Rightarrow> bool \<Rightarrow> nat \<Rightarrow> nat \<Rightarrow> nat \<Rightarrow>
   collector option \<Rightarrow> nat \<Rightarrow> nat option \<Rightarrow> bool \<Rightarrow> bool \<Rightarrow> (byte list list \<Rightarrow> byte list list) \<Rightarrow> coordinator res" where
  "get_kv_cache_coordinator gs num_blocks max_len max_in_flight eagle caching events dcp sched_bs hash_bs mc lookahead
      retention zeroing use_int_hashes order =
     (if \<not> caching then
        base_coordinator NoPrefixCache gs num_blocks max_len max_in_flight eagle False events dcp sched_bs hash_bs mc lookahead
          retention zeroing use_int_hashes order
      else if length gs = 1 then
        bind_res (base_coordinator Unitary gs num_blocks max_len max_in_flight eagle caching events dcp sched_bs hash_bs mc
          lookahead retention zeroing use_int_hashes order) (finish_unitary caching)
      else
        bind_res (base_coordinator Hybrid gs num_blocks max_len max_in_flight eagle caching events dcp sched_bs hash_bs mc
          lookahead retention zeroing use_int_hashes order) finish_hybrid)"

section \<open>Definitions: loops over the managers\<close>

text \<open>A loop over the managers threads the pool and a loop variable.\<close>

fun mgr_loop ::
  "(nat \<Rightarrow> 's \<Rightarrow> manager \<times> block_pool \<Rightarrow> ('s \<times> manager \<times> block_pool) res) \<Rightarrow> nat \<Rightarrow> 's \<Rightarrow> manager list \<Rightarrow> block_pool \<Rightarrow>
   ('s \<times> manager list \<times> block_pool) res" where
  "mgr_loop f i s [] p = Inr (s, [], p)"
| "mgr_loop f i s (m # ms) p =
     bind_res (f i s (m, p)) (\<lambda>(s1, m1, p1).
     bind_res (mgr_loop f (Suc i) s1 ms p1) (\<lambda>(s2, ms2, p2). Inr (s2, m1 # ms2, p2)))"

definition over_managers ::
  "(nat \<Rightarrow> 's \<Rightarrow> manager \<times> block_pool \<Rightarrow> ('s \<times> manager \<times> block_pool) res) \<Rightarrow> 's \<Rightarrow> coordinator \<Rightarrow> ('s \<times> coordinator) res" where
  "over_managers f s c =
     bind_res (mgr_loop f 0 s (managers c) (coord_pool c)) (\<lambda>(s', ms, p). Inr (s', c\<lparr>managers := ms, coord_pool := p\<rparr>))"

definition get_num_blocks_to_allocate ::
  "string \<Rightarrow> nat \<Rightarrow> nat list list \<Rightarrow> nat \<Rightarrow> nat \<Rightarrow> nat \<Rightarrow> bool \<Rightarrow> coordinator \<Rightarrow> nat res" where
  "get_num_blocks_to_allocate rid ntoks new_computed num_encoder num_total num_local apply_cap c =
     fold_res (\<lambda>(i, m) n.
         bind_res (if mgr_kind m = CrossAttention then num_blocks_to_allocate rid num_encoder [] 0 0 apply_cap m (coord_pool c)
                   else num_blocks_to_allocate rid ntoks (new_computed ! i) num_total num_local apply_cap m (coord_pool c))
           (\<lambda>k. Inr (n + k)))
       (zip [0 ..< length (managers c)] (managers c)) 0"

definition allocate_new_computed_blocks ::
  "string \<Rightarrow> nat list list \<Rightarrow> nat \<Rightarrow> nat \<Rightarrow> coordinator \<Rightarrow> coordinator res" where
  "allocate_new_computed_blocks rid new_computed num_local num_external c =
     (if list_ex (\<lambda>m. rid \<in> set (dict_keys (num_cached_block m))) (managers c) then
        bind_res (py_assert (list_all (\<lambda>bs. length bs = 0) new_computed)) (\<lambda>_. Inr c)
      else
        bind_res (over_managers (\<lambda>i _ st.
            bind_res (add_local_computed_blocks rid (new_computed ! i) num_local num_external st) (\<lambda>st'. Inr ((), st'))) () c) (\<lambda>(_, c1).
        if num_external > 0 then
          bind_res (over_managers (\<lambda>i _ st.
            bind_res (allocate_external_computed_blocks rid num_local num_external st) (\<lambda>st'. Inr ((), st'))) () c1) (\<lambda>(_, c2). Inr c2)
        else Inr c1))"

definition allocate_new_blocks :: "string \<Rightarrow> nat \<Rightarrow> nat \<Rightarrow> coordinator \<Rightarrow> (nat list list \<times> coordinator) res" where
  "allocate_new_blocks rid ntoks num_encoder c =
     over_managers (\<lambda>i out st.
       bind_res (mgr_allocate_new_blocks rid (if mgr_kind (fst st) = CrossAttention then num_encoder else ntoks) st)
         (\<lambda>(new, st'). Inr (out @ [new], st'))) [] c"

definition align_cacheable :: "coordinator \<Rightarrow> nat \<Rightarrow> nat" where
  "align_cacheable c n = (if enable_partial_hash_hits c then n else n div coord_block_size c * coord_block_size c)"

definition tokens_to_cache :: "coordinator \<Rightarrow> nat \<Rightarrow> manager \<Rightarrow> nat" where
  "tokens_to_cache c num_computed m =
     (case coord_class c of
        Hybrid \<Rightarrow>
          let aligned = align_cacheable c num_computed
          in if mgr_use_eagle m \<and> aligned > 0 then
               let finalized = num_computed - num_reprefillable_tokens c
               in min finalized (align_cacheable c finalized + mgr_block_size m)
             else aligned
      | _ \<Rightarrow> num_computed - num_reprefillable_tokens c)"

definition coord_cache_blocks ::
  "(byte list \<Rightarrow> byte list) \<Rightarrow> request \<Rightarrow> nat \<Rightarrow> coordinator \<Rightarrow> (request \<times> coordinator) res" where
  "coord_cache_blocks sha256 r num_computed c =
     over_managers (\<lambda>i r st. mgr_cache_blocks sha256 r (tokens_to_cache c num_computed (fst st)) (retention_interval c) st) r c"

definition coord_free :: "string \<Rightarrow> coordinator \<Rightarrow> coordinator res" where
  "coord_free rid c =
     bind_res (over_managers (\<lambda>i _ st. bind_res (mgr_free rid st) (\<lambda>st'. Inr ((), st'))) () c) (\<lambda>(_, c'). Inr c')"

definition coord_pop_blocks_for_free :: "string \<Rightarrow> coordinator \<Rightarrow> nat list \<times> coordinator" where
  "coord_pop_blocks_for_free rid c =
     (concat (map (\<lambda>m. fst (mgr_pop_blocks_for_free rid m)) (managers c)),
      c\<lparr>managers := map (\<lambda>m. snd (mgr_pop_blocks_for_free rid m)) (managers c)\<rparr>)"

definition coord_remove_skipped_blocks :: "string \<Rightarrow> nat \<Rightarrow> nat option \<Rightarrow> coordinator \<Rightarrow> coordinator res" where
  "coord_remove_skipped_blocks rid processed num_prompt c =
     bind_res (over_managers (\<lambda>i _ st. bind_res (mgr_remove_skipped_blocks rid processed num_prompt st) (\<lambda>st'. Inr ((), st'))) () c)
       (\<lambda>(_, c'). Inr c')"

definition get_num_common_prefix_blocks :: "string \<Rightarrow> coordinator \<Rightarrow> nat list \<times> coordinator" where
  "get_num_common_prefix_blocks rid c =
     (if coord_class c = NoPrefixCache then (replicate (length (managers c)) 0, c)
      else (map (\<lambda>m. fst (mgr_num_common_prefix_blocks rid m (coord_pool c))) (managers c),
            c\<lparr>managers := map (\<lambda>m. snd (mgr_num_common_prefix_blocks rid m (coord_pool c))) (managers c)\<rparr>))"

definition coord_get_blocks :: "string \<Rightarrow> coordinator \<Rightarrow> nat list list" where
  "coord_get_blocks rid c = map (blocks_of rid) (managers c)"

section \<open>Definitions: the hit of several groups\<close>

record hybrid_state =
  cur_hit :: int
  longest_hit :: int
  group_hit_blocks :: "nat list option list"
  group_hit_length :: "nat list"
  eagle_verified :: "nat list"

definition cache_hit_alignment :: "coordinator \<Rightarrow> nat" where
  "cache_hit_alignment c =
     (if enable_partial_hash_hits c then hash_block_size (coord_pool c) else coord_block_size c)"

definition fine_grained_kind :: "attn_kind \<Rightarrow> bool" where
  "fine_grained_kind k = (case k of FullAttention \<Rightarrow> True | RSWA _ \<Rightarrow> True | _ \<Rightarrow> False)"

definition eagle_margin :: "coordinator \<Rightarrow> kv_spec \<Rightarrow> nat \<Rightarrow> nat" where
  "eagle_margin c s group_bs =
     (if enable_partial_hash_hits c \<and> fine_grained_kind (spec_kind s) \<and> group_bs > hash_block_size (coord_pool c)
      then hash_block_size (coord_pool c) else group_bs)"

definition store_hits :: "nat list \<Rightarrow> nat list list \<Rightarrow> nat \<Rightarrow> hybrid_state \<Rightarrow> hybrid_state" where
  "store_hits ids hits n st =
     fold (\<lambda>(i, bs) st. st\<lparr>group_hit_blocks := (group_hit_blocks st)[i := Some bs], group_hit_length := (group_hit_length st)[i := n]\<rparr>)
       (zip ids hits) st"

definition hybrid_step ::
  "coordinator \<Rightarrow> byte list list \<Rightarrow> int \<Rightarrow> nat \<times> spec_group \<Rightarrow> hybrid_state \<Rightarrow> hybrid_state res" where
  "hybrid_step c hashes max_hit ig st =
     (case ig of (idx, g) \<Rightarrow>
        let first_id = group_ids g ! 0; s = grp_spec g; group_bs = mgr_block_size (managers c ! first_id)
        in if is_full_spec s \<and> group_hit_blocks st ! first_id \<noteq> None then
             Inr (st\<lparr>cur_hit := min (cur_hit st) (int (group_hit_length st ! first_id))\<rparr>)
           else
             let drop_eagle = grp_use_eagle g \<and> idx \<notin> set (eagle_verified st);
                 max_length = (if drop_eagle then min (cur_hit st + int (eagle_margin c s group_bs)) max_hit else cur_hit st)
             in bind_res (find_longest_cache_hit (spec_kind s) hashes max_length (map int (group_ids g)) (coord_pool c)
                   (spec_size s) drop_eagle (cache_hit_alignment c) (if is_full_spec s then dcp_world_size c else 1)) (\<lambda>(hits, n).
                  let verified = (if drop_eagle then idx # eagle_verified st
                                  else if int n < cur_hit st then [] else eagle_verified st);
                      st1 = store_hits (group_ids g) hits n (st\<lparr>eagle_verified := verified, cur_hit := int n\<rparr>)
                  in Inr (st1\<lparr>longest_hit := max (longest_hit st1) (int n)\<rparr>)))"

definition hybrid_pass :: "coordinator \<Rightarrow> byte list list \<Rightarrow> int \<Rightarrow> hybrid_state \<Rightarrow> hybrid_state res" where
  "hybrid_pass c hashes max_hit st =
     fold_res (hybrid_step c hashes max_hit) (zip [0 ..< length (attention_groups c)] (attention_groups c)) st"

definition is_simple_hybrid :: "coordinator \<Rightarrow> bool" where
  "is_simple_hybrid c \<longleftrightarrow> length (attention_groups c) = 2 \<and> is_full_spec (grp_spec (attention_groups c ! 0))"

lemma store_hits_cur [simp]: "cur_hit (store_hits ids hits n st) = cur_hit st"
proof -
  have "cur_hit (fold (\<lambda>(i, bs) st. st\<lparr>group_hit_blocks := (group_hit_blocks st)[i := Some bs],
      group_hit_length := (group_hit_length st)[i := n]\<rparr>) ps st) = cur_hit st" for ps
    by (induction ps arbitrary: st) (auto split: prod.splits)
  then show ?thesis by (simp add: store_hits_def)
qed

lemma hybrid_step_floor:
  "hybrid_step c hashes max_hit ig st = Inr st' \<Longrightarrow> min (cur_hit st) 0 \<le> cur_hit st'"
  by (auto simp: hybrid_step_def Let_def res_simps split: prod.splits if_splits)

lemma hybrid_pass_floor: "hybrid_pass c hashes max_hit st = Inr st' \<Longrightarrow> min (cur_hit st) 0 \<le> cur_hit st'"
  unfolding hybrid_pass_def
  by (rule fold_res_invariant [where I = "\<lambda>s. min (cur_hit st) 0 \<le> cur_hit s"]) (use hybrid_step_floor in fastforce)+

text \<open>The candidate length shrinks in every round but the last.\<close>

function hybrid_loop :: "coordinator \<Rightarrow> byte list list \<Rightarrow> int \<Rightarrow> hybrid_state \<Rightarrow> (int \<times> hybrid_state) res" where
  "hybrid_loop c hashes max_hit st =
     (let hit = cur_hit st
      in case hybrid_pass c hashes max_hit st of
           Inl e \<Rightarrow> Inl e
         | Inr st1 \<Rightarrow>
             if cur_hit st1 \<ge> hit then Inr (hit, st1)
             else if is_simple_hybrid c then Inr (cur_hit st1, st1)
             else hybrid_loop c hashes max_hit st1)"
  by auto
termination
proof (relation "measure (\<lambda>(c, hashes, max_hit, st). nat (cur_hit st))", simp)
  fix c hashes max_hit st hit st1
  assume "hit = cur_hit st" "hybrid_pass c hashes max_hit st = Inr st1" "\<not> hit \<le> cur_hit st1"
  then show "((c, hashes, max_hit, st1), c, hashes, max_hit, st) \<in> measure (\<lambda>(c, hashes, max_hit, st). nat (cur_hit st))"
    using hybrid_pass_floor [of c hashes max_hit st st1] by auto
qed

declare hybrid_loop.simps [simp del]

definition hybrid_find ::
  "byte list list \<Rightarrow> int \<Rightarrow> coordinator \<Rightarrow> (nat list list \<times> int \<times> int) res" where
  "hybrid_find hashes max_hit c =
     (let n = length (groups c);
          st0 = \<lparr>cur_hit = max_hit, longest_hit = 0, group_hit_blocks = replicate n None, group_hit_length = replicate n 0,
                 eagle_verified = []\<rparr>
      in bind_res (hybrid_loop c hashes max_hit st0) (\<lambda>(hit, st).
           let g = attention_groups c ! 0;
               num = nat (cdiv hit (int (mgr_block_size (managers c ! (group_ids g ! 0)))));
               blocks = (if is_full_spec (grp_spec g) then
                           fold (\<lambda>i l. l[i := map_option (take num) (l ! i)]) (group_ids g) (group_hit_blocks st)
                         else group_hit_blocks st)
           in Inr (map (\<lambda>b. case b of None \<Rightarrow> [] | Some bs \<Rightarrow> bs) blocks, hit, longest_hit st - hit)))"

definition find_longest_cache_hit_per_group ::
  "byte list list \<Rightarrow> int \<Rightarrow> coordinator \<Rightarrow> (nat list list \<times> nat list) res" where
  "find_longest_cache_hit_per_group hashes max_hit c =
     fold_res (\<lambda>g (hits, lens).
         bind_res (find_longest_cache_hit (spec_kind (grp_spec g)) hashes max_hit (map int (group_ids g)) (coord_pool c)
             (spec_size (grp_spec g)) (grp_use_eagle g) (cache_hit_alignment c) 1) (\<lambda>(bss, n).
           Inr (fold (\<lambda>(i, bs) (hits, lens). (hits[i := bs], lens[i := n])) (zip (group_ids g) bss) (hits, lens))))
       (attention_groups c) (replicate (length (groups c)) [], replicate (length (groups c)) 0)"

definition coord_find_longest_cache_hit ::
  "byte list list \<Rightarrow> int \<Rightarrow> coordinator \<Rightarrow> (nat list list \<times> int \<times> int) res" where
  "coord_find_longest_cache_hit hashes max_hit c =
     (case coord_class c of
        NoPrefixCache \<Rightarrow> Inr (replicate (length (managers c)) [], 0, 0)
      | Unitary \<Rightarrow>
          let m = managers c ! 0
          in bind_res (find_longest_cache_hit (mgr_kind m) hashes max_hit [0] (coord_pool c) (spec_block_size m)
                 (0 \<in> set (eagle_group_ids c)) (mgr_block_size m) (dcp_world_size c)) (\<lambda>(hits, n). Inr (hits, int n, 0))
      | Hybrid \<Rightarrow> hybrid_find hashes max_hit c)"

end
