(* ===== verification/KV_Manager.thy ===== *)
theory KV_Manager
  imports Coordinator
begin

text \<open>
  The KV-cache manager the scheduler talks to (\<^verbatim>\<open>vllm/v1/core/kv_cache_manager.py\<close>): lookup of cached blocks, allocation of slots
  for the tokens of a step, release, and the statistics of the prefix cache. A value of \<open>KVCacheBlocks\<close> is its list of
  block lists, one per group; the shared empty value is the one whose lists are all empty, because \<open>create_kv_cache_blocks\<close>
  returns it for every such tuple. The pins of partial tails, which only state-space groups produce, are not modelled.
\<close>

section \<open>Definitions\<close>

record prefix_cache_stats =
  stats_reset :: bool
  stats_requests :: nat
  stats_queries :: nat
  stats_hits :: nat
  preempted_requests :: nat
  preempted_queries :: nat
  preempted_hits :: nat

record kv_manager =
  coord :: coordinator
  max_model_len :: nat
  kv_caching :: bool
  watermark_blocks :: nat
  log_stats :: bool
  prefix_stats :: "prefix_cache_stats option"

definition new_stats :: prefix_cache_stats where
  "new_stats = \<lparr>stats_reset = False, stats_requests = 0, stats_queries = 0, stats_hits = 0, preempted_requests = 0,
     preempted_queries = 0, preempted_hits = 0\<rparr>"

definition record_stats :: "nat \<Rightarrow> nat \<Rightarrow> bool \<Rightarrow> prefix_cache_stats \<Rightarrow> prefix_cache_stats" where
  "record_stats queries hits preempted s =
     (if preempted then
        s\<lparr>preempted_requests := preempted_requests s + 1, preempted_queries := preempted_queries s + queries,
          preempted_hits := preempted_hits s + hits\<rparr>
      else s\<lparr>stats_requests := stats_requests s + 1, stats_queries := stats_queries s + queries, stats_hits := stats_hits s + hits\<rparr>)"

definition new_kv_manager ::
  "group_config list \<Rightarrow> int \<Rightarrow> nat \<Rightarrow> nat \<Rightarrow> nat \<Rightarrow> nat option \<Rightarrow> bool \<Rightarrow> bool \<Rightarrow> nat \<Rightarrow> bool \<Rightarrow> bool \<Rightarrow> nat \<Rightarrow>
   collector option \<Rightarrow> rat \<Rightarrow> nat option \<Rightarrow> bool \<Rightarrow> bool \<Rightarrow> (byte list list \<Rightarrow> byte list list) \<Rightarrow> kv_manager res" where
  "new_kv_manager gs num_blocks max_len sched_bs hash_bs max_in_flight caching eagle lookahead with_stats events dcp mc watermark
      retention zeroing use_int_hashes order =
     bind_res (get_kv_cache_coordinator gs num_blocks max_len (case max_in_flight of None \<Rightarrow> max_len | Some n \<Rightarrow> n) eagle caching
         events dcp sched_bs hash_bs mc lookahead retention zeroing use_int_hashes order) (\<lambda>c.
     bind_res (py_assert (watermark \<ge> 0)) (\<lambda>_.
       Inr \<lparr>coord = c, max_model_len = max_len, kv_caching = caching,
            watermark_blocks = nat \<lfloor>watermark * of_int num_blocks\<rfloor>, log_stats = with_stats,
            prefix_stats = (if with_stats then Some new_stats else None)\<rparr>))"

definition kv_usage :: "kv_manager \<Rightarrow> rat" where
  "kv_usage k = get_usage (coord_pool (coord k))"

definition make_prefix_cache_stats :: "kv_manager \<Rightarrow> prefix_cache_stats option \<times> kv_manager" where
  "make_prefix_cache_stats k = (if \<not> log_stats k then (None, k) else (prefix_stats k, k\<lparr>prefix_stats := Some new_stats\<rparr>))"

definition prefix_cache_lookup_enabled :: "request \<Rightarrow> kv_manager \<Rightarrow> bool" where
  "prefix_cache_lookup_enabled r k \<longleftrightarrow> kv_caching k \<and> \<not> skip_reading_prefix_cache r"

definition record_prefix_cache_stats :: "request \<Rightarrow> nat \<Rightarrow> kv_manager \<Rightarrow> kv_manager res" where
  "record_prefix_cache_stats r num_hits k =
     (if \<not> log_stats k \<or> \<not> prefix_cache_lookup_enabled r k then Inr k
      else case prefix_stats k of
             None \<Rightarrow> Inl AssertionError
           | Some s \<Rightarrow> Inr (k\<lparr>prefix_stats := Some (record_stats (num_tokens r) num_hits (num_preemptions r > 0) s)\<rparr>))"

definition add_blocks :: "nat list list \<Rightarrow> nat list list \<Rightarrow> nat list list" where
  "add_blocks bss css = map (\<lambda>(bs, cs). bs @ cs) (zip bss css)"

definition get_block_ids :: "bool \<Rightarrow> nat list list \<Rightarrow> nat list list option" where
  "get_block_ids allow_none bss = (if allow_none \<and> list_all (\<lambda>bs. length bs = 0) bss then None else Some bss)"

definition get_unhashed_block_ids :: "nat list list \<Rightarrow> block_pool \<Rightarrow> nat list res" where
  "get_unhashed_block_ids bss p =
     bind_res (py_assert (length bss = 1)) (\<lambda>_. Inr (filter (\<lambda>b. block_hash (block_at p b) = None) (bss ! 0)))"

definition get_unhashed_block_ids_all_groups :: "nat list list \<Rightarrow> block_pool \<Rightarrow> nat list list" where
  "get_unhashed_block_ids_all_groups bss p =
     map (filter (\<lambda>b. block_hash (block_at p b) = None \<and> \<not> is_null (block_at p b))) bss"

definition is_empty_blocks :: "nat list list \<Rightarrow> bool" where
  "is_empty_blocks bss = list_all (\<lambda>bs. bs = []) bss"

definition emit_reused ::
  "(byte list \<Rightarrow> byte list) \<Rightarrow> nat list list \<Rightarrow> request \<Rightarrow> coordinator \<Rightarrow> (request \<times> coordinator) res" where
  "emit_reused sha256 computed r c =
     fold_res (\<lambda>(i, bs) (r, c).
         if bs = [] then Inr (r, c)
         else bind_res (emit_cached_block_events sha256 r (length bs) (spec_size (group_spec (groups c ! i))) (int i) (coord_pool c))
                (\<lambda>(r', p). Inr (r', c\<lparr>coord_pool := p\<rparr>)))
       (zip [0 ..< length computed] computed) (r, c)"

definition get_computed_blocks ::
  "(byte list \<Rightarrow> byte list) \<Rightarrow> request \<Rightarrow> kv_manager \<Rightarrow> (nat list list \<times> int \<times> int \<times> request \<times> kv_manager) res" where
  "get_computed_blocks sha256 r k =
     (if \<not> prefix_cache_lookup_enabled r k then Inr (replicate (length (managers (coord k))) [], 0, 0, r, k)
      else
        bind_res (coord_find_longest_cache_hit (block_hashes r) (int (num_tokens r) - 1) (coord k)) (\<lambda>(computed, n, uncached).
        bind_res (if n > 0 \<and> enable_events (coord_pool (coord k)) \<and> kv_cache_report_mode r = ''full''
                  then emit_reused sha256 computed r (coord k) else Inr (r, coord k)) (\<lambda>(r', c).
          Inr (computed, n, if uncached \<noteq> 0 then n + uncached else 0, r', k\<lparr>coord := c\<rparr>))))"

definition needs_watermark :: "request \<Rightarrow> bool \<Rightarrow> bool" where
  "needs_watermark r has_scheduled \<longleftrightarrow> has_scheduled \<and> (status r = WAITING \<or> status r = PREEMPTED)"

text \<open>The admission gate: the whole sequence must fit.\<close>

definition full_sequence_fits ::
  "request \<Rightarrow> nat list list \<Rightarrow> nat \<Rightarrow> nat \<Rightarrow> nat \<Rightarrow> nat \<Rightarrow> kv_manager \<Rightarrow> bool res" where
  "full_sequence_fits r computed num_encoder num_total num_local watermark k =
     bind_res (get_num_blocks_to_allocate (request_id r) (min (num_tokens r) (max_model_len k)) computed num_encoder
       num_total num_local True (coord k)) (\<lambda>n. Inr (int (n + watermark) \<le> get_num_free_blocks (coord_pool (coord k))))"

text \<open>The allocation once the free blocks suffice.\<close>

definition take_slots ::
  "(byte list \<Rightarrow> byte list) \<Rightarrow> request \<Rightarrow> nat list list \<Rightarrow> nat \<Rightarrow> nat \<Rightarrow> nat \<Rightarrow> nat \<Rightarrow> nat \<Rightarrow> bool \<Rightarrow> bool \<Rightarrow> coordinator \<Rightarrow>
   (nat list list \<times> request \<times> coordinator) res" where
  "take_slots sha256 r computed num_local num_external need_slot num_encoder to_cache delay caching c =
     bind_res (if \<not> is_empty_blocks computed \<or> num_external > 0
               then allocate_new_computed_blocks (request_id r) computed num_local num_external c else Inr c) (\<lambda>c1.
     bind_res (allocate_new_blocks (request_id r) need_slot num_encoder c1) (\<lambda>(new, c2).
       if \<not> caching \<or> delay then Inr (new, r, c2)
       else bind_res (coord_cache_blocks sha256 r to_cache c2) (\<lambda>(r', c3). Inr (new, r', c3))))"

definition allocate_slots ::
  "(byte list \<Rightarrow> byte list) \<Rightarrow> request \<Rightarrow> nat \<Rightarrow> nat \<Rightarrow> nat list list option \<Rightarrow> nat \<Rightarrow> nat \<Rightarrow> bool \<Rightarrow> nat \<Rightarrow> bool \<Rightarrow> nat \<Rightarrow> bool \<Rightarrow>
   kv_manager \<Rightarrow> (nat list list option \<times> request \<times> kv_manager) res" where
  "allocate_slots sha256 r num_new num_new_computed new_computed num_lookahead num_external delay num_encoder
      full_must_fit reserved has_scheduled k =
     (if num_new = 0 \<and> num_external = 0 then Inl ValueError
      else
        let computed = (case new_computed of None \<Rightarrow> replicate (length (managers (coord k))) [] | Some bss \<Rightarrow> bss);
            num_local = num_computed_tokens r + num_new_computed;
            num_total = min (num_local + num_external) (max_model_len k);
            watermark = (if needs_watermark r has_scheduled then watermark_blocks k else 0)
        in bind_res (if full_must_fit then full_sequence_fits r computed num_encoder num_total num_local watermark k else Inr True) (\<lambda>fits.
           if \<not> fits then Inr (None, r, k)
           else
             let need_slot = min (num_total + num_new + num_lookahead) (max_model_len k)
             in bind_res (coord_remove_skipped_blocks (request_id r) (num_total - num_in_flight_tokens r)
                    (Some (num_prompt_tokens r)) (coord k)) (\<lambda>c1.
                bind_res (get_num_blocks_to_allocate (request_id r) need_slot computed num_encoder (num_local + num_external)
                    num_local False c1) (\<lambda>n.
                if int (n + watermark) > get_num_free_blocks (coord_pool c1) - int reserved then Inr (None, r, k\<lparr>coord := c1\<rparr>)
                else bind_res (take_slots sha256 r computed num_local num_external need_slot num_encoder
                         (min (num_total + num_new) (num_tokens r)) delay (kv_caching k) c1) (\<lambda>(new, r', c2).
                       Inr (Some new, r', k\<lparr>coord := c2\<rparr>))))))"

definition free_request :: "request \<Rightarrow> kv_manager \<Rightarrow> kv_manager res" where
  "free_request r k = bind_res (coord_free (request_id r) (coord k)) (\<lambda>c. Inr (k\<lparr>coord := c\<rparr>))"

definition remove_skipped_blocks :: "string \<Rightarrow> nat \<Rightarrow> nat option \<Rightarrow> kv_manager \<Rightarrow> kv_manager res" where
  "remove_skipped_blocks rid processed num_prompt k =
     bind_res (coord_remove_skipped_blocks rid processed num_prompt (coord k)) (\<lambda>c. Inr (k\<lparr>coord := c\<rparr>))"

definition pop_blocks_for_free :: "request \<Rightarrow> kv_manager \<Rightarrow> nat list \<times> kv_manager" where
  "pop_blocks_for_free r k = (case coord_pop_blocks_for_free (request_id r) (coord k) of (bs, c) \<Rightarrow> (bs, k\<lparr>coord := c\<rparr>))"

definition kv_evict_blocks :: "nat list \<Rightarrow> kv_manager \<Rightarrow> kv_manager res" where
  "kv_evict_blocks ids k =
     bind_res (evict_blocks ids (coord_pool (coord k))) (\<lambda>p. Inr (k\<lparr>coord := (coord k)\<lparr>coord_pool := p\<rparr>\<rparr>))"

definition kv_reset_prefix_cache :: "kv_manager \<Rightarrow> (bool \<times> kv_manager) res" where
  "kv_reset_prefix_cache k =
     (case reset_prefix_cache (coord_pool (coord k)) of (ok, p) \<Rightarrow>
        let k1 = k\<lparr>coord := (coord k)\<lparr>coord_pool := p\<rparr>\<rparr>
        in if \<not> ok then Inr (False, k1)
           else if log_stats k then
             (case prefix_stats k of
                None \<Rightarrow> Inl AssertionError
              | Some s \<Rightarrow> Inr (True, k1\<lparr>prefix_stats := Some (s\<lparr>stats_reset := True\<rparr>)\<rparr>))
           else Inr (True, k1))"

definition get_blocks :: "string \<Rightarrow> kv_manager \<Rightarrow> nat list list" where
  "get_blocks rid k = coord_get_blocks rid (coord k)"

definition get_block_ids_for_computed_tokens :: "string \<Rightarrow> nat \<Rightarrow> kv_manager \<Rightarrow> nat list list" where
  "get_block_ids_for_computed_tokens rid num_computed k =
     map (\<lambda>(g, ids). if spec_kind (group_spec g) = CrossAttention then ids
                     else take (blocks_for num_computed (spec_size (group_spec g))) ids)
       (zip (groups (coord k)) (get_blocks rid k))"

definition estimate_cached_tokens :: "request \<Rightarrow> kv_manager \<Rightarrow> int" where
  "estimate_cached_tokens r k =
     (let p = coord_pool (coord k);
          per_group = map (\<lambda>(g, bs). fold (\<lambda>b n. max n (case block_hash_num_tokens (block_at p b) of None \<Rightarrow> 0 | Some t \<Rightarrow> t)) bs 0)
            (filter (\<lambda>(g, bs). spec_kind (group_spec g) \<noteq> CrossAttention) (zip (groups (coord k)) (get_blocks (request_id r) k)))
      in case per_group of [] \<Rightarrow> 0 | n # ns \<Rightarrow> fold min ns n)"

definition kv_cache_blocks ::
  "(byte list \<Rightarrow> byte list) \<Rightarrow> request \<Rightarrow> nat \<Rightarrow> kv_manager \<Rightarrow> (request \<times> kv_manager) res" where
  "kv_cache_blocks sha256 r num_computed k =
     (if kv_caching k then bind_res (coord_cache_blocks sha256 r num_computed (coord k)) (\<lambda>(r', c). Inr (r', k\<lparr>coord := c\<rparr>))
      else Inr (r, k))"

definition truncate_computed_blocks :: "nat list list \<Rightarrow> nat \<Rightarrow> kv_manager \<Rightarrow> nat list list res" where
  "truncate_computed_blocks bss num_computed k =
     (if length bss \<noteq> length (managers (coord k)) then Inl ValueError
      else map_res (\<lambda>(bs, m).
             bind_res (py_assert (num_computed mod mgr_block_size m = 0)) (\<lambda>_.
               let n = num_computed div mgr_block_size m
               in bind_res (py_assert (n \<le> length bs)) (\<lambda>_. Inr (take n bs)))) (zip bss (managers (coord k))))"

definition kv_take_new_block_ids :: "kv_manager \<Rightarrow> nat list \<times> kv_manager" where
  "kv_take_new_block_ids k =
     (concat (map (\<lambda>m. fst (take_new_block_ids m)) (managers (coord k))),
      k\<lparr>coord := (coord k)\<lparr>managers := map (\<lambda>m. snd (take_new_block_ids m)) (managers (coord k))\<rparr>\<rparr>)"

definition get_zeroing_block_ids_in_range :: "string \<Rightarrow> nat \<Rightarrow> nat \<Rightarrow> kv_manager \<Rightarrow> nat list \<times> kv_manager" where
  "get_zeroing_block_ids_in_range rid start_token end_token k =
     (concat (map (\<lambda>m. if record_new_block_ids m then
         py_slice (blocks_of rid m) (start_token div mgr_block_size m) (blocks_for end_token (mgr_block_size m)) else []) (managers (coord k))),
      k\<lparr>coord := (coord k)\<lparr>managers :=
        map (\<lambda>m. if record_new_block_ids m then set_blocks rid (blocks_of rid m) m else m) (managers (coord k))\<rparr>\<rparr>)"

definition record_blocks_for_zeroing :: "string \<Rightarrow> nat \<Rightarrow> kv_manager \<Rightarrow> kv_manager res" where
  "record_blocks_for_zeroing rid start_token k =
     bind_res (map_res (\<lambda>m.
         if record_new_block_ids m then
           bind_res (py_assert (start_token mod mgr_block_size m = 0)) (\<lambda>_.
             Inr ((set_blocks rid (blocks_of rid m) m)\<lparr>new_block_ids :=
               new_block_ids m @ drop (start_token div mgr_block_size m) (blocks_of rid m)\<rparr>))
         else Inr m) (managers (coord k)))
       (\<lambda>ms. Inr (k\<lparr>coord := (coord k)\<lparr>managers := ms\<rparr>\<rparr>))"

definition take_kv_cache_block_copies :: "kv_manager \<Rightarrow> (nat \<times> nat) list \<times> nat list \<times> kv_manager" where
  "take_kv_cache_block_copies k =
     (let pairs = concat (map (\<lambda>m. fst (take_pending_cow_copies m)) (managers (coord k)))
      in (pairs, concat (map (\<lambda>(a, b). [a, b]) pairs),
          k\<lparr>coord := (coord k)\<lparr>managers := map (\<lambda>m. snd (take_pending_cow_copies m)) (managers (coord k))\<rparr>\<rparr>))"

end
