(* ===== verification/KV_Refs.thy ===== *)
theory KV_Refs
  imports KV_Manager
begin

text \<open>
  Reference counting of the managers: every operation of a manager changes the reference counts of the pool by exactly what it
  changes in the manager's block tables, and takes no more free blocks than were predicted.
\<close>

section \<open>The pool as the managers see it\<close>

definition pool_ok :: "block_pool \<Rightarrow> bool" where
  "pool_ok p \<longleftrightarrow> index_ok p \<and> (\<exists>free. refs_ok p free {})"

definition nfree :: "block_pool \<Rightarrow> nat" where
  "nfree p = nat (get_num_free_blocks p)"

abbreviation refs :: "block_pool \<Rightarrow> nat \<Rightarrow> int" where
  "refs p b \<equiv> ref_cnt (block_at p b)"

lemma refs_ok_length:
  assumes "refs_ok p free L"
  shows "get_num_free_blocks p = int (length free)" "distinct free" "nfree p = length free"
  using assms by (auto simp: refs_ok_def represents_def spells_def get_num_free_blocks_def nfree_def)

lemma pool_okE:
  assumes "pool_ok p"
  obtains free where "index_ok p" "refs_ok p free {}" "nfree p = length free" "distinct free"
  using assms refs_ok_length unfolding pool_ok_def by blast

lemma pool_ok_block:
  assumes "pool_ok p" "b < num_gpu_blocks p"
  shows "is_null (block_at p b) \<longleftrightarrow> b = 0" "b \<noteq> 0 \<Longrightarrow> 0 \<le> refs p b"
  using assms refs_block unfolding pool_ok_def by blast+

lemma pool_ok_free: "pool_ok p \<Longrightarrow> get_num_free_blocks p = int (nfree p)"
  using refs_ok_length unfolding pool_ok_def by metis

text \<open>\<open>quiet p q\<close>: no key is added and nothing constant changes.\<close>

definition quiet :: "block_pool \<Rightarrow> block_pool \<Rightarrow> bool" where
  "quiet p q \<longleftrightarrow> pool_ok q \<and> same_consts p q \<and> (\<forall>b. keys_of q b \<subseteq> keys_of p b)"

lemma quiet_refl: "pool_ok p \<Longrightarrow> quiet p p"
  by (simp add: quiet_def same_consts_def)

lemma quiet_trans: "quiet p q \<Longrightarrow> quiet q r \<Longrightarrow> quiet p r"
  unfolding quiet_def same_consts_def by (metis (no_types, lifting) subset_trans)

lemma quiet_key_op: "key_op p q {} \<Longrightarrow> refs_ok q free {} \<Longrightarrow> quiet p q"
  unfolding quiet_def key_op_def pool_ok_def by (simp del: split_paired_All split_paired_Ex) blast

lemma quietD: "quiet p q \<Longrightarrow> pool_ok q" "quiet p q \<Longrightarrow> num_gpu_blocks q = num_gpu_blocks p"
    "quiet p q \<Longrightarrow> hash_block_size q = hash_block_size p" "quiet p q \<Longrightarrow> enable_caching q = enable_caching p"
    "quiet p q \<Longrightarrow> keys_of p b = {} \<Longrightarrow> keys_of q b = {}"
  by (auto simp: quiet_def same_consts_def)

lemma count_list_distinct: "distinct xs \<Longrightarrow> count_list xs x = (if x \<in> set xs then 1 else 0)"
  by (induction xs) auto

lemma new_blocks_ok:
  assumes "pool_ok p" "n \<le> nfree p"
  shows "\<exists>bs q. get_new_blocks n p = Inr (bs, q) \<and> quiet p q \<and> nfree q = nfree p - n \<and> length bs = n \<and> distinct bs \<and>
    set bs \<subseteq> {1 ..< num_gpu_blocks p} \<and> (\<forall>b \<in> set bs. refs p b = 0 \<and> keys_of q b = {}) \<and>
    (\<forall>c. refs q c = refs p c + int (count_list bs c))"
proof -
  obtain free where f: "index_ok p" "refs_ok p free {}" "nfree p = length free" "distinct free"
    using assms(1) by (rule pool_okE)
  define ys zs where "ys = take n free" and "zs = drop n free"
  have split: "free = ys @ zs" "length ys = n" using assms(2) f(3) by (simp_all add: ys_def zs_def)
  obtain q where q: "get_new_blocks n p = Inr (ys, q)" "key_op p q {}" "refs_ok q zs {}" "\<forall>b \<in> set ys. keys_of q b = {}"
    "\<forall>c. refs q c = refs p c + (if c \<in> set ys then 1 else 0)"
    using get_new_blocks_op [of p ys zs] f(1,2) split by auto
  have d: "distinct ys" using f(4) split(1) by simp
  have c: "int (count_list ys c) = (if c \<in> set ys then 1 else 0)" for c
    using d by (simp add: count_list_distinct)
  have z: "\<forall>b \<in> set ys. refs p b = 0" "set ys \<subseteq> {1 ..< num_gpu_blocks p}"
    using f(2) split(1) by (auto simp: refs_ok_def)
  show ?thesis
    using q quiet_key_op [OF q(2,3)] refs_ok_length(3) [OF q(3)] f(3) split d c z
    by (intro exI [of _ ys] exI [of _ q]) simp
qed

lemma filter_removed_length:
  assumes "distinct xs"
  shows "length xs \<le> length (filter (\<lambda>x. x \<notin> set bs) xs) + length (filter (\<lambda>b. b \<in> set xs) bs)"
proof -
  have "length (filter (\<lambda>x. x \<in> set bs) xs) = card (set xs \<inter> set bs)"
    using assms by (metis distinct_card distinct_filter inter_set_filter inf_commute)
  also have "\<dots> \<le> card (set (filter (\<lambda>b. b \<in> set xs) bs))" by (intro card_mono) auto
  also have "\<dots> \<le> length (filter (\<lambda>b. b \<in> set xs) bs)" by (rule card_length)
  finally show ?thesis using sum_length_filter_compl [of "\<lambda>x. x \<in> set bs" xs] by simp
qed

lemma touch_ok:
  assumes "pool_ok p" "\<forall>b \<in> set bs. b < num_gpu_blocks p"
  shows "\<exists>q. touch bs p = Inr q \<and> quiet p q \<and> nfree p \<le> nfree q + get_num_evictable_blocks p bs \<and> (\<forall>c. keys_of q c = keys_of p c) \<and>
    (\<forall>c. refs q c = refs p c + int (count_list bs c))"
proof -
  obtain free where f: "index_ok p" "refs_ok p free {}" "nfree p = length free" "distinct free"
    using assms(1) by (rule pool_okE)
  obtain q where q: "touch bs p = Inr q" "key_op p q {}" "refs_ok q (filter (\<lambda>x. x \<notin> set bs) free) {}"
    "\<forall>c. keys_of q c = keys_of p c" "\<forall>c. refs q c = refs p c + int (count_list bs c)"
    using touch_op [OF f(1,2) assms(2)] by blast
  have "filter (\<lambda>b. b \<in> set free) bs = filter (\<lambda>b. refs p b = 0 \<and> \<not> is_null (block_at p b)) bs"
  proof (rule filter_cong [OF refl])
    fix b assume "b \<in> set bs"
    then have "b < num_gpu_blocks p" using assms(2) by simp
    then show "b \<in> set free \<longleftrightarrow> refs p b = 0 \<and> \<not> is_null (block_at p b)"
      using f(2) by (auto simp: refs_ok_def)
  qed
  then have "nfree p \<le> nfree q + get_num_evictable_blocks p bs"
    using filter_removed_length [OF f(4), of bs] refs_ok_length(3) [OF q(3)] f(3)
    by (simp add: get_num_evictable_blocks_def)
  then show ?thesis using q quiet_key_op [OF q(2,3)] by blast
qed

lemma free_ok:
  assumes "pool_ok p" "freeable p bs"
  shows "\<exists>q. free_blocks bs p = Inr q \<and> quiet p q \<and> nfree p \<le> nfree q \<and> (\<forall>c. keys_of q c = keys_of p c) \<and>
    (\<forall>c. refs q c = refs p c - int (count_list bs c))"
proof -
  obtain free where f: "index_ok p" "refs_ok p free {}" "nfree p = length free" using assms(1) by (rule pool_okE)
  define free' where "free' = filter (evict_soon p) (released (\<lambda>b. refs p b) bs) @ free @
    filter (\<lambda>b. \<not> evict_soon p b) (released (\<lambda>b. refs p b) bs)"
  obtain q where q: "free_blocks bs p = Inr q" "key_op p q {}" "refs_ok q free' {}" "\<forall>c. keys_of q c = keys_of p c"
    "\<forall>c. refs q c = refs p c - int (count_list bs c)"
    using free_blocks_op [OF f(1,2) assms(2)] unfolding free'_def by blast
  have "nfree p \<le> nfree q" using refs_ok_length(3) [OF q(3)] f(3) by (simp add: free'_def)
  then show ?thesis using q quiet_key_op [OF q(2,3)] by blast
qed

lemma bump_ok:
  assumes "pool_ok p" "0 < b" "b < num_gpu_blocks p" "0 < refs p b"
  defines "q \<equiv> upd_block b (\<lambda>blk. blk\<lparr>ref_cnt := ref_cnt blk + 1\<rparr>) p"
  shows "quiet p q" "nfree q = nfree p" "refs q c = refs p c + (if c = b then 1 else 0)" "keys_of q c = keys_of p c"
proof -
  obtain free where f: "index_ok p" "refs_ok p free {}" "nfree p = length free" using assms(1) by (rule pool_okE)
  have nf: "b \<notin> set free" using refs_block(3) [OF f(2) assms(3)] assms(2,4) by auto
  have fr: "ref_frame p q" unfolding q_def by (rule upd_ref_frame) simp
  have rf: "refs_ok q free {}" unfolding q_def
    by (rule refs_ok_upd [OF f(2)]) (use nf assms(4) in \<open>auto simp: links_def\<close>)
  show "quiet p q" using quiet_key_op [OF key_op_ref [OF f(1) fr] rf] .
  show "nfree q = nfree p" using refs_ok_length(3) [OF rf] f(3) by simp
  show "refs q c = refs p c + (if c = b then 1 else 0)" by (simp add: q_def)
  show "keys_of q c = keys_of p c" using keys_of_frame [OF fr] .
qed

section \<open>References held by a manager\<close>

definition list_refs :: "manager \<Rightarrow> nat \<Rightarrow> nat" where
  "list_refs m b = (\<Sum>(rid, bs) \<leftarrow> req_to_blocks m. count_list bs b)"

definition cow_refs :: "manager \<Rightarrow> nat \<Rightarrow> nat" where
  "cow_refs m b = count_list (concat (map (\<lambda>(x, y). [x, y]) (pending_cow_copies m))) b"

definition mgr_refs :: "manager \<Rightarrow> nat \<Rightarrow> nat" where
  "mgr_refs m b = list_refs m b + cow_refs m b"

fun kind_ok :: "attn_kind \<Rightarrow> bool" where
  "kind_ok (SlidingWindow w extra) = (0 < w)"
| "kind_ok (ChunkedLocal c) = (0 < c)"
| "kind_ok _ = True"

definition cached_upto :: "string \<Rightarrow> manager \<Rightarrow> nat" where
  "cached_upto rid m = (case dict_get (num_cached_block m) rid of None \<Rightarrow> 0 | Some n \<Rightarrow> n)"

definition partial_ok :: "manager \<Rightarrow> bool" where
  "partial_ok m \<longleftrightarrow> (\<forall>rid idx src. dict_get (partial_hit_reqs m) rid = Some (idx, src) \<longrightarrow>
     idx < length (blocks_of rid m) \<and> blocks_of rid m ! idx = src \<and> src \<noteq> 0 \<and> cached_upto rid m = idx)"

definition mgr_ok :: "block_pool \<Rightarrow> manager \<Rightarrow> bool" where
  "mgr_ok p m \<longleftrightarrow> dict_ok (req_to_blocks m) \<and> dict_ok (num_cached_block m) \<and> dict_ok (partial_hit_reqs m) \<and>
     0 < mgr_block_size m \<and> kind_ok (mgr_kind m) \<and> mgr_caching m = enable_caching p \<and> partial_ok m \<and>
     (\<forall>rid. \<forall>b \<in> set (blocks_of rid m). b < num_gpu_blocks p)"

definition same_config :: "manager \<Rightarrow> manager \<Rightarrow> bool" where
  "same_config m m' \<longleftrightarrow> mgr_kind m' = mgr_kind m \<and> spec_block_size m' = spec_block_size m \<and> mgr_block_size m' = mgr_block_size m \<and>
     scheduler_block_size m' = scheduler_block_size m \<and> mgr_caching m' = mgr_caching m \<and>
     max_admission_blocks m' = max_admission_blocks m \<and> kv_cache_group_id m' = kv_cache_group_id m \<and>
     mgr_use_eagle m' = mgr_use_eagle m"

lemma same_config_refl: "same_config m m"
  by (simp add: same_config_def)

lemma same_config_trans: "same_config m m' \<Longrightarrow> same_config m' m'' \<Longrightarrow> same_config m m''"
  by (simp add: same_config_def)

lemma same_config_eq:
  assumes "same_config m m'"
  shows "mgr_kind m' = mgr_kind m" "mgr_block_size m' = mgr_block_size m" "mgr_caching m' = mgr_caching m"
  using assms by (simp_all add: same_config_def)

lemma mgr_okD:
  assumes "mgr_ok p m"
  shows "dict_ok (req_to_blocks m)" "dict_ok (num_cached_block m)" "dict_ok (partial_hit_reqs m)" "0 < mgr_block_size m"
    "kind_ok (mgr_kind m)" "mgr_caching m = enable_caching p" "partial_ok m" "b \<in> set (blocks_of rid m) \<Longrightarrow> b < num_gpu_blocks p"
  using assms by (auto simp: mgr_ok_def)

lemma blocks_of_set [simp]: "blocks_of x (set_blocks rid bs m) = (if x = rid then bs else blocks_of x m)"
  by (simp add: blocks_of_def set_blocks_def update_conv' fun_upd_def)

lemma set_blocks_sel [simp]:
  "mgr_kind (set_blocks rid bs m) = mgr_kind m" "mgr_block_size (set_blocks rid bs m) = mgr_block_size m"
  "num_cached_block (set_blocks rid bs m) = num_cached_block m" "partial_hit_reqs (set_blocks rid bs m) = partial_hit_reqs m"
  "pending_cow_copies (set_blocks rid bs m) = pending_cow_copies m" "mgr_caching (set_blocks rid bs m) = mgr_caching m"
  "new_block_ids (set_blocks rid bs m) = new_block_ids m" "record_new_block_ids (set_blocks rid bs m) = record_new_block_ids m"
  "spec_block_size (set_blocks rid bs m) = spec_block_size m" "scheduler_block_size (set_blocks rid bs m) = scheduler_block_size m"
  "max_admission_blocks (set_blocks rid bs m) = max_admission_blocks m" "kv_cache_group_id (set_blocks rid bs m) = kv_cache_group_id m"
  "mgr_use_eagle (set_blocks rid bs m) = mgr_use_eagle m"
  by (simp_all add: set_blocks_def)

lemma blocks_of_cong: "req_to_blocks m' = req_to_blocks m \<Longrightarrow> blocks_of x m' = blocks_of x m"
  by (simp add: blocks_of_def)

lemma note_new_sel [simp]:
  "req_to_blocks (note_new_blocks bs m) = req_to_blocks m" "mgr_kind (note_new_blocks bs m) = mgr_kind m"
  "num_cached_block (note_new_blocks bs m) = num_cached_block m" "partial_hit_reqs (note_new_blocks bs m) = partial_hit_reqs m"
  "pending_cow_copies (note_new_blocks bs m) = pending_cow_copies m" "mgr_block_size (note_new_blocks bs m) = mgr_block_size m"
  "mgr_caching (note_new_blocks bs m) = mgr_caching m" "blocks_of x (note_new_blocks bs m) = blocks_of x m"
  by (simp_all add: note_new_blocks_def blocks_of_def)

lemma note_new_config: "same_config m (note_new_blocks bs m)"
  by (simp add: note_new_blocks_def same_config_def)

lemma set_blocks_config: "same_config m (set_blocks rid bs m)"
  by (simp add: same_config_def)

lemma count_update:
  "distinct (map fst d) \<Longrightarrow> (\<Sum>(k, bs) \<leftarrow> AList.update rid bs d. count_list bs b) + count_list (case map_of d rid of None \<Rightarrow> [] | Some l \<Rightarrow> l) b =
     (\<Sum>(k, bs) \<leftarrow> d. count_list bs b) + count_list bs b"
  by (induction d) (auto simp: map_of_eq_None_iff [THEN iffD2] split: if_splits)

lemma list_refs_set:
  assumes "dict_ok (req_to_blocks m)"
  shows "list_refs (set_blocks rid bs m) b + count_list (blocks_of rid m) b = list_refs m b + count_list bs b"
  using count_update [OF assms, where rid = rid and bs = bs and b = b] by (simp add: list_refs_def set_blocks_def blocks_of_def)

lemma count_delete:
  "distinct (map fst d) \<Longrightarrow> (\<Sum>(k, bs) \<leftarrow> AList.delete rid d. count_list bs b) + count_list (case map_of d rid of None \<Rightarrow> [] | Some l \<Rightarrow> l) b =
     (\<Sum>(k, bs) \<leftarrow> d. count_list bs b)"
proof (induction d)
  case (Cons x d)
  obtain k bs where x: "x = (k, bs)" by fastforce
  show ?case
  proof (cases "k = rid")
    case True
    then have "rid \<notin> fst ` set d" using Cons.prems x by auto
    then have "AList.delete rid d = d" "map_of d rid = None" by (simp_all add: delete_idem map_of_eq_None_iff)
    then show ?thesis using True x Cons.prems by simp
  qed (use x Cons in simp)
qed simp

lemma list_refs_mem:
  assumes "b \<in> set (blocks_of rid m)"
  shows "count_list (blocks_of rid m) b \<le> list_refs m b"
proof -
  obtain bs where bs: "map_of (req_to_blocks m) rid = Some bs" "blocks_of rid m = bs"
    using assms by (cases "map_of (req_to_blocks m) rid") (auto simp: blocks_of_def)
  then have "(rid, bs) \<in> set (req_to_blocks m)" by (simp add: map_of_SomeD)
  then have "count_list bs b \<in> set (map (\<lambda>(rid, bs). count_list bs b) (req_to_blocks m))" by force
  then show ?thesis unfolding list_refs_def bs(2) by (rule member_le_sum_list) simp
qed

lemma mgr_refs_cong:
  assumes "req_to_blocks m' = req_to_blocks m" "pending_cow_copies m' = pending_cow_copies m"
  shows "mgr_refs m' b = mgr_refs m b"
  using assms by (simp add: mgr_refs_def list_refs_def cow_refs_def)

lemma mgr_refs_set:
  assumes "dict_ok (req_to_blocks m)"
  shows "int (mgr_refs (set_blocks rid bs m) b) = int (mgr_refs m b) + int (count_list bs b) - int (count_list (blocks_of rid m) b)"
proof -
  have "cow_refs (set_blocks rid bs m) b = cow_refs m b" by (simp add: cow_refs_def)
  then show ?thesis using list_refs_set [OF assms, of rid bs b] by (simp add: mgr_refs_def)
qed

lemma mgr_ok_set_blocks:
  assumes "mgr_ok p m" "num_gpu_blocks p' = num_gpu_blocks p" "enable_caching p' = enable_caching p"
    "\<forall>b \<in> set bs. b < num_gpu_blocks p"
    "\<And>idx src. dict_get (partial_hit_reqs m) rid = Some (idx, src) \<Longrightarrow> idx < length bs \<and> bs ! idx = src"
  shows "mgr_ok p' (set_blocks rid bs m)"
proof -
  have d: "dict_ok (req_to_blocks (set_blocks rid bs m))"
    using mgr_okD(1) [OF assms(1)] by (simp add: set_blocks_def distinct_update)
  have "partial_ok (set_blocks rid bs m)"
    using mgr_okD(7) [OF assms(1)] assms(5) unfolding partial_ok_def by (simp add: cached_upto_def split: if_split)
  then show ?thesis using d assms(1-4) by (simp add: mgr_ok_def)
qed

section \<open>What an operation for one request does to a manager\<close>

text \<open>
  The blocks of a request that are neither cached nor hits: those behind the cached ones, except a partial hit, which
  belongs to another request until it is copied.
\<close>

definition tail :: "string \<Rightarrow> manager \<Rightarrow> nat list" where
  "tail rid m = drop (case dict_get (partial_hit_reqs m) rid of None \<Rightarrow> cached_upto rid m | Some (idx, _) \<Rightarrow> Suc idx)
     (blocks_of rid m)"

definition only :: "string \<Rightarrow> manager \<Rightarrow> manager \<Rightarrow> bool" where
  "only rid m m' \<longleftrightarrow> same_config m m' \<and> (\<forall>x. x \<noteq> rid \<longrightarrow> blocks_of x m' = blocks_of x m \<and>
     dict_get (num_cached_block m') x = dict_get (num_cached_block m) x \<and>
     dict_get (partial_hit_reqs m') x = dict_get (partial_hit_reqs m) x) \<and>
     (\<forall>b. list_refs m' b + count_list (blocks_of rid m) b = list_refs m b + count_list (blocks_of rid m') b)"

text \<open>
  \<open>retable rid m p m' p'\<close>: only the table of \<open>rid\<close> changed, the reference counts changed with it, no key was added, and what
  the request gained without having it cached are fresh blocks.
\<close>

definition retable :: "string \<Rightarrow> manager \<Rightarrow> block_pool \<Rightarrow> manager \<Rightarrow> block_pool \<Rightarrow> bool" where
  "retable rid m p m' p' \<longleftrightarrow> quiet p p' \<and> mgr_ok p' m' \<and> only rid m m' \<and>
     (\<forall>b. b \<noteq> 0 \<longrightarrow> refs p' b + int (mgr_refs m b) = refs p b + int (mgr_refs m' b)) \<and>
     (\<forall>b. b \<noteq> 0 \<longrightarrow> keys_of p b = {} \<longrightarrow> 0 < refs p b \<longrightarrow> count_list (blocks_of rid m') b \<le> count_list (blocks_of rid m) b) \<and>
     (\<forall>b \<in> set (tail rid m'). b \<noteq> 0 \<longrightarrow>
        b \<in> set (tail rid m) \<or> refs p b = 0 \<and> keys_of p' b = {} \<and> count_list (blocks_of rid m') b \<le> 1)"

lemma retableI:
  assumes "quiet p p'" "mgr_ok p' m'" "only rid m m'"
    "\<And>b. b \<noteq> 0 \<Longrightarrow> refs p' b + int (mgr_refs m b) = refs p b + int (mgr_refs m' b)"
    "\<And>b. b \<noteq> 0 \<Longrightarrow> keys_of p b = {} \<Longrightarrow> 0 < refs p b \<Longrightarrow> count_list (blocks_of rid m') b \<le> count_list (blocks_of rid m) b"
    "\<And>b. b \<in> set (tail rid m') \<Longrightarrow> b \<noteq> 0 \<Longrightarrow>
        b \<in> set (tail rid m) \<or> refs p b = 0 \<and> keys_of p' b = {} \<and> count_list (blocks_of rid m') b \<le> 1"
  shows "retable rid m p m' p'"
  using assms by (simp add: retable_def)

lemma retableD:
  assumes "retable rid m p m' p'"
  shows "quiet p p'" "mgr_ok p' m'" "only rid m m'"
    "b \<noteq> 0 \<Longrightarrow> refs p' b + int (mgr_refs m b) = refs p b + int (mgr_refs m' b)"
    "b \<noteq> 0 \<Longrightarrow> keys_of p b = {} \<Longrightarrow> 0 < refs p b \<Longrightarrow> count_list (blocks_of rid m') b \<le> count_list (blocks_of rid m) b"
    "b \<in> set (tail rid m') \<Longrightarrow> b \<noteq> 0 \<Longrightarrow>
        b \<in> set (tail rid m) \<or> refs p b = 0 \<and> keys_of p' b = {} \<and> count_list (blocks_of rid m') b \<le> 1"
  using assms by (auto simp: retable_def)

lemma onlyD:
  assumes "only rid m m'"
  shows "same_config m m'" "x \<noteq> rid \<Longrightarrow> blocks_of x m' = blocks_of x m"
    "x \<noteq> rid \<Longrightarrow> dict_get (num_cached_block m') x = dict_get (num_cached_block m) x"
    "x \<noteq> rid \<Longrightarrow> tail x m' = tail x m"
    "list_refs m' b + count_list (blocks_of rid m) b = list_refs m b + count_list (blocks_of rid m') b"
  using assms by (simp_all add: only_def tail_def cached_upto_def cong: option.case_cong)

lemma only_trans:
  assumes "only rid m m1" "only rid m1 m2"
  shows "only rid m m2"
proof -
  have "list_refs m2 b + count_list (blocks_of rid m) b = list_refs m b + count_list (blocks_of rid m2) b" for b
    using onlyD(5) [OF assms(1), of b] onlyD(5) [OF assms(2), of b] by linarith
  then show ?thesis using assms same_config_trans [OF onlyD(1) [OF assms(1)] onlyD(1) [OF assms(2)]] by (simp add: only_def)
qed

lemma only_refl: "only rid m m"
  by (simp add: only_def same_config_refl)

lemma only_set_blocks: "dict_ok (req_to_blocks m) \<Longrightarrow> only rid m (set_blocks rid bs m)"
  using list_refs_set [of m rid bs] by (simp add: only_def set_blocks_config)

lemma tail_set_blocks: "tail rid (set_blocks rid bs m) =
   drop (case dict_get (partial_hit_reqs m) rid of None \<Rightarrow> cached_upto rid m | Some (idx, _) \<Rightarrow> Suc idx) bs"
  by (simp add: tail_def cached_upto_def cong: option.case_cong)

text \<open>The references of the manager are counted in the pool.\<close>

definition counted :: "manager \<Rightarrow> block_pool \<Rightarrow> bool" where
  "counted m p \<longleftrightarrow> (\<forall>b. b \<noteq> 0 \<longrightarrow> int (mgr_refs m b) \<le> refs p b)"

lemma counted_blocks:
  assumes "counted m p" "b \<noteq> 0"
  shows "int (count_list (blocks_of rid m) b) \<le> refs p b"
proof -
  have "int (mgr_refs m b) \<le> refs p b" using assms by (simp add: counted_def)
  moreover have "count_list (blocks_of rid m) b \<le> mgr_refs m b"
    using list_refs_mem [of b rid m] by (cases "b \<in> set (blocks_of rid m)") (simp_all add: mgr_refs_def)
  ultimately show ?thesis by linarith
qed

lemma counted_retable:
  assumes "retable rid m p m' p'" "counted m p"
  shows "counted m' p'"
  unfolding counted_def
proof (intro allI impI)
  fix b :: nat
  assume b: "b \<noteq> 0"
  have "int (mgr_refs m b) \<le> refs p b" using assms(2) b by (simp add: counted_def)
  then show "int (mgr_refs m' b) \<le> refs p' b" using retableD(4) [OF assms(1) b] by linarith
qed

end
