(* ===== verification/Manager_Steps.thy ===== *)
theory Manager_Steps
  imports KV_Refs
begin

text \<open>
  Every operation of a manager returns when the pool has the blocks it takes, changes reference counts with the block
  tables, and takes no more free blocks than stated.
\<close>

section \<open>Lists of blocks\<close>

lemma count_list_update:
  "i < length xs \<Longrightarrow> int (count_list (xs[i := y]) b) = int (count_list xs b) + of_bool (y = b) - of_bool (xs ! i = b)"
proof (induction xs arbitrary: i)
  case (Cons x xs)
  then show ?case by (cases i) auto
qed simp

lemma count_le_1: "distinct xs \<Longrightarrow> count_list xs x \<le> 1"
  by (simp add: count_list_distinct)

definition nulls_of :: "nat list \<Rightarrow> nat list \<Rightarrow> bool" where
  "nulls_of bs bs' \<longleftrightarrow> length bs' = length bs \<and> (\<forall>i < length bs. bs' ! i = bs ! i \<or> bs' ! i = 0)"

lemma nulls_of_drop:
  assumes "nulls_of bs bs'" "b \<in> set (drop k bs')" "b \<noteq> 0"
  shows "b \<in> set (drop k bs)"
proof -
  obtain i where i: "i < length bs' - k" "b = bs' ! (k + i)" using assms(2) by (auto simp: in_set_conv_nth)
  then have l: "k + i < length bs" "i < length (drop k bs)" using assms(1) by (auto simp: nulls_of_def)
  then have "bs ! (k + i) = b" using assms(1,3) i(2) unfolding nulls_of_def by metis
  then have "drop k bs ! i = b" using l by simp
  then show ?thesis using l(2) nth_mem by blast
qed

lemma null_back_spec:
  assumes "null_back js bs freed = (bs', freed')" "\<forall>i \<in> set js. i < length bs"
  shows "nulls_of bs bs' \<and> (\<exists>ks. freed' = freed @ ks \<and> 0 \<notin> set ks \<and> set ks \<subseteq> set bs \<and>
    (\<forall>b. b \<noteq> 0 \<longrightarrow> count_list bs' b + count_list ks b = count_list bs b) \<and>
    (\<forall>i < length bs. i \<notin> set js \<longrightarrow> bs' ! i = bs ! i))"
  using assms
proof (induction js arbitrary: bs freed)
  case (Cons i js)
  show ?case
  proof (cases "bs ! i = 0")
    case False
    let ?u = "bs[i := 0]"
    have i: "i < length bs" using Cons.prems(2) by simp
    obtain ks where ks: "nulls_of ?u bs'" "freed' = (freed @ [bs ! i]) @ ks" "0 \<notin> set ks" "set ks \<subseteq> set ?u"
      "\<forall>b. b \<noteq> 0 \<longrightarrow> count_list bs' b + count_list ks b = count_list ?u b"
      "\<forall>j < length ?u. j \<notin> set js \<longrightarrow> bs' ! j = ?u ! j"
      using Cons.IH [of ?u "freed @ [bs ! i]"] Cons.prems False by auto
    have "set ?u \<subseteq> insert 0 (set bs)" by (rule set_update_subset_insert)
    then have sub: "set (bs ! i # ks) \<subseteq> set bs" using ks(3,4) i by auto
    have "count_list bs' b + count_list (bs ! i # ks) b = count_list bs b" if b: "b \<noteq> 0" for b
      using ks(5) [rule_format, OF b] count_list_update [OF i, of 0 b] b by (auto split: if_splits)
    moreover have "nulls_of bs bs'" using ks(1) i unfolding nulls_of_def by (metis length_list_update nth_list_update)
    ultimately show ?thesis using ks(2,3,6) sub False
      by (intro conjI exI [of _ "bs ! i # ks"]) (auto simp: nth_list_update)
  qed (use Cons.prems in \<open>auto simp: nulls_of_def\<close>)
qed (auto simp: nulls_of_def)

section \<open>Giving blocks back\<close>

lemma free_part:
  assumes "pool_ok p" "mgr_ok p m" "counted m p" "set ks \<subseteq> set (blocks_of rid m)"
    "\<And>b. b \<noteq> 0 \<Longrightarrow> count_list ks b \<le> count_list (blocks_of rid m) b"
  shows "freeable p ks"
  unfolding freeable_def
proof (intro ballI conjI impI)
  fix b assume b: "b \<in> set ks"
  show "b < num_gpu_blocks p" using assms(4) b mgr_okD(8) [OF assms(2), of b rid] by auto
  assume n: "b \<noteq> 0"
  show "int (count_list ks b) \<le> refs p b" using counted_blocks [OF assms(3) n, of rid] assms(5) [OF n] by linarith
qed

lemma retable_refl: "pool_ok p \<Longrightarrow> mgr_ok p m \<Longrightarrow> retable rid m p m p"
  by (rule retableI) (simp_all add: quiet_refl only_refl)

lemma remove_range_step:
  assumes "pool_ok p" "mgr_ok p m" "counted m p" "dict_get (partial_hit_reqs m) rid = None"
  shows "\<exists>m' p'. remove_blocks_in_range rid i j (m, p) = Inr (m', p') \<and> retable rid m p m' p' \<and> nfree p \<le> nfree p' \<and>
    (\<forall>c. keys_of p' c = keys_of p c) \<and>
    nulls_of (blocks_of rid m) (blocks_of rid m') \<and> num_cached_block m' = num_cached_block m \<and>
    partial_hit_reqs m' = partial_hit_reqs m \<and>
    (\<forall>k < length (blocks_of rid m). k < i \<or> j \<le> k \<longrightarrow> blocks_of rid m' ! k = blocks_of rid m ! k)"
proof (cases "rid \<notin> set (dict_keys (req_to_blocks m)) \<or> i \<ge> j")
  case True
  show ?thesis using True retable_refl [OF assms(1,2), of rid] by (intro exI [of _ m] exI [of _ p]) (auto simp: remove_blocks_in_range_def nulls_of_def)
next
  case False
  let ?bs = "blocks_of rid m"
  let ?is = "rev [i ..< min j (length ?bs)]"
  obtain bs' ks where nb: "null_back ?is ?bs [] = (bs', ks)" by fastforce
  have sp: "nulls_of ?bs bs'" "0 \<notin> set ks" "set ks \<subseteq> set ?bs"
    "\<forall>b. b \<noteq> 0 \<longrightarrow> count_list bs' b + count_list ks b = count_list ?bs b"
    "\<forall>k < length ?bs. k \<notin> set ?is \<longrightarrow> bs' ! k = ?bs ! k"
    using null_back_spec [OF nb] by auto
  have fr: "freeable p ks" by (rule free_part [OF assms(1-3) sp(3)]) (use sp(4) in \<open>metis le_add2\<close>)
  obtain q where q: "free_blocks ks p = Inr q" "quiet p q" "nfree p \<le> nfree q" "\<forall>c. keys_of q c = keys_of p c"
    "\<forall>c. refs q c = refs p c - int (count_list ks c)"
    using free_ok [OF assms(1) fr] by blast
  define p' where "p' = (if ks = [] then p else q)"
  have p': "(if ks = [] then Inr p else free_blocks ks p) = Inr p'" "quiet p p'" "nfree p \<le> nfree p'"
    "\<forall>c. refs p' c = refs p c - int (count_list ks c)" "\<forall>c. keys_of p' c = keys_of p c"
    using q quiet_refl [OF assms(1)] by (simp_all add: p'_def)
  define m' where "m' = set_blocks rid bs' m"
  have bs': "blocks_of rid m' = bs'" by (simp add: m'_def)
  have n0: "0 < num_gpu_blocks p" using assms(1) by (auto simp: pool_ok_def refs_ok_def)
  have rng: "\<forall>b \<in> set bs'. b < num_gpu_blocks p"
  proof
    fix b assume "b \<in> set bs'"
    then show "b < num_gpu_blocks p"
      using nulls_of_drop [OF sp(1), of b 0] mgr_okD(8) [OF assms(2), of b rid] n0 by (cases "b = 0") auto
  qed
  have ok: "mgr_ok p' m'" unfolding m'_def
    by (rule mgr_ok_set_blocks [OF assms(2)]) (use p'(2) assms(4) rng in \<open>simp_all add: quietD\<close>)
  have on: "only rid m m'" unfolding m'_def by (rule only_set_blocks [OF mgr_okD(1) [OF assms(2)]])
  have "retable rid m p m' p'"
  proof (rule retableI [OF p'(2) ok on])
    fix b :: nat
    assume b: "b \<noteq> 0"
    have e: "count_list bs' b + count_list ks b = count_list ?bs b" using sp(4) b by simp
    show "refs p' b + int (mgr_refs m b) = refs p b + int (mgr_refs m' b)"
      using mgr_refs_set [OF mgr_okD(1) [OF assms(2)], of rid bs' b] e p'(4) [rule_format, of b] unfolding m'_def by linarith
    show "count_list (blocks_of rid m') b \<le> count_list ?bs b" using e bs' by simp
    show "b \<in> set (tail rid m) \<or> refs p b = 0 \<and> keys_of p' b = {} \<and> count_list (blocks_of rid m') b \<le> 1" if "b \<in> set (tail rid m')"
      using that nulls_of_drop [OF sp(1), of b "cached_upto rid m"] b assms(4) by (simp add: tail_def m'_def cached_upto_def)
  qed
  then show ?thesis using False nb p'(1,3,5) sp(1,5) bs'
    by (intro exI [of _ m'] exI [of _ p']) (simp add: remove_blocks_in_range_def res_simps m'_def)
qed

text \<open>Reading the table of a request creates its entry.\<close>

lemma entry_created:
  fixes m rid
  defines "e \<equiv> set_blocks rid (blocks_of rid m) m"
  assumes "mgr_ok p m"
  shows "mgr_ok p e" "mgr_refs e b = mgr_refs m b" "list_refs e b = list_refs m b" "blocks_of x e = blocks_of x m"
    "tail x e = tail x m"
proof -
  show "mgr_ok p e" unfolding e_def
    by (rule mgr_ok_set_blocks [OF assms(2)]) (use mgr_okD(7,8) [OF assms(2)] in \<open>auto simp: partial_ok_def\<close>)
  show "list_refs e b = list_refs m b" using list_refs_set [OF mgr_okD(1) [OF assms(2)], of rid "blocks_of rid m" b] by (simp add: e_def)
  then show "mgr_refs e b = mgr_refs m b" by (simp add: mgr_refs_def cow_refs_def e_def)
  show bl: "blocks_of x e = blocks_of x m" by (simp add: e_def)
  show "tail x e = tail x m" using bl by (simp add: tail_def cached_upto_def e_def cong: option.case_cong)
qed

lemma retable_entry:
  assumes "mgr_ok p m" "retable rid (set_blocks rid (blocks_of rid m) m) p m' p'"
  shows "retable rid m p m' p'"
proof -
  note e = entry_created [OF assms(1), of rid]
  have o: "only rid (set_blocks rid (blocks_of rid m) m) m'" using retableD(3) [OF assms(2)] .
  have "only rid m m'"
    using o e(3) e(4) same_config_trans [OF set_blocks_config onlyD(1) [OF o]] by (simp add: only_def)
  then show ?thesis using assms(2) by (simp add: retable_def e(2,3,5))
qed

lemma counted_entry: "mgr_ok p m \<Longrightarrow> counted m p \<Longrightarrow> counted (set_blocks rid (blocks_of rid m) m) p"
  by (simp add: counted_def entry_created(2))

text \<open>The blocks an attention kind no longer reads once \<open>n\<close> tokens are processed.\<close>

definition unneeded :: "attn_kind \<Rightarrow> nat option \<Rightarrow> nat \<Rightarrow> nat \<Rightarrow> nat \<Rightarrow> bool" where
  "unneeded kind num_prompt processed bsz k \<longleftrightarrow>
     (case (kind, num_prompt) of
        (RSWA w, Some n) \<Rightarrow> n \<le> k * bsz \<and> (k + 1) * bsz \<le> max n (processed - w)
      | _ \<Rightarrow> (k + 1) * bsz \<le> get_num_skipped_tokens kind processed)"

lemma below_div: "(k :: nat) < n div b \<Longrightarrow> (k + 1) * b \<le> n"
  by (metis Suc_eq_plus1 Suc_leI div_times_less_eq_dividend le_trans mult_le_mono1)

lemma remove_default_step:
  assumes "pool_ok p" "mgr_ok p m" "counted m p" "dict_get (partial_hit_reqs m) rid = None"
  shows "\<exists>m' p'. remove_skipped_default rid n (m, p) = Inr (m', p') \<and> retable rid m p m' p' \<and> nfree p \<le> nfree p' \<and>
    (\<forall>c. keys_of p' c = keys_of p c) \<and>
    nulls_of (blocks_of rid m) (blocks_of rid m') \<and> num_cached_block m' = num_cached_block m \<and>
    partial_hit_reqs m' = partial_hit_reqs m \<and> (\<forall>k < length (blocks_of rid m).
      \<not> (k + 1) * mgr_block_size m \<le> get_num_skipped_tokens (mgr_kind m) n \<longrightarrow> blocks_of rid m' ! k = blocks_of rid m ! k)"
proof (cases "get_num_skipped_tokens (mgr_kind m) n = 0")
  case True
  then show ?thesis
    using retable_refl [OF assms(1,2)] by (intro exI [of _ m] exI [of _ p]) (simp add: remove_skipped_default_def nulls_of_def)
next
  case False
  let ?e = "set_blocks rid (blocks_of rid m) m"
  let ?j = "min (get_num_skipped_tokens (mgr_kind m) n div mgr_block_size m) (length (blocks_of rid m))"
  have "dict_get (partial_hit_reqs ?e) rid = None" using assms(4) by simp
  then obtain m' p' where r: "remove_blocks_in_range rid 0 ?j (?e, p) = Inr (m', p')" "retable rid ?e p m' p'" "nfree p \<le> nfree p'"
    "\<forall>c. keys_of p' c = keys_of p c" "nulls_of (blocks_of rid ?e) (blocks_of rid m')" "num_cached_block m' = num_cached_block ?e"
    "partial_hit_reqs m' = partial_hit_reqs ?e"
    "\<forall>k < length (blocks_of rid ?e). k < 0 \<or> ?j \<le> k \<longrightarrow> blocks_of rid m' ! k = blocks_of rid ?e ! k"
    using remove_range_step [OF assms(1) entry_created(1) [OF assms(2), of rid] counted_entry [OF assms(2,3), of rid], of rid 0 ?j]
    by blast
  have "blocks_of rid m' ! k = blocks_of rid m ! k"
    if "k < length (blocks_of rid m)" "\<not> (k + 1) * mgr_block_size m \<le> get_num_skipped_tokens (mgr_kind m) n" for k
    using r(8) that below_div [of k "get_num_skipped_tokens (mgr_kind m) n" "mgr_block_size m"] by fastforce
  then show ?thesis using False r(1,3-7) retable_entry [OF assms(2) r(2)]
    by (intro exI [of _ m'] exI [of _ p']) (simp add: remove_skipped_default_def Let_def)
qed

lemma blocks_for_mult:
  assumes "0 < b" "blocks_for n b \<le> k"
  shows "n \<le> k * b"
proof -
  have "int n \<le> cdiv (int n) (int b) * int b" using assms(1) by (simp add: cdiv_upper)
  also have "\<dots> \<le> int k * int b" using assms by (intro mult_right_mono) (auto simp: blocks_for_def)
  finally show ?thesis by (metis of_nat_le_iff of_nat_mult)
qed

lemma remove_skipped_step:
  assumes "pool_ok p" "mgr_ok p m" "counted m p" "dict_get (partial_hit_reqs m) rid = None"
  shows "\<exists>m' p'. mgr_remove_skipped_blocks rid n np (m, p) = Inr (m', p') \<and> retable rid m p m' p' \<and> nfree p \<le> nfree p' \<and>
    (\<forall>c. keys_of p' c = keys_of p c) \<and>
    nulls_of (blocks_of rid m) (blocks_of rid m') \<and> num_cached_block m' = num_cached_block m \<and>
    partial_hit_reqs m' = partial_hit_reqs m \<and> (\<forall>k < length (blocks_of rid m).
      \<not> unneeded (mgr_kind m) np n (mgr_block_size m) k \<longrightarrow> blocks_of rid m' ! k = blocks_of rid m ! k)"
proof (cases "\<exists>w l. mgr_kind m = RSWA w \<and> np = Some l")
  case False
  then have "mgr_remove_skipped_blocks rid n np (m, p) = remove_skipped_default rid n (m, p)"
    "\<And>k. unneeded (mgr_kind m) np n (mgr_block_size m) k \<longleftrightarrow> (k + 1) * mgr_block_size m \<le> get_num_skipped_tokens (mgr_kind m) n"
    by (auto simp: mgr_remove_skipped_blocks_def unneeded_def split: attn_kind.splits option.splits)
  then show ?thesis using remove_default_step [OF assms, of n] by simp
next
  case True
  then obtain w l where wl: "mgr_kind m = RSWA w" "np = Some l" by blast
  let ?i = "blocks_for l (mgr_block_size m)" and ?j = "max l (n - w) div mgr_block_size m"
  have eq: "mgr_remove_skipped_blocks rid n np (m, p) = remove_blocks_in_range rid ?i ?j (m, p)"
    by (simp add: mgr_remove_skipped_blocks_def wl Let_def)
  have "k < ?i \<or> ?j \<le> k" if "\<not> unneeded (mgr_kind m) np n (mgr_block_size m) k" for k
    using that below_div [of k "max l (n - w)" "mgr_block_size m"] blocks_for_mult [OF mgr_okD(4) [OF assms(2)], of l k]
    by (fastforce simp: unneeded_def wl)
  then show ?thesis using remove_range_step [OF assms, of ?i ?j] unfolding eq by blast
qed

lemma pop_facts:
  fixes rid m
  defines "m' \<equiv> snd (mgr_pop_blocks_for_free rid m)"
  assumes ok: "mgr_ok p m"
  shows "mgr_ok p m'" "only rid m m'" "blocks_of rid m' = []" "tail rid m' = []" "dict_get (num_cached_block m') rid = None"
    "dict_get (partial_hit_reqs m') rid = None" "mgr_refs m' b + count_list (blocks_of rid m) b = mgr_refs m b"
    "pending_cow_copies m' = pending_cow_copies m"
proof -
  have m': "m' = m\<lparr>req_to_blocks := dict_del rid (req_to_blocks m), num_cached_block := dict_del rid (num_cached_block m),
        partial_hit_reqs := dict_del rid (partial_hit_reqs m)\<rparr>" by (simp add: m'_def mgr_pop_blocks_for_free_def)
  have bl: "blocks_of x m' = (if x = rid then [] else blocks_of x m)" for x by (simp add: m' blocks_of_def delete_conv')
  have up: "cached_upto x m' = (if x = rid then 0 else cached_upto x m)" for x by (simp add: m' cached_upto_def delete_conv')
  have pa: "dict_get (partial_hit_reqs m') x = (if x = rid then None else dict_get (partial_hit_reqs m) x)" for x
    by (simp add: m' delete_conv')
  have part: "partial_ok m'" using mgr_okD(7) [OF ok] unfolding partial_ok_def by (auto simp: bl up pa)
  show "mgr_ok p m'" using ok part bl by (auto simp: mgr_ok_def m' distinct_delete)
  have ls: "list_refs m' b + count_list (blocks_of rid m) b = list_refs m b" for b
    using count_delete [OF mgr_okD(1) [OF ok], where rid = rid and b = b] by (simp add: list_refs_def blocks_of_def m')
  show "only rid m m'" using ls by (auto simp: only_def same_config_def m' blocks_of_def delete_conv')
  show "mgr_refs m' b + count_list (blocks_of rid m) b = mgr_refs m b" using ls [of b] by (simp add: mgr_refs_def cow_refs_def m')
qed (simp_all add: m'_def mgr_pop_blocks_for_free_def blocks_of_def delete_conv' tail_def)

lemma mgr_free_step:
  assumes "pool_ok p" "mgr_ok p m" "counted m p"
  shows "\<exists>m' p'. mgr_free rid (m, p) = Inr (m', p') \<and> retable rid m p m' p' \<and> nfree p \<le> nfree p' \<and>
    m' = snd (mgr_pop_blocks_for_free rid m)"
proof -
  let ?bs = "blocks_of rid m"
  define m' where "m' = snd (mgr_pop_blocks_for_free rid m)"
  note po = pop_facts [OF assms(2), of rid, folded m'_def]
  have "freeable p (rev ?bs)" by (rule free_part [OF assms, of _ rid]) simp_all
  then obtain q where q: "free_blocks (rev ?bs) p = Inr q" "quiet p q" "nfree p \<le> nfree q"
    "\<forall>c. refs q c = refs p c - int (count_list (rev ?bs) c)"
    using free_ok [OF assms(1)] by blast
  have ok: "mgr_ok q m'" using po(1) q(2) by (simp add: mgr_ok_def quietD)
  have "retable rid m p m' q"
  proof (rule retableI [OF q(2) ok po(2)])
    fix b :: nat
    show "refs q b + int (mgr_refs m b) = refs p b + int (mgr_refs m' b)" using q(4) po(7) [of b] by simp
  qed (simp_all add: po(3,4))
  then show ?thesis using q(1,3) by (intro exI [of _ m'] exI [of _ q]) (simp add: mgr_free_def m'_def mgr_pop_blocks_for_free_def)
qed

section \<open>Taking hits\<close>

definition skipped_blocks :: "manager \<Rightarrow> nat \<Rightarrow> nat" where
  "skipped_blocks m n = get_num_skipped_tokens (mgr_kind m) n div mgr_block_size m"

text \<open>A request without any entry in the manager.\<close>

definition fresh :: "string \<Rightarrow> manager \<Rightarrow> bool" where
  "fresh rid m \<longleftrightarrow> blocks_of rid m = [] \<and> dict_get (num_cached_block m) rid = None \<and> dict_get (partial_hit_reqs m) rid = None"

text \<open>Hits a lookup may hand to a manager: blocks of the pool, cached unless null, one for each of the \<open>n\<close> tokens' blocks.\<close>

definition hits_ok :: "nat \<Rightarrow> nat list \<Rightarrow> manager \<Rightarrow> block_pool \<Rightarrow> bool" where
  "hits_ok n hits m p \<longleftrightarrow> (\<forall>b \<in> set hits. b < num_gpu_blocks p \<and> (b \<noteq> 0 \<longrightarrow> keys_of p b \<noteq> {})) \<and>
     (hits \<noteq> [] \<longrightarrow> mgr_caching m \<and> mgr_kind m \<noteq> CrossAttention \<and> length hits = blocks_for n (mgr_block_size m) \<and>
        (n mod mgr_block_size m \<noteq> 0 \<longrightarrow> last hits \<noteq> 0))"

lemma hits_okD:
  assumes "hits_ok n hits m p"
  shows "b \<in> set hits \<Longrightarrow> b < num_gpu_blocks p" "b \<in> set hits \<Longrightarrow> b \<noteq> 0 \<Longrightarrow> keys_of p b \<noteq> {}"
    "hits \<noteq> [] \<Longrightarrow> mgr_caching m" "hits \<noteq> [] \<Longrightarrow> mgr_kind m \<noteq> CrossAttention"
    "hits \<noteq> [] \<Longrightarrow> length hits = blocks_for n (mgr_block_size m)"
    "hits \<noteq> [] \<Longrightarrow> n mod mgr_block_size m \<noteq> 0 \<Longrightarrow> last hits \<noteq> 0"
  using assms by (auto simp: hits_ok_def)

lemma blocks_for_eq: "0 < b \<Longrightarrow> blocks_for n b = n div b + (if n mod b = 0 then 0 else 1)"
proof -
  assume b: "0 < b"
  have "int n + int b - 1 = int (n + b - 1)" using b by (simp add: of_nat_diff)
  then have "cdiv (int n) (int b) = int ((n + b - 1) div b)" using b by (simp add: cdiv_alt zdiv_int)
  then have e: "blocks_for n b = (n + b - 1) div b" by (simp add: blocks_for_def)
  show ?thesis
  proof (cases "n mod b = 0")
    case True
    then obtain q where q: "n = b * q" by blast
    then have "n + b - 1 = b - 1 + q * b" using b by (simp add: mult.commute)
    also have "\<dots> div b = q" using b by (subst div_mult_self1) simp_all
    finally show ?thesis using e True b q by simp
  next
    case False
    have "n + b - 1 = n div b * b + n mod b + b - 1" by simp
    also have "\<dots> = n mod b - 1 + (n div b + 1) * b" using False by (simp only: distrib_right)
    also have "\<dots> div b = n div b + 1"
      using b False mod_less_divisor [OF b, of n] by (subst div_mult_self1) simp_all
    finally show ?thesis using e False by simp
  qed
qed

text \<open>The table entry that the hits give.\<close>

definition hit_blocks :: "manager \<Rightarrow> nat \<Rightarrow> nat list \<Rightarrow> nat list" where
  "hit_blocks m tot hits = (if mgr_kind m = CrossAttention then [] else
     replicate (skipped_blocks m tot) 0 @ drop (skipped_blocks m tot) hits)"

lemma partial_hit_index:
  assumes "hits_ok n hits m p" "0 < mgr_block_size m" "has_partial_local_hit m (drop k hits) n"
  shows "length (replicate k 0 @ drop k hits) = Suc (n div mgr_block_size m)"
    "(replicate k 0 @ drop k hits) ! (n div mgr_block_size m) = last (drop k hits)" "last (drop k hits) \<noteq> 0"
proof -
  have h: "drop k hits \<noteq> []" "n mod mgr_block_size m \<noteq> 0" using assms(3) by (auto simp: has_partial_local_hit_def)
  then have ne: "hits \<noteq> []" and k: "k < length hits" by auto
  have l: "length hits = Suc (n div mgr_block_size m)"
    using hits_okD(5) [OF assms(1) ne] blocks_for_eq [OF assms(2), of n] h(2) by simp
  then show len: "length (replicate k 0 @ drop k hits) = Suc (n div mgr_block_size m)" using k by simp
  have "last (replicate k 0 @ drop k hits) = last (drop k hits)" using h(1) by simp
  then show "(replicate k 0 @ drop k hits) ! (n div mgr_block_size m) = last (drop k hits)"
    using len h(1) by (metis Suc_eq_plus1 append_is_Nil_conv diff_add_inverse2 last_conv_nth)
  show "last (drop k hits) \<noteq> 0" using hits_okD(6) [OF assms(1) ne h(2)] k by simp
qed

lemma count_hit_blocks: "b \<noteq> 0 \<Longrightarrow> count_list (replicate k 0 @ xs) b = count_list xs b"
  by (induction k) simp_all

text \<open>The manager after its table took the hits.\<close>

definition with_hits :: "string \<Rightarrow> nat list \<Rightarrow> nat list \<Rightarrow> nat \<Rightarrow> manager \<Rightarrow> manager" where
  "with_hits rid blocks hits n m =
     (let m1 = (set_blocks rid blocks m)\<lparr>num_cached_block := dict_set rid (length blocks) (num_cached_block m)\<rparr>
      in if has_partial_local_hit m hits n then
           m1\<lparr>partial_hit_reqs := dict_set rid (n div mgr_block_size m, last hits) (partial_hit_reqs m1),
              num_cached_block := dict_set rid (n div mgr_block_size m) (num_cached_block m1)\<rparr>
         else m1)"

lemma with_hits_sel [simp]:
  "mgr_kind (with_hits rid blocks hits n m) = mgr_kind m" "mgr_block_size (with_hits rid blocks hits n m) = mgr_block_size m"
  "mgr_caching (with_hits rid blocks hits n m) = mgr_caching m"
  "req_to_blocks (with_hits rid blocks hits n m) = req_to_blocks (set_blocks rid blocks m)"
  "pending_cow_copies (with_hits rid blocks hits n m) = pending_cow_copies m"
  by (simp_all add: with_hits_def Let_def)

lemma with_hits_blocks [simp]: "blocks_of x (with_hits rid blocks hits n m) = (if x = rid then blocks else blocks_of x m)"
  by (simp add: blocks_of_cong [OF with_hits_sel(4)])

lemma with_hits_cached: "dict_get (num_cached_block (with_hits rid blocks hits n m)) x =
    (if x = rid then Some (if has_partial_local_hit m hits n then n div mgr_block_size m else length blocks)
     else dict_get (num_cached_block m) x)"
  by (simp add: with_hits_def Let_def update_conv')

lemma with_hits_partial: "dict_get (partial_hit_reqs (with_hits rid blocks hits n m)) x =
    (if x = rid \<and> has_partial_local_hit m hits n then Some (n div mgr_block_size m, last hits) else dict_get (partial_hit_reqs m) x)"
  by (simp add: with_hits_def Let_def update_conv')

lemma with_hits_dicts:
  assumes "mgr_ok p m"
  shows "dict_ok (req_to_blocks (with_hits rid blocks hits n m))" "dict_ok (num_cached_block (with_hits rid blocks hits n m))"
    "dict_ok (partial_hit_reqs (with_hits rid blocks hits n m))"
  using mgr_okD(1-3) [OF assms] by (simp_all add: with_hits_def Let_def set_blocks_def distinct_update)

lemma with_hits_only:
  assumes "mgr_ok p m"
  shows "only rid m (with_hits rid blocks hits n m)"
proof -
  have "list_refs (with_hits rid blocks hits n m) b = list_refs (set_blocks rid blocks m) b" for b by (simp add: list_refs_def)
  then show ?thesis using list_refs_set [OF mgr_okD(1) [OF assms], of rid blocks]
    by (simp add: only_def with_hits_cached with_hits_partial) (simp add: same_config_def with_hits_def Let_def)
qed

lemma with_hits_retable:
  assumes "pool_ok p" "mgr_ok p m" "fresh rid m" "hits_ok n new m p" "quiet p q"
    "\<forall>c. refs q c = refs p c + int (count_list (drop k new) c)"
  shows "retable rid m p (with_hits rid (replicate k 0 @ drop k new) (drop k new) n m) q"
proof -
  let ?bs = "replicate k 0 @ drop k new"
  define m' where "m' = with_hits rid ?bs (drop k new) n m"
  have fr: "blocks_of rid m = []" "dict_get (partial_hit_reqs m) rid = None" using assms(3) by (simp_all add: fresh_def)
  note pt = partial_hit_index [OF assms(4) mgr_okD(4) [OF assms(2)], of k]
  have bl: "blocks_of x m' = (if x = rid then ?bs else blocks_of x m)" for x by (simp add: m'_def)
  have n0: "0 < num_gpu_blocks p" using assms(1) by (auto simp: pool_ok_def refs_ok_def)
  have rng: "\<forall>b \<in> set ?bs. b < num_gpu_blocks p" using hits_okD(1) [OF assms(4)] n0 by (auto dest: in_set_dropD)
  have part: "partial_ok m'"
    using mgr_okD(7) [OF assms(2)] pt fr(2) unfolding partial_ok_def bl
    by (auto simp: m'_def with_hits_partial with_hits_cached cached_upto_def)
  have ok: "mgr_ok q m'"
    using assms(2) part rng with_hits_dicts [OF assms(2)] assms(5) bl by (auto simp: mgr_ok_def m'_def quietD)
  have tl: "tail rid m' = []"
    using pt(1) fr(2) by (auto simp: tail_def bl m'_def with_hits_partial with_hits_cached cached_upto_def)
  have "retable rid m p m' q"
  proof (rule retableI [OF assms(5) ok])
    show "only rid m m'" unfolding m'_def by (rule with_hits_only [OF assms(2)])
    fix b :: nat
    assume b: "b \<noteq> 0"
    have "mgr_refs m' b = mgr_refs (set_blocks rid ?bs m) b" by (rule mgr_refs_cong) (simp_all add: m'_def)
    then show "refs q b + int (mgr_refs m b) = refs p b + int (mgr_refs m' b)"
      using mgr_refs_set [OF mgr_okD(1) [OF assms(2)], of rid ?bs b] assms(6) count_hit_blocks [OF b] by (simp add: fr)
    show "count_list (blocks_of rid m') b \<le> count_list (blocks_of rid m) b" if "keys_of p b = {}"
    proof -
      have "b \<notin> set (drop k new)" using hits_okD(2) [OF assms(4) in_set_dropD b] that by blast
      then show ?thesis using count_hit_blocks [OF b] by (simp add: bl)
    qed
  qed (simp add: tl)
  then show ?thesis by (simp add: m'_def)
qed

lemma add_local_step:
  fixes ext :: nat
  assumes "pool_ok p" "mgr_ok p m" "mgr_kind m = CrossAttention \<or> fresh rid m" "hits_ok n new m p"
  defines "hits \<equiv> drop (skipped_blocks m (n + ext)) new"
  shows "\<exists>m' p'. add_local_computed_blocks rid new n ext (m, p) = Inr (m', p') \<and> retable rid m p m' p' \<and>
    nfree p \<le> nfree p' + get_num_evictable_blocks p hits \<and> (\<forall>c. refs p c \<le> refs p' c) \<and> (\<forall>c. keys_of p' c = keys_of p c) \<and>
    (if mgr_kind m = CrossAttention then m' = m
     else m' = with_hits rid (hit_blocks m (n + ext) new) hits n m)"
proof (cases "mgr_kind m = CrossAttention")
  case True
  then have "new = []" using hits_okD(4) [OF assms(4)] by blast
  then show ?thesis using True retable_refl [OF assms(1,2)]
    by (intro exI [of _ m] exI [of _ p]) (simp add: add_local_computed_blocks_def res_simps)
next
  case False
  then have fr: "fresh rid m" using assms(3) by blast
  have "\<forall>b \<in> set hits. b < num_gpu_blocks p" using hits_okD(1) [OF assms(4)] by (auto simp: hits_def dest: in_set_dropD)
  then obtain q where q: "touch hits p = Inr q" "quiet p q" "nfree p \<le> nfree q + get_num_evictable_blocks p hits"
    "\<forall>c. keys_of q c = keys_of p c" "\<forall>c. refs q c = refs p c + int (count_list hits c)"
    using touch_ok [OF assms(1)] by blast
  define p' where "p' = (if mgr_caching m then q else p)"
  have h0: "new = []" "hits = []" if "\<not> mgr_caching m"
    using hits_okD(3) [OF assms(4)] that by (blast, fastforce simp: hits_def)
  have p': "quiet p p'" "nfree p \<le> nfree p' + get_num_evictable_blocks p hits" "\<forall>c. keys_of p' c = keys_of p c"
    "\<forall>c. refs p' c = refs p c + int (count_list hits c)"
    using q quiet_refl [OF assms(1)] h0 by (simp_all add: p'_def)
  let ?bs = "replicate (skipped_blocks m (n + ext)) 0 @ hits"
  have "add_local_computed_blocks rid new n ext (m, p) = Inr (with_hits rid ?bs hits n m, p')"
    using False fr q(1) h0
    by (cases "mgr_caching m") (simp_all add: p'_def add_local_computed_blocks_def res_simps fresh_def with_hits_def Let_def
        skipped_blocks_def [symmetric] hits_def [symmetric])
  moreover have "retable rid m p (with_hits rid ?bs hits n m) p'"
    using with_hits_retable [OF assms(1,2) fr assms(4) p'(1)] p'(4) by (simp add: hits_def)
  ultimately show ?thesis using False p' by (simp add: hit_blocks_def hits_def)
qed

section \<open>Taking new blocks\<close>

lemma new_tail_retable:
  assumes "pool_ok p" "mgr_ok p m" "counted m p" "quiet p q" "distinct new" "set new \<subseteq> {1 ..< num_gpu_blocks p}"
    "\<forall>b \<in> set new. refs p b = 0 \<and> keys_of q b = {}" "\<forall>c. refs q c = refs p c + int (count_list new c)"
  shows "retable rid m p (note_new_blocks new (set_blocks rid (blocks_of rid m @ new) m)) q"
proof -
  let ?bs = "blocks_of rid m @ new"
  define m' where "m' = note_new_blocks new (set_blocks rid ?bs m)"
  have sm: "req_to_blocks m' = req_to_blocks (set_blocks rid ?bs m)" "pending_cow_copies m' = pending_cow_copies (set_blocks rid ?bs m)"
    by (simp_all add: m'_def)
  have pk: "idx < length (blocks_of rid m) \<and> blocks_of rid m ! idx = src" if "dict_get (partial_hit_reqs m) rid = Some (idx, src)" for idx src
    using mgr_okD(7) [OF assms(2)] that unfolding partial_ok_def by blast
  have "\<forall>b \<in> set ?bs. b < num_gpu_blocks p" using mgr_okD(8) [OF assms(2)] assms(6) by auto
  then have "mgr_ok q (set_blocks rid ?bs m)"
    by (intro mgr_ok_set_blocks [OF assms(2)]) (use pk assms(4) in \<open>auto simp: quietD nth_append trans_less_add1\<close>)
  then have ok: "mgr_ok q m'" by (simp add: mgr_ok_def m'_def partial_ok_def cached_upto_def)
  have "only rid m (set_blocks rid ?bs m)" by (rule only_set_blocks [OF mgr_okD(1) [OF assms(2)]])
  then have on: "only rid m m'"
    using same_config_trans [OF set_blocks_config note_new_config] by (simp add: only_def m'_def list_refs_def)
  have z: "count_list (blocks_of rid m) b = 0" if "b \<in> set new" for b
    using that counted_blocks [OF assms(3), of b rid] assms(6,7) by force
  have "retable rid m p m' q"
  proof (rule retableI [OF assms(4) ok on])
    fix b :: nat
    assume b: "b \<noteq> 0"
    show "refs q b + int (mgr_refs m b) = refs p b + int (mgr_refs m' b)"
      using mgr_refs_set [OF mgr_okD(1) [OF assms(2)], of rid ?bs b] assms(8) mgr_refs_cong [OF sm] by simp
    show "count_list (blocks_of rid m') b \<le> count_list (blocks_of rid m) b" if "0 < refs p b"
      using that assms(7) by (cases "b \<in> set new") (auto simp: m'_def)
    show "b \<in> set (tail rid m) \<or> refs p b = 0 \<and> keys_of q b = {} \<and> count_list (blocks_of rid m') b \<le> 1" if "b \<in> set (tail rid m')"
    proof (cases "b \<in> set new")
      case True
      then show ?thesis using assms(7) z [OF True] count_le_1 [OF assms(5), of b] by (simp add: m'_def)
    next
      case False
      then show ?thesis using that by (auto simp: tail_def m'_def cached_upto_def drop_append split: option.splits dest: in_set_dropD)
    qed
  qed
  then show ?thesis by (simp add: m'_def)
qed

lemma append_new_step:
  assumes "pool_ok p" "mgr_ok p m" "counted m p" "k \<le> nfree p"
  shows "\<exists>new p'. get_new_blocks k p = Inr (new, p') \<and> nfree p' = nfree p - k \<and> length new = k \<and>
    retable rid m p (note_new_blocks new (set_blocks rid (blocks_of rid m @ new) m)) p'"
proof -
  obtain new q where q: "get_new_blocks k p = Inr (new, q)" "quiet p q" "nfree q = nfree p - k" "length new = k" "distinct new"
    "set new \<subseteq> {1 ..< num_gpu_blocks p}" "\<forall>b \<in> set new. refs p b = 0 \<and> keys_of q b = {}"
    "\<forall>c. refs q c = refs p c + int (count_list new c)"
    using new_blocks_ok [OF assms(1,4)] by blast
  then show ?thesis using new_tail_retable [OF assms(1-3) q(2,5-8)] by blast
qed

text \<open>The blocks that the tokens of an external connector take.\<close>

definition external_blocks :: "string \<Rightarrow> nat \<Rightarrow> nat \<Rightarrow> manager \<Rightarrow> nat" where
  "external_blocks rid n ext m =
     (let tot = n + ext; k = get_num_skipped_tokens (mgr_kind m) tot
      in if mgr_kind m = CrossAttention \<or> (if k > 0 then min (tot - k) ext else ext) = 0 then 0
         else blocks_for tot (mgr_block_size m) - length (blocks_of rid m))"

lemma external_step:
  assumes "pool_ok p" "mgr_ok p m" "counted m p" "external_blocks rid n ext m \<le> nfree p"
  shows "\<exists>m' p'. allocate_external_computed_blocks rid n ext (m, p) = Inr (m', p') \<and> retable rid m p m' p' \<and>
    nfree p' = nfree p - external_blocks rid n ext m \<and> num_cached_block m' = num_cached_block m \<and>
    partial_hit_reqs m' = partial_hit_reqs m \<and>
    (\<exists>new. blocks_of rid m' = blocks_of rid m @ new \<and> length new = external_blocks rid n ext m)"
proof (cases "mgr_kind m = CrossAttention \<or>
    (if get_num_skipped_tokens (mgr_kind m) (n + ext) > 0 then min (n + ext - get_num_skipped_tokens (mgr_kind m) (n + ext)) ext else ext) = 0")
  case True
  then show ?thesis using retable_refl [OF assms(1,2), of rid]
    by (intro exI [of _ m] exI [of _ p]) (auto simp: allocate_external_computed_blocks_def external_blocks_def Let_def)
next
  case False
  let ?k = "blocks_for (n + ext) (mgr_block_size m) - length (blocks_of rid m)"
  have k: "external_blocks rid n ext m = ?k" using False by (simp add: external_blocks_def Let_def)
  then obtain new p' where q: "get_new_blocks ?k p = Inr (new, p')" "nfree p' = nfree p - ?k" "length new = ?k"
    "retable rid m p (note_new_blocks new (set_blocks rid (blocks_of rid m @ new) m)) p'"
    using append_new_step [OF assms(1-3), of ?k rid] assms(4) by auto
  have "allocate_external_computed_blocks rid n ext (m, p) = Inr (note_new_blocks new (set_blocks rid (blocks_of rid m @ new) m), p')"
    using False q(1) by (simp add: allocate_external_computed_blocks_def Let_def res_simps)
  then show ?thesis using q k by simp
qed

lemma retable_trans:
  assumes "retable rid m p m1 p1" "retable rid m1 p1 m2 p2" "counted m p" "pool_ok p" "\<And>b. refs p b \<le> refs p1 b"
  shows "retable rid m p m2 p2"
proof (rule retableI)
  note D1 = retableD [OF assms(1)] and D2 = retableD [OF assms(2)]
  show "quiet p p2" using quiet_trans [OF D1(1) D2(1)] .
  show "mgr_ok p2 m2" using D2(2) .
  show "only rid m m2" using only_trans [OF D1(3) D2(3)] .
  fix b :: nat
  assume b: "b \<noteq> 0"
  show "refs p2 b + int (mgr_refs m b) = refs p b + int (mgr_refs m2 b)" using D1(4) [OF b] D2(4) [OF b] by linarith
  show "count_list (blocks_of rid m2) b \<le> count_list (blocks_of rid m) b" if "keys_of p b = {}" "0 < refs p b"
    using D1(5) [OF b that] D2(5) [OF b quietD(5) [OF D1(1) that(1)]] that(2) assms(5) [of b] by linarith
  assume t: "b \<in> set (tail rid m2)"
  consider "b \<in> set (tail rid m1)" | "refs p1 b = 0" "keys_of p2 b = {}" "count_list (blocks_of rid m2) b \<le> 1"
    using D2(6) [OF t b] by blast
  then show "b \<in> set (tail rid m) \<or> refs p b = 0 \<and> keys_of p2 b = {} \<and> count_list (blocks_of rid m2) b \<le> 1"
  proof cases
    case 1
    have "b \<in> set (blocks_of rid m1)" using 1 by (auto simp: tail_def dest: in_set_dropD)
    then have pos: "0 < refs p1 b"
      using counted_blocks [OF counted_retable [OF assms(1,3)] b, of rid] count_list_0_iff [of "blocks_of rid m1" b] by linarith
    consider "b \<in> set (tail rid m)" | "refs p b = 0" "keys_of p1 b = {}" "count_list (blocks_of rid m1) b \<le> 1"
      using D1(6) [OF 1 b] by blast
    then show ?thesis
    proof cases
      case 2
      then show ?thesis using D2(5) [OF b 2(2) pos] quietD(5) [OF D2(1) 2(2)] by linarith
    qed blast
  next
    case 2
    have "b \<in> set (blocks_of rid m2)" using t by (auto simp: tail_def dest: in_set_dropD)
    then have "b < num_gpu_blocks p" using mgr_okD(8) [OF D2(2)] quietD(2) [OF quiet_trans [OF D1(1) D2(1)]] by simp
    then have "0 \<le> refs p b" using pool_ok_block(2) [OF assms(4) _ b] by simp
    then show ?thesis using 2 assms(5) [of b] by simp
  qed
qed

text \<open>The manager after a partial hit was redirected to a copy.\<close>

definition redirected :: "string \<Rightarrow> nat \<Rightarrow> nat \<Rightarrow> nat \<Rightarrow> manager \<Rightarrow> manager" where
  "redirected rid idx src cow m = m\<lparr>partial_hit_reqs := dict_del rid (partial_hit_reqs m),
     req_to_blocks := dict_set rid ((blocks_of rid m)[idx := cow]) (req_to_blocks m),
     pending_cow_copies := pending_cow_copies m @ [(src, cow)], new_block_ids := new_block_ids m @ [cow]\<rparr>"

lemma redirected_blocks: "blocks_of x (redirected rid idx src cow m) = (if x = rid then (blocks_of rid m)[idx := cow] else blocks_of x m)"
  by (simp add: redirected_def blocks_of_def update_conv')

lemma redirected_list: "list_refs (redirected rid idx src cow m) b = list_refs (set_blocks rid ((blocks_of rid m)[idx := cow]) m) b"
  by (simp add: redirected_def list_refs_def set_blocks_def)

lemma redirected_only: "dict_ok (req_to_blocks m) \<Longrightarrow> only rid m (redirected rid idx src cow m)"
  using list_refs_set [of m rid "(blocks_of rid m)[idx := cow]"]
  by (simp add: only_def redirected_blocks redirected_list) (simp add: redirected_def same_config_def delete_conv')

lemma redirected_refs:
  assumes "dict_ok (req_to_blocks m)" "idx < length (blocks_of rid m)" "blocks_of rid m ! idx = src"
  shows "mgr_refs (redirected rid idx src cow m) b = mgr_refs m b + (if b = cow then 2 else 0)"
proof -
  have "cow_refs (redirected rid idx src cow m) b = cow_refs m b + (if b = src then 1 else 0) + (if b = cow then 1 else 0)"
    by (simp add: redirected_def cow_refs_def)
  then show ?thesis
    using list_refs_set [OF assms(1), of rid "(blocks_of rid m)[idx := cow]" b] count_list_update [OF assms(2), of cow b] assms(3)
    by (auto simp: mgr_refs_def redirected_list split: if_splits)
qed

lemma redirected_ok:
  assumes "mgr_ok p m" "cow < num_gpu_blocks p" "quiet p q"
  shows "mgr_ok q (redirected rid idx src cow m)"
proof -
  let ?m' = "redirected rid idx src cow m"
  have d: "dict_ok (req_to_blocks ?m')" "dict_ok (num_cached_block ?m')" "dict_ok (partial_hit_reqs ?m')"
    using mgr_okD(1-3) [OF assms(1)] by (simp_all add: redirected_def distinct_update distinct_delete)
  have "partial_ok ?m'" using mgr_okD(7) [OF assms(1)] unfolding partial_ok_def redirected_blocks
    by (auto simp: redirected_def delete_conv' cached_upto_def)
  moreover have "b < num_gpu_blocks q" if "b \<in> set (blocks_of x ?m')" for b x
    using that mgr_okD(8) [OF assms(1), of b] assms(2) quietD(2) [OF assms(3)] set_update_subset_insert [of "blocks_of rid m" idx cow]
    by (auto simp: redirected_blocks split: if_splits)
  ultimately show ?thesis using d mgr_okD(4-6) [OF assms(1)] quietD(4) [OF assms(3)]
    by (simp add: mgr_ok_def) (simp add: redirected_def)
qed

lemma redirected_retable:
  assumes "pool_ok p" "mgr_ok p m" "counted m p" "dict_get (partial_hit_reqs m) rid = Some (idx, src)" "quiet p q"
    "cow \<in> {1 ..< num_gpu_blocks p}" "refs p cow = 0" "keys_of q cow = {}" "\<forall>c. refs q c = refs p c + (if c = cow then 2 else 0)"
  shows "retable rid m p (redirected rid idx src cow m) q"
proof -
  let ?m' = "redirected rid idx src cow m" and ?bs = "blocks_of rid m"
  have pt: "idx < length ?bs" "?bs ! idx = src" "cached_upto rid m = idx"
    using mgr_okD(7) [OF assms(2)] assms(4) unfolding partial_ok_def by blast+
  have "count_list ?bs cow = 0" using counted_blocks [OF assms(3), of cow rid] assms(6,7) by force
  then have c1: "count_list (?bs[idx := cow]) cow \<le> Suc 0"
    using count_list_update [OF pt(1), of cow cow] by (simp add: of_bool_def split: if_splits)
  show ?thesis
  proof (rule retableI [OF assms(5) redirected_ok redirected_only])
    show "mgr_ok p m" "cow < num_gpu_blocks p" "quiet p q" "dict_ok (req_to_blocks m)" using assms(2,5,6) mgr_okD(1) by auto
    fix b :: nat
    show "refs q b + int (mgr_refs m b) = refs p b + int (mgr_refs ?m' b)"
      using redirected_refs [OF mgr_okD(1) [OF assms(2)] pt(1,2), of cow b] assms(9) by simp
    show "count_list (blocks_of rid ?m') b \<le> count_list ?bs b" if "0 < refs p b"
    proof -
      have "cow \<noteq> b" using that assms(7) by auto
      then show ?thesis using count_list_update [OF pt(1), of cow b] by (simp add: redirected_blocks of_bool_def split: if_splits)
    qed
    assume t: "b \<in> set (tail rid ?m')"
    have "tail rid ?m' = drop idx (?bs[idx := cow])"
      using pt(3) by (simp add: tail_def redirected_blocks) (simp add: redirected_def delete_conv' cached_upto_def)
    also have "\<dots> = cow # drop (Suc idx) ?bs" using pt(1) by (simp add: Cons_nth_drop_Suc [symmetric])
    finally have "b = cow \<or> b \<in> set (tail rid m)" using t assms(4) by (auto simp: tail_def)
    then show "b \<in> set (tail rid m) \<or> refs p b = 0 \<and> keys_of q b = {} \<and> count_list (blocks_of rid ?m') b \<le> 1"
      using assms(7,8) c1 by (auto simp: redirected_blocks split: if_splits)
  qed
qed

lemma redirect_step:
  assumes "pool_ok p" "mgr_ok p m" "counted m p" "dict_get (partial_hit_reqs m) rid \<noteq> None \<longrightarrow> 1 \<le> nfree p"
  shows "\<exists>cow m' p'. redirect_partial_hit rid (m, p) = Inr (cow, m', p') \<and> retable rid m p m' p' \<and>
    nfree p' = nfree p - (if dict_get (partial_hit_reqs m) rid = None then 0 else 1) \<and> (\<forall>b. refs p b \<le> refs p' b) \<and>
    dict_get (partial_hit_reqs m') rid = None \<and> length (blocks_of rid m') = length (blocks_of rid m) \<and>
    num_cached_block m' = num_cached_block m \<and> (dict_get (partial_hit_reqs m) rid = None \<longrightarrow> blocks_of rid m' = blocks_of rid m)"
proof (cases "dict_get (partial_hit_reqs m) rid")
  case None
  then show ?thesis using retable_refl [OF assms(1,2)] by (simp add: redirect_partial_hit_def)
next
  case (Some pr)
  then obtain idx src where is_eq: "dict_get (partial_hit_reqs m) rid = Some (idx, src)" by (cases pr) simp
  then have pt: "idx < length (blocks_of rid m)" "blocks_of rid m ! idx = src" "src \<noteq> 0"
    using mgr_okD(7) [OF assms(2)] unfolding partial_ok_def by blast+
  obtain new p1 where q: "get_new_blocks 1 p = Inr (new, p1)" "quiet p p1" "nfree p1 = nfree p - 1" "length new = 1"
    "set new \<subseteq> {1 ..< num_gpu_blocks p}" "\<forall>b \<in> set new. refs p b = 0 \<and> keys_of p1 b = {}"
    "\<forall>c. refs p1 c = refs p c + int (count_list new c)"
    using new_blocks_ok [OF assms(1), of 1] assms(4) is_eq by auto
  then obtain cow where new: "new = [cow]" by (metis One_nat_def Suc_length_conv length_0_conv)
  have cow: "cow \<in> {1 ..< num_gpu_blocks p}" "refs p cow = 0" "keys_of p1 cow = {}" using q(5,6) new by auto
  let ?q = "upd_block cow (\<lambda>blk. blk\<lparr>ref_cnt := ref_cnt blk + 1\<rparr>) p1"
  have "0 < refs p1 cow" "cow < num_gpu_blocks p1" using q(7) new cow quietD(2) [OF q(2)] by auto
  then have b: "quiet p1 ?q" "nfree ?q = nfree p1" "refs ?q c = refs p1 c + (if c = cow then 1 else 0)" "keys_of ?q c = keys_of p1 c" for c
    using bump_ok [OF quietD(1) [OF q(2)], of cow] cow(1) by auto
  have rf: "\<forall>c. refs ?q c = refs p c + (if c = cow then 2 else 0)" using b(3) q(7) new by simp
  have rt: "retable rid m p (redirected rid idx src cow m) ?q"
    by (rule redirected_retable [OF assms(1-3) is_eq quiet_trans [OF q(2) b(1)] cow(1,2) _ rf]) (simp add: b(4) cow(3))
  have "src \<in> set (blocks_of rid m)" using pt by auto
  then have "src < num_gpu_blocks p" "0 < count_list (blocks_of rid m) src"
    using mgr_okD(8) [OF assms(2)] count_list_0_iff [of "blocks_of rid m" src] by auto
  then have src: "\<not> is_null (block_at p1 src)" "0 < refs p1 src"
    using pool_ok_block(1) [OF quietD(1) [OF q(2)], of src] quietD(2) [OF q(2)] pt(3) counted_blocks [OF assms(3) pt(3), of rid] q(7)
    by auto
  have "redirect_partial_hit rid (m, p) = Inr ([cow], redirected rid idx src cow m, ?q)"
    using q(1) new pt src is_eq
    by (simp add: redirect_partial_hit_def apply_cow_def Let_def res_simps redirected_def set_blocks_def blocks_of_def)
  then show ?thesis using rt b(2) q(3) rf is_eq
    by (simp add: redirected_blocks) (simp add: redirected_def delete_conv')
qed

text \<open>The blocks that the slots of \<open>ntoks\<close> tokens take.\<close>

definition slot_blocks :: "string \<Rightarrow> nat \<Rightarrow> manager \<Rightarrow> nat" where
  "slot_blocks rid ntoks m = (if dict_get (partial_hit_reqs m) rid = None then 0 else 1) +
     (blocks_for ntoks (mgr_block_size m) - length (blocks_of rid m))"

lemma entry_retable: "pool_ok p \<Longrightarrow> mgr_ok p m \<Longrightarrow> retable rid m p (set_blocks rid (blocks_of rid m) m) p"
  by (rule retable_entry) (use retable_refl [of p "set_blocks rid (blocks_of rid m) m"] entry_created(1) in blast)+

lemma mgr_allocate_step:
  assumes "pool_ok p" "mgr_ok p m" "counted m p" "slot_blocks rid ntoks m \<le> nfree p"
  shows "\<exists>new m' p'. mgr_allocate_new_blocks rid ntoks (m, p) = Inr (new, m', p') \<and> retable rid m p m' p' \<and>
    nfree p' = nfree p - slot_blocks rid ntoks m \<and> num_cached_block m' = num_cached_block m \<and>
    dict_get (partial_hit_reqs m') rid = None \<and>
    length (blocks_of rid m') = max (length (blocks_of rid m)) (blocks_for ntoks (mgr_block_size m)) \<and>
    (dict_get (partial_hit_reqs m) rid = None \<longrightarrow> (\<exists>new. blocks_of rid m' = blocks_of rid m @ new))"
proof -
  have one: "dict_get (partial_hit_reqs m) rid \<noteq> None \<longrightarrow> 1 \<le> nfree p" using assms(4) by (auto simp: slot_blocks_def)
  obtain cow m1 p1 where r: "redirect_partial_hit rid (m, p) = Inr (cow, m1, p1)" "retable rid m p m1 p1"
    "nfree p1 = nfree p - (if dict_get (partial_hit_reqs m) rid = None then 0 else 1)" "\<forall>b. refs p b \<le> refs p1 b"
    "dict_get (partial_hit_reqs m1) rid = None" "length (blocks_of rid m1) = length (blocks_of rid m)"
    "num_cached_block m1 = num_cached_block m" "dict_get (partial_hit_reqs m) rid = None \<longrightarrow> blocks_of rid m1 = blocks_of rid m"
    using redirect_step [OF assms(1-3) one] by (elim exE conjE) (rule that)
  note ok1 = quietD(1) [OF retableD(1) [OF r(2)]] retableD(2) [OF r(2)] counted_retable [OF r(2) assms(3)]
  have bs1: "mgr_block_size m1 = mgr_block_size m" using same_config_eq(2) [OF onlyD(1) [OF retableD(3) [OF r(2)]]] .
  let ?k = "blocks_for ntoks (mgr_block_size m1) - length (blocks_of rid m1)"
  have k: "nfree p1 - ?k = nfree p - slot_blocks rid ntoks m" "?k \<le> nfree p1"
    using assms(4) r(3,6) bs1 by (auto simp: slot_blocks_def split: if_splits)
  show ?thesis
  proof (cases "?k = 0")
    case True
    have "retable rid m p (set_blocks rid (blocks_of rid m1) m1) p1"
      by (rule retable_trans [OF r(2) entry_retable [OF ok1(1,2)] assms(3,1)]) (use r(4) in simp)
    then show ?thesis using True r k bs1 by (simp add: mgr_allocate_new_blocks_def res_simps Let_def)
  next
    case False
    obtain new p2 where q: "get_new_blocks ?k p1 = Inr (new, p2)" "nfree p2 = nfree p1 - ?k" "length new = ?k"
      "retable rid m1 p1 (note_new_blocks new (set_blocks rid (blocks_of rid m1 @ new) m1)) p2"
      using append_new_step [OF ok1 k(2), of rid] by blast
    have "retable rid m p (note_new_blocks new (set_blocks rid (blocks_of rid m1 @ new) m1)) p2"
      by (rule retable_trans [OF r(2) q(4) assms(3,1)]) (use r(4) in simp)
    then show ?thesis using False r k q(1-3) bs1 by (simp add: mgr_allocate_new_blocks_def res_simps Let_def)
  qed
qed

end
