(* ===== verification/Manager_Loops.thy ===== *)
theory Manager_Loops
  imports Manager_Steps
begin

text \<open>
  The loops of the coordinator over its managers: the books of the pool and of all managers stay balanced when one manager after the
  other performs an operation that keeps them balanced on its own.
\<close>

section \<open>The books of all managers\<close>

definition held_by :: "manager list \<Rightarrow> nat \<Rightarrow> nat" where
  "held_by ms b = (\<Sum>m \<leftarrow> ms. mgr_refs m b)"

definition listed :: "manager list \<Rightarrow> nat \<Rightarrow> nat" where
  "listed ms b = (\<Sum>m \<leftarrow> ms. list_refs m b)"

text \<open>
  \<open>books loose ms p\<close>: the reference count of a block is the number of its occurrences in the tables plus the references \<open>loose\<close>
  that were handed out; a block behind the cached ones has no key and is in one table once.
\<close>

definition books :: "(nat \<Rightarrow> nat) \<Rightarrow> manager list \<Rightarrow> block_pool \<Rightarrow> bool" where
  "books loose ms p \<longleftrightarrow> pool_ok p \<and> (\<forall>m \<in> set ms. mgr_ok p m) \<and>
     (\<forall>b. b \<noteq> 0 \<longrightarrow> refs p b = int (loose b + held_by ms b)) \<and>
     (\<forall>m \<in> set ms. \<forall>rid. \<forall>b \<in> set (tail rid m). b \<noteq> 0 \<longrightarrow> keys_of p b = {} \<and> listed ms b \<le> 1)"

lemma booksD:
  assumes "books loose ms p"
  shows "pool_ok p" "m \<in> set ms \<Longrightarrow> mgr_ok p m" "b \<noteq> 0 \<Longrightarrow> refs p b = int (loose b + held_by ms b)"
    "m \<in> set ms \<Longrightarrow> b \<in> set (tail rid m) \<Longrightarrow> b \<noteq> 0 \<Longrightarrow> keys_of p b = {}"
    "m \<in> set ms \<Longrightarrow> b \<in> set (tail rid m) \<Longrightarrow> b \<noteq> 0 \<Longrightarrow> listed ms b \<le> 1"
  using assms by (auto simp: books_def)

lemma booksI:
  assumes "pool_ok p" "\<And>m. m \<in> set ms \<Longrightarrow> mgr_ok p m" "\<And>b. b \<noteq> 0 \<Longrightarrow> refs p b = int (loose b + held_by ms b)"
    "\<And>m rid b. m \<in> set ms \<Longrightarrow> b \<in> set (tail rid m) \<Longrightarrow> b \<noteq> 0 \<Longrightarrow> keys_of p b = {} \<and> listed ms b \<le> 1"
  shows "books loose ms p"
  using assms by (simp add: books_def)

lemma held_by_app [simp]: "held_by (xs @ ys) b = held_by xs b + held_by ys b" "held_by (m # ms) b = mgr_refs m b + held_by ms b"
  by (simp_all add: held_by_def)

lemma listed_app [simp]: "listed (xs @ ys) b = listed xs b + listed ys b" "listed (m # ms) b = list_refs m b + listed ms b"
  by (simp_all add: listed_def)

lemma list_refs_le: "list_refs m b \<le> mgr_refs m b"
  by (simp add: mgr_refs_def)

lemma listed_le_held: "listed ms b \<le> held_by ms b"
  unfolding listed_def held_by_def by (rule sum_list_mono) (rule list_refs_le)

lemma mgr_refs_le_held: "m \<in> set ms \<Longrightarrow> mgr_refs m b \<le> held_by ms b"
  unfolding held_by_def by (rule member_le_sum_list) auto

lemma list_refs_le_listed: "m \<in> set ms \<Longrightarrow> list_refs m b \<le> listed ms b"
  unfolding listed_def by (rule member_le_sum_list) auto

lemma books_counted:
  assumes "books loose ms p" "m \<in> set ms"
  shows "counted m p"
  unfolding counted_def
proof (intro allI impI)
  fix b :: nat
  assume "b \<noteq> 0"
  then show "int (mgr_refs m b) \<le> refs p b" using booksD(3) [OF assms(1)] mgr_refs_le_held [OF assms(2), of b] by simp
qed

lemma tail_listed:
  assumes "b \<in> set (tail rid m)"
  shows "0 < list_refs m b"
proof -
  have b: "b \<in> set (blocks_of rid m)" using assms by (auto simp: tail_def dest: in_set_dropD)
  then have "0 < count_list (blocks_of rid m) b" using count_list_0_iff [of "blocks_of rid m" b] by simp
  then show ?thesis using list_refs_mem [OF b] by linarith
qed

lemma mgr_ok_quiet: "mgr_ok p m \<Longrightarrow> quiet p q \<Longrightarrow> mgr_ok q m"
  by (simp add: mgr_ok_def quietD)

lemma books_step:
  assumes "books loose (xs @ m # ys) p" "retable rid m p m' p'"
  shows "books loose (xs @ m' # ys) p'"
proof (rule booksI)
  let ?ms = "xs @ m # ys"
  note D = retableD [OF assms(2)]
  show "pool_ok p'" using quietD(1) [OF D(1)] .
  show "mgr_ok p' n" if "n \<in> set (xs @ m' # ys)" for n
    using that D(2) mgr_ok_quiet [OF booksD(2) [OF assms(1)] D(1)] by auto
  show "refs p' b = int (loose b + held_by (xs @ m' # ys) b)" if "b \<noteq> 0" for b
    using booksD(3) [OF assms(1) that] D(4) [OF that] by simp
  fix n x b
  assume n: "n \<in> set (xs @ m' # ys)" "b \<in> set (tail x n)" "b \<noteq> 0"
  let ?goal = "keys_of p' b = {} \<and> listed (xs @ m' # ys) b \<le> 1"
  have l: "list_refs m' b + count_list (blocks_of rid m) b = list_refs m b + count_list (blocks_of rid m') b"
    using onlyD(5) [OF D(3)] .
  have old: ?goal if v: "v \<in> set ?ms" "b \<in> set (tail x v)" for v
  proof -
    have k: "keys_of p b = {}" "listed ?ms b \<le> 1" using booksD(4,5) [OF assms(1) v n(3)] by blast+
    have "0 < listed ?ms b" using tail_listed [OF v(2)] list_refs_le_listed [OF v(1), of b] by linarith
    then have "0 < refs p b" using booksD(3) [OF assms(1) n(3)] listed_le_held [of ?ms b] by linarith
    then have "list_refs m' b \<le> list_refs m b" using D(5) [OF n(3) k(1)] l by simp
    then show ?thesis using k quietD(5) [OF D(1) k(1)] by simp
  qed
  show ?goal
  proof (cases "n = m' \<and> x = rid \<and> b \<notin> set (tail rid m)")
    case True
    then have f: "refs p b = 0" "keys_of p' b = {}" "count_list (blocks_of rid m') b \<le> 1" using D(6) n(2,3) by blast+
    then have "held_by ?ms b = 0" using booksD(3) [OF assms(1) n(3)] by simp
    then have "listed ?ms b = 0" using listed_le_held [of ?ms b] by simp
    then show ?thesis using l f by simp
  next
    case False
    then have "n \<in> set xs \<union> set ys \<or> n = m' \<and> b \<in> set (tail x m)" using n(1,2) onlyD(4) [OF D(3), of x] by (cases "x = rid") auto
    then show ?thesis using old n(2) by auto
  qed
qed

section \<open>A loop over the managers\<close>

fun loop_cost :: "(nat \<Rightarrow> manager \<Rightarrow> nat) \<Rightarrow> nat \<Rightarrow> manager list \<Rightarrow> nat" where
  "loop_cost f i [] = 0"
| "loop_cost f i (m # ms) = f i m + loop_cost f (Suc i) ms"

fun each :: "(nat \<Rightarrow> manager \<Rightarrow> bool) \<Rightarrow> nat \<Rightarrow> manager list \<Rightarrow> bool" where
  "each P i [] = True"
| "each P i (m # ms) = (P i m \<and> each P (Suc i) ms)"

fun each2 :: "(nat \<Rightarrow> manager \<Rightarrow> manager \<Rightarrow> bool) \<Rightarrow> nat \<Rightarrow> manager list \<Rightarrow> manager list \<Rightarrow> bool" where
  "each2 P i [] [] = True"
| "each2 P i (m # ms) (n # ns) = (P i m n \<and> each2 P (Suc i) ms ns)"
| "each2 P i _ _ = False"

lemma loop_cost_mono: "each (\<lambda>i m. f i m \<le> g i m) k ms \<Longrightarrow> loop_cost f k ms \<le> loop_cost g k ms"
  by (induction ms arbitrary: k) (auto simp: add_mono)

lemma each_mono: "each P k ms \<Longrightarrow> (\<And>i m. P i m \<Longrightarrow> Q i m) \<Longrightarrow> each Q k ms"
  by (induction ms arbitrary: k) auto

lemma each_True: "(\<And>i m. P i m) \<Longrightarrow> each P k ms"
  by (induction ms arbitrary: k) auto

lemma each_set: "(\<And>i m. m \<in> set ms \<Longrightarrow> P i m) \<Longrightarrow> each P k ms"
  by (induction ms arbitrary: k) auto

lemma each_conj: "each P k ms \<Longrightarrow> each Q k ms \<Longrightarrow> each (\<lambda>i m. P i m \<and> Q i m) k ms"
  by (induction ms arbitrary: k) auto

lemma each_nth: "each P k ms \<longleftrightarrow> (\<forall>j < length ms. P (k + j) (ms ! j))"
  by (induction ms arbitrary: k) (auto simp: nth_Cons' less_Suc_eq_0_disj all_conj_distrib)

lemma each2_nth: "each2 P k ms ns \<longleftrightarrow> length ms = length ns \<and> (\<forall>j < length ms. P (k + j) (ms ! j) (ns ! j))"
  by (induction P k ms ns rule: each2.induct) (auto simp: less_Suc_eq_0_disj)

lemma each2_each:
  assumes "each2 P k ms ns" "each Q k ms" "\<And>i m n. P i m n \<Longrightarrow> Q i m \<Longrightarrow> R i n"
  shows "each R k ns"
  using assms unfolding each_nth each2_nth by metis

text \<open>
  An operation of one manager for a request: it returns when its precondition holds and the pool has the blocks it costs, keeps the
  books, and what it does to the pool keeps the preconditions and the costs of the other managers.
\<close>

locale manager_loop =
  fixes rid :: string
    and f :: "nat \<Rightarrow> 's \<Rightarrow> manager \<times> block_pool \<Rightarrow> ('s \<times> manager \<times> block_pool) res"
    and pre :: "nat \<Rightarrow> manager \<Rightarrow> block_pool \<Rightarrow> bool"
    and cost :: "nat \<Rightarrow> manager \<Rightarrow> block_pool \<Rightarrow> nat"
    and rel :: "block_pool \<Rightarrow> block_pool \<Rightarrow> bool"
    and post :: "nat \<Rightarrow> manager \<Rightarrow> manager \<Rightarrow> bool"
  assumes op: "pool_ok p \<Longrightarrow> mgr_ok p m \<Longrightarrow> counted m p \<Longrightarrow> pre i m p \<Longrightarrow> cost i m p \<le> nfree p \<Longrightarrow>
      \<exists>s' m' p'. f i s (m, p) = Inr (s', m', p') \<and> retable rid m p m' p' \<and> rel p p' \<and> nfree p \<le> nfree p' + cost i m p \<and> post i m m'"
    and pre_stable: "quiet p p' \<Longrightarrow> rel p p' \<Longrightarrow> pre i m p \<Longrightarrow> pre i m p'"
    and cost_stable: "rel p p' \<Longrightarrow> cost i m p' \<le> cost i m p"
    and rel_refl: "rel p p"
    and rel_trans: "rel p p' \<Longrightarrow> rel p' p'' \<Longrightarrow> rel p p''"
begin

lemma loop:
  assumes "books loose (xs @ ms) p" "each (\<lambda>i m. pre i m p) k ms" "loop_cost (\<lambda>i m. cost i m p) k ms \<le> nfree p"
  shows "\<exists>s' ms' p'. mgr_loop f k s ms p = Inr (s', ms', p') \<and> books loose (xs @ ms') p' \<and> quiet p p' \<and> rel p p' \<and>
    nfree p \<le> nfree p' + loop_cost (\<lambda>i m. cost i m p) k ms \<and> each2 (\<lambda>i m m'. post i m m' \<and> only rid m m') k ms ms'"
  using assms
proof (induction ms arbitrary: k s xs p)
  case Nil
  then show ?case using rel_refl quiet_refl [OF booksD(1)] by auto
next
  case (Cons m ms)
  have m: "m \<in> set (xs @ m # ms)" by simp
  have "cost k m p \<le> nfree p" using Cons.prems(3) by simp
  then obtain s1 m1 p1 where o: "f k s (m, p) = Inr (s1, m1, p1)" "retable rid m p m1 p1" "rel p p1"
    "nfree p \<le> nfree p1 + cost k m p" "post k m m1"
    using op [OF booksD(1) [OF Cons.prems(1)] booksD(2) [OF Cons.prems(1) m] books_counted [OF Cons.prems(1) m], of k s] Cons.prems(2)
    by auto
  have b1: "books loose ((xs @ [m1]) @ ms) p1" using books_step [OF Cons.prems(1) o(2)] by simp
  have c: "loop_cost (\<lambda>i m. cost i m p1) j ms \<le> loop_cost (\<lambda>i m. cost i m p) j ms" for j
    by (rule loop_cost_mono) (rule each_True, rule cost_stable [OF o(3)])
  have "each (\<lambda>i m. pre i m p1) (Suc k) ms"
    using Cons.prems(2) each_mono [of "\<lambda>i m. pre i m p" "Suc k" ms] pre_stable [OF retableD(1) [OF o(2)] o(3)] by simp
  moreover have "loop_cost (\<lambda>i m. cost i m p1) (Suc k) ms \<le> nfree p1" using c [of "Suc k"] Cons.prems(3) o(4) by simp
  ultimately obtain s2 ms2 p2 where r: "mgr_loop f (Suc k) s1 ms p1 = Inr (s2, ms2, p2)" "books loose ((xs @ [m1]) @ ms2) p2" "quiet p1 p2"
    "rel p1 p2" "nfree p1 \<le> nfree p2 + loop_cost (\<lambda>i m. cost i m p1) (Suc k) ms"
    "each2 (\<lambda>i m m'. post i m m' \<and> only rid m m') (Suc k) ms ms2"
    using Cons.IH [OF b1, of "Suc k" s1] by blast
  have "mgr_loop f k s (m # ms) p = Inr (s2, m1 # ms2, p2)" using o(1) r(1) by (simp add: res_simps)
  then show ?case
    using r o quiet_trans [OF retableD(1) [OF o(2)] r(3)] rel_trans [OF o(3) r(4)] c [of "Suc k"] retableD(3) [OF o(2)] by auto
qed

lemma over:
  assumes "books loose (managers c) (coord_pool c)" "each (\<lambda>i m. pre i m (coord_pool c)) 0 (managers c)"
    "loop_cost (\<lambda>i m. cost i m (coord_pool c)) 0 (managers c) \<le> nfree (coord_pool c)"
  shows "\<exists>s' ms p. over_managers f s c = Inr (s', c\<lparr>managers := ms, coord_pool := p\<rparr>) \<and> books loose ms p \<and> quiet (coord_pool c) p \<and>
    rel (coord_pool c) p \<and> nfree (coord_pool c) \<le> nfree p + loop_cost (\<lambda>i m. cost i m (coord_pool c)) 0 (managers c) \<and>
    each2 (\<lambda>i m m'. post i m m' \<and> only rid m m') 0 (managers c) ms"
proof -
  obtain s' ms p where r: "mgr_loop f 0 s (managers c) (coord_pool c) = Inr (s', ms, p)" "books loose ([] @ ms) p"
    "quiet (coord_pool c) p" "rel (coord_pool c) p"
    "nfree (coord_pool c) \<le> nfree p + loop_cost (\<lambda>i m. cost i m (coord_pool c)) 0 (managers c)"
    "each2 (\<lambda>i m m'. post i m m' \<and> only rid m m') 0 (managers c) ms"
    using loop [of loose "[]" "managers c" "coord_pool c" 0 s] assms by auto
  then show ?thesis by (auto simp: over_managers_def res_simps)
qed

end

section \<open>The loops of the coordinator\<close>

definition removed_post :: "string \<Rightarrow> nat \<Rightarrow> nat option \<Rightarrow> manager \<Rightarrow> manager \<Rightarrow> bool" where
  "removed_post rid n np m m' \<longleftrightarrow> nulls_of (blocks_of rid m) (blocks_of rid m') \<and> num_cached_block m' = num_cached_block m \<and>
     partial_hit_reqs m' = partial_hit_reqs m \<and> (\<forall>k < length (blocks_of rid m).
       \<not> unneeded (mgr_kind m) np n (mgr_block_size m) k \<longrightarrow> blocks_of rid m' ! k = blocks_of rid m ! k)"

interpretation skip_loop: manager_loop rid
  "\<lambda>i (_ :: unit) st. bind_res (mgr_remove_skipped_blocks rid n np st) (\<lambda>st'. Inr ((), st'))"
  "\<lambda>i m p. dict_get (partial_hit_reqs m) rid = None" "\<lambda>i m p. 0"
  "\<lambda>p q. nfree p \<le> nfree q \<and> (\<forall>c. keys_of q c = keys_of p c)" "\<lambda>i. removed_post rid n np"
  for rid n np
proof
  fix i s p m
  assume "pool_ok p" "mgr_ok p m" "counted m p" "dict_get (partial_hit_reqs m) rid = None"
  from remove_skipped_step [OF this, of n np]
  show "\<exists>s' m' p'. bind_res (mgr_remove_skipped_blocks rid n np (m, p)) (\<lambda>st'. Inr ((), st')) = Inr (s', m', p') \<and>
    retable rid m p m' p' \<and> (nfree p \<le> nfree p' \<and> (\<forall>c. keys_of p' c = keys_of p c)) \<and> nfree p \<le> nfree p' + 0 \<and> removed_post rid n np m m'"
    unfolding removed_post_def by (elim exE conjE) (simp add: res_simps)
qed auto

interpretation free_loop: manager_loop rid
  "\<lambda>i (_ :: unit) st. bind_res (mgr_free rid st) (\<lambda>st'. Inr ((), st'))"
  "\<lambda>i m p. True" "\<lambda>i m p. 0" "\<lambda>p q. nfree p \<le> nfree q" "\<lambda>i m m'. m' = snd (mgr_pop_blocks_for_free rid m)"
  for rid
proof
  fix i s p m
  assume "pool_ok p" "mgr_ok p m" "counted m p"
  from mgr_free_step [OF this, of rid]
  show "\<exists>s' m' p'. bind_res (mgr_free rid (m, p)) (\<lambda>st'. Inr ((), st')) = Inr (s', m', p') \<and>
    retable rid m p m' p' \<and> nfree p \<le> nfree p' \<and> nfree p \<le> nfree p' + 0 \<and> m' = snd (mgr_pop_blocks_for_free rid m)"
    by (elim exE conjE) (simp add: res_simps)
qed auto

lemma filter_length_mono: "(\<And>x. P x \<Longrightarrow> Q x) \<Longrightarrow> length (filter P xs) \<le> length (filter Q xs)"
  by (induction xs) (auto simp: le_SucI)

text \<open>The free blocks that touching the hits takes from the queue.\<close>

definition hit_cost :: "manager \<Rightarrow> nat \<Rightarrow> nat list \<Rightarrow> block_pool \<Rightarrow> nat" where
  "hit_cost m tot new p = length (filter (\<lambda>b. b \<noteq> 0 \<and> refs p b \<le> 0) (drop (skipped_blocks m tot) new))"

lemma evictable_hit_cost:
  assumes "pool_ok p" "hits_ok n new m p"
  shows "get_num_evictable_blocks p (drop (skipped_blocks m tot) new) = hit_cost m tot new p"
proof -
  have "filter (\<lambda>b. refs p b = 0 \<and> \<not> is_null (block_at p b)) (drop (skipped_blocks m tot) new) =
      filter (\<lambda>b. b \<noteq> 0 \<and> refs p b \<le> 0) (drop (skipped_blocks m tot) new)"
  proof (rule filter_cong [OF refl])
    fix b assume "b \<in> set (drop (skipped_blocks m tot) new)"
    then have "b < num_gpu_blocks p" using hits_okD(1) [OF assms(2) in_set_dropD] by blast
    then show "refs p b = 0 \<and> \<not> is_null (block_at p b) \<longleftrightarrow> b \<noteq> 0 \<and> refs p b \<le> 0" using pool_ok_block [OF assms(1)] by force
  qed
  then show ?thesis by (simp add: get_num_evictable_blocks_def hit_cost_def)
qed

definition local_post :: "string \<Rightarrow> nat \<Rightarrow> nat \<Rightarrow> nat list list \<Rightarrow> nat \<Rightarrow> manager \<Rightarrow> manager \<Rightarrow> bool" where
  "local_post rid n ext new i m m' \<longleftrightarrow> (if mgr_kind m = CrossAttention then m' = m
     else m' = with_hits rid (hit_blocks m (n + ext) (new ! i)) (drop (skipped_blocks m (n + ext)) (new ! i)) n m)"

interpretation local_loop: manager_loop rid
  "\<lambda>i (_ :: unit) st. bind_res (add_local_computed_blocks rid (new ! i) n ext st) (\<lambda>st'. Inr ((), st'))"
  "\<lambda>i m p. (mgr_kind m = CrossAttention \<or> fresh rid m) \<and> hits_ok n (new ! i) m p" "\<lambda>i m p. hit_cost m (n + ext) (new ! i) p"
  "\<lambda>p q. \<forall>c. refs p c \<le> refs q c \<and> keys_of q c = keys_of p c" "local_post rid n ext new"
  for rid n ext new
proof
  fix i s p m
  assume a: "pool_ok p" "mgr_ok p m" and h: "(mgr_kind m = CrossAttention \<or> fresh rid m) \<and> hits_ok n (new ! i) m p"
  from add_local_step [OF a conjunct1 [OF h] conjunct2 [OF h], of ext, unfolded evictable_hit_cost [OF a(1) conjunct2 [OF h]]]
  show "\<exists>s' m' p'. bind_res (add_local_computed_blocks rid (new ! i) n ext (m, p)) (\<lambda>st'. Inr ((), st')) = Inr (s', m', p') \<and>
    retable rid m p m' p' \<and> (\<forall>c. refs p c \<le> refs p' c \<and> keys_of p' c = keys_of p c) \<and>
    nfree p \<le> nfree p' + hit_cost m (n + ext) (new ! i) p \<and> local_post rid n ext new i m m'"
    unfolding local_post_def by (elim exE conjE) (simp add: res_simps)
next
  fix i m p q
  assume "\<forall>c. refs p c \<le> refs q c \<and> keys_of q c = keys_of p c"
  then show "hit_cost m (n + ext) (new ! i) q \<le> hit_cost m (n + ext) (new ! i) p"
    unfolding hit_cost_def by (intro filter_length_mono) (meson order_trans)
  assume "quiet p q" "(mgr_kind m = CrossAttention \<or> fresh rid m) \<and> hits_ok n (new ! i) m p"
  then show "(mgr_kind m = CrossAttention \<or> fresh rid m) \<and> hits_ok n (new ! i) m q"
    using \<open>\<forall>c. refs p c \<le> refs q c \<and> keys_of q c = keys_of p c\<close> by (simp add: hits_ok_def quietD)
qed (simp, metis order_trans)

definition external_post :: "string \<Rightarrow> nat \<Rightarrow> nat \<Rightarrow> manager \<Rightarrow> manager \<Rightarrow> bool" where
  "external_post rid n ext m m' \<longleftrightarrow> num_cached_block m' = num_cached_block m \<and> partial_hit_reqs m' = partial_hit_reqs m \<and>
     (\<exists>new. blocks_of rid m' = blocks_of rid m @ new \<and> length new = external_blocks rid n ext m)"

interpretation external_loop: manager_loop rid
  "\<lambda>i (_ :: unit) st. bind_res (allocate_external_computed_blocks rid n ext st) (\<lambda>st'. Inr ((), st'))"
  "\<lambda>i m p. True" "\<lambda>i m p. external_blocks rid n ext m" "\<lambda>p q. True" "\<lambda>i. external_post rid n ext"
  for rid n ext
proof
  fix i s p m
  assume "pool_ok p" "mgr_ok p m" "counted m p" "external_blocks rid n ext m \<le> nfree p"
  from external_step [OF this]
  show "\<exists>s' m' p'. bind_res (allocate_external_computed_blocks rid n ext (m, p)) (\<lambda>st'. Inr ((), st')) = Inr (s', m', p') \<and>
    retable rid m p m' p' \<and> True \<and> nfree p \<le> nfree p' + external_blocks rid n ext m \<and> external_post rid n ext m m'"
    unfolding external_post_def by (elim exE conjE) (simp add: res_simps)
qed auto

definition slots_for :: "nat \<Rightarrow> nat \<Rightarrow> manager \<Rightarrow> nat" where
  "slots_for ntoks num_encoder m = (if mgr_kind m = CrossAttention then num_encoder else ntoks)"

definition slots_post :: "string \<Rightarrow> nat \<Rightarrow> nat \<Rightarrow> manager \<Rightarrow> manager \<Rightarrow> bool" where
  "slots_post rid ntoks num_encoder m m' \<longleftrightarrow> num_cached_block m' = num_cached_block m \<and> dict_get (partial_hit_reqs m') rid = None \<and>
     length (blocks_of rid m') = max (length (blocks_of rid m)) (blocks_for (slots_for ntoks num_encoder m) (mgr_block_size m)) \<and>
     (dict_get (partial_hit_reqs m) rid = None \<longrightarrow> (\<exists>new. blocks_of rid m' = blocks_of rid m @ new))"

interpretation slots_loop: manager_loop rid
  "\<lambda>i out st. bind_res (mgr_allocate_new_blocks rid (if mgr_kind (fst st) = CrossAttention then num_encoder else ntoks) st)
     (\<lambda>(new, st'). Inr (out @ [new], st'))"
  "\<lambda>i m p. True" "\<lambda>i m p. slot_blocks rid (slots_for ntoks num_encoder m) m" "\<lambda>p q. True" "\<lambda>i. slots_post rid ntoks num_encoder"
  for rid ntoks num_encoder
proof
  fix i p m and s :: "nat list list"
  assume "pool_ok p" "mgr_ok p m" "counted m p" "slot_blocks rid (slots_for ntoks num_encoder m) m \<le> nfree p"
  from mgr_allocate_step [OF this]
  show "\<exists>s' m' p'. bind_res (mgr_allocate_new_blocks rid (if mgr_kind (fst (m, p)) = CrossAttention then num_encoder else ntoks) (m, p))
      (\<lambda>(new, st'). Inr (s @ [new], st')) = Inr (s', m', p') \<and>
    retable rid m p m' p' \<and> True \<and> nfree p \<le> nfree p' + slot_blocks rid (slots_for ntoks num_encoder m) m \<and> slots_post rid ntoks num_encoder m m'"
    unfolding slots_post_def by (elim exE conjE) (simp add: res_simps slots_for_def)
qed auto

end
