(* ===== verification/Manager_Caching.thy ===== *)
theory Manager_Caching
  imports Manager_Loops
begin

text \<open>
  Caching the full blocks of a request in every manager: it always succeeds on the books of the managers, because the blocks behind the
  cached ones have no key and are in one table once, and it keeps the books.
\<close>

lemma list_refs_two:
  assumes "dict_ok (req_to_blocks m)" "x \<noteq> y"
  shows "count_list (blocks_of x m) b + count_list (blocks_of y m) b \<le> list_refs m b"
proof -
  let ?m = "set_blocks x [] m"
  have "count_list (blocks_of y ?m) b \<le> list_refs ?m b"
    using list_refs_mem [of b y ?m] by (cases "b \<in> set (blocks_of y ?m)") simp_all
  then show ?thesis using list_refs_set [OF assms(1), of x "[]" b] assms(2) by simp
qed

lemma count_pos: "b \<in> set xs \<Longrightarrow> 1 \<le> count_list xs b"
  using count_list_0_iff [of xs b] by linarith

lemma count_two: "b \<in> set (take k xs) \<Longrightarrow> b \<in> set (drop k xs) \<Longrightarrow> 2 \<le> count_list xs b"
  using count_pos [of b "take k xs"] count_pos [of b "drop k xs"] count_list_append [of "take k xs" "drop k xs" b] by simp

lemma distinct_count_le: "(\<And>b. count_list xs b \<le> 1) \<Longrightarrow> distinct xs"
proof (induction xs)
  case (Cons x xs)
  have "count_list xs x = 0" using Cons.prems [of x] by simp
  moreover have "count_list xs b \<le> 1" for b using Cons.prems [of b] by (simp split: if_splits)
  ultimately show ?case using Cons.IH by (simp add: count_list_0_iff)
qed simp

text \<open>What the configuration must satisfy for caching in a manager.\<close>

definition cache_cfg :: "block_pool \<Rightarrow> manager \<Rightarrow> bool" where
  "cache_cfg p m \<longleftrightarrow> mgr_kind m \<noteq> CrossAttention \<and> 0 < hash_block_size p \<and> hash_block_size p dvd mgr_block_size m \<and>
     (case mgr_kind m of SlidingWindow w extra \<Rightarrow> scheduler_block_size m mod spec_block_size m = 0
      | ChunkedLocal c \<Rightarrow> True | _ \<Rightarrow> mgr_block_size m = hash_block_size p) \<and>
     0 \<le> kv_cache_group_id m \<and> kv_cache_group_id m < 2 ^ 32"

lemma mask_total:
  assumes "case kind of SlidingWindow w extra \<Rightarrow> align mod bs = 0 | _ \<Rightarrow> True"
  shows "\<exists>bm. reachable_block_mask kind bs i j align eagle ret bounds = Inr bm \<and> (case bm of None \<Rightarrow> True | Some ms \<Rightarrow> length ms = j - i)"
proof (cases kind)
  case (SlidingWindow w extra)
  then show ?thesis using assms by (simp add: reachable_block_mask_def Let_def res_simps split: option.split)
qed (simp_all add: reachable_block_mask_def)

text \<open>The manager after caching the first \<open>n\<close> blocks of a request.\<close>

definition cached_to :: "string \<Rightarrow> nat \<Rightarrow> manager \<Rightarrow> manager" where
  "cached_to rid n m = (set_blocks rid (blocks_of rid m) m)\<lparr>num_cached_block := dict_set rid n (num_cached_block m)\<rparr>"

lemma cached_to_blocks [simp]: "blocks_of x (cached_to rid n m) = blocks_of x m"
  by (simp add: cached_to_def blocks_of_def set_blocks_def update_conv')

lemma cached_to_sel [simp]:
  "partial_hit_reqs (cached_to rid n m) = partial_hit_reqs m" "pending_cow_copies (cached_to rid n m) = pending_cow_copies m"
  "dict_get (num_cached_block (cached_to rid n m)) x = (if x = rid then Some n else dict_get (num_cached_block m) x)"
  by (simp_all add: cached_to_def update_conv')

lemma cached_to_config: "same_config m (cached_to rid n m)"
  by (simp add: same_config_def cached_to_def)

lemma cached_to_tail:
  assumes "dict_get (partial_hit_reqs m) rid = None"
  shows "tail x (cached_to rid n m) = (if x = rid then drop n (blocks_of rid m) else tail x m)"
  using assms by (simp add: tail_def cached_upto_def cong: option.case_cong)

lemma cached_to_refs:
  assumes "mgr_ok p m"
  shows "list_refs (cached_to rid n m) b = list_refs m b" "mgr_refs (cached_to rid n m) b = mgr_refs m b"
proof -
  show "list_refs (cached_to rid n m) b = list_refs m b"
    using entry_created(3) [OF assms, of rid b] by (simp add: cached_to_def list_refs_def)
  then show "mgr_refs (cached_to rid n m) b = mgr_refs m b" by (simp add: mgr_refs_def cow_refs_def)
qed

lemma cached_to_ok:
  assumes "mgr_ok p m" "dict_get (partial_hit_reqs m) rid = None"
  shows "mgr_ok p (cached_to rid n m)"
proof -
  have "mgr_ok p (set_blocks rid (blocks_of rid m) m)" by (rule entry_created(1) [OF assms(1)])
  then have d: "dict_ok (req_to_blocks (cached_to rid n m))" "dict_ok (num_cached_block (cached_to rid n m))"
    using mgr_okD(2) [OF assms(1)] by (simp_all add: cached_to_def mgr_ok_def distinct_update)
  have "partial_ok (cached_to rid n m)"
    using mgr_okD(7) [OF assms(1)] assms(2) unfolding partial_ok_def by (auto simp: cached_upto_def)
  then show ?thesis using assms(1) d cached_to_config [of m rid n] by (simp add: mgr_ok_def same_config_def)
qed

lemma slice_of_tail:
  assumes "dict_get (partial_hit_reqs m) rid = None"
  shows "py_slice (blocks_of rid m) (cached_upto rid m) n = take (n - cached_upto rid m) (tail rid m)"
  using assms by (simp add: py_slice_def tail_def)

text \<open>The pool after an operation on the index of cached blocks that adds keys only to the blocks in \<open>B\<close>.\<close>

definition keyed :: "nat set \<Rightarrow> block_pool \<Rightarrow> block_pool \<Rightarrow> bool" where
  "keyed B p q \<longleftrightarrow> pool_ok q \<and> same_consts p q \<and> nfree q = nfree p \<and> (\<forall>b. refs q b = refs p b) \<and>
     (\<forall>b. b \<notin> B \<longrightarrow> keys_of q b \<subseteq> keys_of p b)"

lemma index_op_keyed:
  assumes "pool_ok p" "index_op p q d N" "fst ` N \<subseteq> B"
  shows "keyed B p q"
proof -
  obtain free where f: "refs_ok p free {}" "nfree p = length free" using assms(1) by (rule pool_okE)
  have i: "index_ok q" "index_frame p q" using assms(2) by (simp_all add: index_op_def)
  have r: "refs_ok q free {}" using refs_ok_frame [OF i(2) f(1)] .
  have "keys_of q b \<subseteq> keys_of p b" if "b \<notin> B" for b using assms(2,3) that by (force simp: index_op_def)
  then show ?thesis using i r refs_ok_length(3) [OF r] f(2) by (auto simp: keyed_def pool_ok_def index_frame_def)
qed

lemma books_cached:
  assumes "books loose (xs @ m # ys) p" "keyed (set (py_slice (blocks_of rid m) (cached_upto rid m) n)) p q"
    "dict_get (partial_hit_reqs m) rid = None" "cached_upto rid m \<le> n"
  shows "books loose (xs @ cached_to rid n m # ys) q"
proof (rule booksI)
  let ?ms = "xs @ m # ys" and ?m' = "cached_to rid n m" and ?S = "py_slice (blocks_of rid m) (cached_upto rid m) n"
  have mok: "mgr_ok p m" using booksD(2) [OF assms(1)] by simp
  have k: "pool_ok q" "same_consts p q" "\<And>b. refs q b = refs p b" using assms(2) by (simp_all add: keyed_def)
  show "pool_ok q" by (rule k(1))
  have tr: "mgr_ok p v \<Longrightarrow> mgr_ok q v" for v using k(2) by (simp add: mgr_ok_def same_consts_def)
  show "mgr_ok q v" if "v \<in> set (xs @ ?m' # ys)" for v
    using that booksD(2) [OF assms(1), of v] cached_to_ok [OF mok assms(3)] by (auto intro!: tr)
  show "refs q b = int (loose b + held_by (xs @ ?m' # ys) b)" if "b \<noteq> 0" for b
    using booksD(3) [OF assms(1) that] k(3) cached_to_refs(2) [OF mok] by simp
  fix v x b
  assume v: "v \<in> set (xs @ ?m' # ys)" "b \<in> set (tail x v)" "b \<noteq> 0"
  have li: "listed (xs @ ?m' # ys) b = listed ?ms b" using cached_to_refs(1) [OF mok] by simp
  have sl: "b \<in> set (tail rid m)" "1 \<le> count_list (blocks_of rid m) b" if "b \<in> set ?S"
    using that slice_of_tail [OF assms(3)] count_pos [of b "blocks_of rid m"] by (auto simp: tail_def dest: in_set_takeD in_set_dropD)
  have lm: "list_refs m b \<le> listed ?ms b" by (rule list_refs_le_listed) simp
  have cm: "count_list (blocks_of rid m) b \<le> list_refs m b" using list_refs_mem [of b rid m] by (cases "b \<in> set (blocks_of rid m)") simp_all
  consider "v = ?m'" "x = rid" | "v = ?m'" "x \<noteq> rid" | "v \<in> set xs \<union> set ys" using v(1) by auto
  then have "(\<exists>u \<in> set ?ms. b \<in> set (tail x u)) \<and> (b \<in> set ?S \<longrightarrow> 2 \<le> listed ?ms b)"
  proof cases
    case 1
    then have b: "b \<in> set (drop n (blocks_of rid m))" using v(2) cached_to_tail [OF assms(3)] by simp
    then have "b \<in> set (drop (cached_upto rid m) (blocks_of rid m))"
      using set_drop_subset_set_drop [OF assms(4), of "blocks_of rid m"] by blast
    then have "b \<in> set (tail x m)" using 1 assms(3) by (simp add: tail_def)
    moreover have "2 \<le> listed ?ms b" if "b \<in> set ?S"
      using count_two [of b n "blocks_of rid m"] that b cm lm by (auto simp: py_slice_def drop_take [symmetric] dest: in_set_dropD)
    ultimately show ?thesis by auto
  next
    case 2
    then have b: "b \<in> set (tail x m)" using v(2) cached_to_tail [OF assms(3)] by simp
    then have "1 \<le> count_list (blocks_of x m) b" using count_pos [of b "blocks_of x m"] by (auto simp: tail_def dest: in_set_dropD)
    then show ?thesis using b sl(2) list_refs_two [OF mgr_okD(1) [OF mok] 2(2), of b] lm by auto
  next
    case 3
    have "1 \<le> list_refs v b" using tail_listed [OF v(2)] by simp
    then have "1 \<le> listed xs b + listed ys b"
      using 3 list_refs_le_listed [of v xs b] list_refs_le_listed [of v ys b] by auto
    then show ?thesis using 3 v(2) sl(2) cm by auto
  qed
  then obtain u where u: "u \<in> set ?ms" "b \<in> set (tail x u)" "b \<in> set ?S \<longrightarrow> 2 \<le> listed ?ms b" by blast
  have "keys_of p b = {}" "listed ?ms b \<le> 1" using booksD(4,5) [OF assms(1) u(1,2) v(3)] by blast+
  moreover have "b \<notin> set ?S" using u(3) calculation(2) by linarith
  ultimately show "keys_of q b = {} \<and> listed (xs @ ?m' # ys) b \<le> 1" using assms(2) cached_to_refs(1) [OF mok, of rid n b] by (auto simp: keyed_def)
qed

lemma slice_distinct:
  fixes n :: nat
  assumes "books loose ms p" "m \<in> set ms" "dict_get (partial_hit_reqs m) rid = None"
  defines "S \<equiv> py_slice (blocks_of rid m) (cached_upto rid m) n"
  shows "\<forall>b \<in> set S. b < num_gpu_blocks p \<and> (b \<noteq> 0 \<longrightarrow> keys_of p b = {})" "distinct (filter (\<lambda>b. b \<noteq> 0) S)"
proof -
  have S: "S = take (n - cached_upto rid m) (tail rid m)" using slice_of_tail [OF assms(3)] by (simp add: S_def)
  have tl: "b \<in> set (tail rid m) \<and> b \<in> set (blocks_of rid m)" if "b \<in> set S" for b
    using that by (auto simp: S tail_def dest: in_set_takeD in_set_dropD)
  show "\<forall>b \<in> set S. b < num_gpu_blocks p \<and> (b \<noteq> 0 \<longrightarrow> keys_of p b = {})"
    using tl mgr_okD(8) [OF booksD(2) [OF assms(1,2)]] booksD(4) [OF assms(1,2)] by blast
  have "count_list (filter (\<lambda>b. b \<noteq> 0) S) b \<le> 1" for b
  proof (cases "b \<in> set S \<and> b \<noteq> 0")
    case True
    have "blocks_of rid m = take (cached_upto rid m) (blocks_of rid m) @ S @ drop (n - cached_upto rid m) (tail rid m)"
      using assms(3) by (simp add: S tail_def del: drop_drop)
    then have "count_list (blocks_of rid m) b = count_list (take (cached_upto rid m) (blocks_of rid m)) b + count_list S b +
        count_list (drop (n - cached_upto rid m) (tail rid m)) b"
      by (metis count_list_append add.assoc)
    moreover have "count_list (blocks_of rid m) b \<le> 1"
      using list_refs_mem [of b rid m] list_refs_le_listed [OF assms(2), of b] booksD(5) [OF assms(1,2), of b rid] tl True by fastforce
    moreover have "count_list (filter (\<lambda>b. b \<noteq> 0) S) b = count_list S b" using True by (auto simp: count_list_eq_length_filter intro!: arg_cong [where f = length] filter_cong)
    ultimately show ?thesis by linarith
  next
    case False
    then have "b \<notin> set (filter (\<lambda>b. b \<noteq> 0) S)" by auto
    then have "count_list (filter (\<lambda>b. b \<noteq> 0) S) b = 0" by (rule count_notin)
    then show ?thesis by simp
  qed
  then show "distinct (filter (\<lambda>b. b \<noteq> 0) S)" by (rule distinct_count_le)
qed

lemma full_entries_slice: "fst ` full_entries p r blocks nc nf bs gid \<subseteq> set (py_slice blocks nc nf)"
proof
  fix b assume "b \<in> fst ` full_entries p r blocks nc nf bs gid"
  then obtain i where i: "nc \<le> i" "i < nf" "i < length blocks" "b = blocks ! i" by (auto simp: full_entries_def)
  then have "py_slice blocks nc nf ! (i - nc) = b" "i - nc < length (py_slice blocks nc nf)" by (auto simp: py_slice_def)
  then show "b \<in> set (py_slice blocks nc nf)" using nth_mem by blast
qed

lemma cache_full_step:
  assumes "books loose (xs @ m # ys) p" "enable_caching p" "cache_cfg p m" "hashes_ok sha256 hash_fn nh (hash_block_size p) r"
    "mm_sorted (mm_features r)" "ntoks \<le> num_tokens r" "ntoks \<le> length (blocks_of (request_id r) m) * mgr_block_size m"
    "dict_get (partial_hit_reqs m) (request_id r) = None"
  shows "\<exists>d m' q B. mgr_cache_full sha256 r ntoks ret (m, p) = Inr (with_cache r d, m', q) \<and> embeds_ok sha256 (with_cache r d) \<and>
    books loose (xs @ m' # ys) q \<and> keyed B p q \<and> (m' = m \<or> m' = cached_to (request_id r) (ntoks div mgr_block_size m) m)"
proof -
  let ?rid = "request_id r"
  let ?bs = "mgr_block_size m" and ?nc = "cached_upto ?rid m" and ?bl = "blocks_of ?rid m"
  let ?nf = "ntoks div ?bs"
  have mem: "m \<in> set (xs @ m # ys)" by simp
  have mok: "mgr_ok p m" and pok: "pool_ok p" using booksD(2) [OF assms(1) mem] booksD(1) [OF assms(1)] by blast+
  obtain free where f: "index_ok p" "refs_ok p free {}" using pok by (rule pool_okE)
  have bs: "0 < ?bs" using mgr_okD(4) [OF mok] .
  have cfg: "0 < hash_block_size p" "hash_block_size p dvd ?bs" "0 \<le> kv_cache_group_id m" "kv_cache_group_id m < 2 ^ 32"
    using assms(3) by (simp_all add: cache_cfg_def)
  show ?thesis
  proof (cases "?nc \<ge> ?nf")
    case True
    have "mgr_cache_full sha256 r ntoks ret (m, p) = Inr (with_cache r (prompt_embeds_hashes r), m, p)"
      using True by (simp add: mgr_cache_full_def cached_upto_def)
    moreover have "keyed {} p p" using pok by (simp add: keyed_def same_consts_def)
    moreover have "embeds_ok sha256 (with_cache r (prompt_embeds_hashes r))" using assms(4) by (simp add: hashes_ok_def)
    ultimately show ?thesis using assms(1) by blast
  next
    case False
    have nf: "?nc < ?nf" "?nf \<le> length ?bl" "?nf * ?bs \<le> num_tokens r"
      using False assms(6,7) bs by (simp_all add: div_le_dividend less_eq_div_iff_mult_less_eq div_less_iff_less_mult)
        (metis div_le_mono div_mult_self_is_m, metis div_times_less_eq_dividend le_trans)
    define bnd where "bnd = [int (num_prompt_tokens r) - 1] @ (if shared_prefix_boundary r \<noteq> 0 then [int (shared_prefix_boundary r)] else [])"
    have "case mgr_kind m of SlidingWindow w extra \<Rightarrow> scheduler_block_size m mod spec_block_size m = 0 | _ \<Rightarrow> True"
      using assms(3) by (simp add: cache_cfg_def split: attn_kind.splits)
    then obtain bm where bm: "reachable_block_mask (mgr_kind m) (spec_block_size m) ?nc ?nf (scheduler_block_size m) (mgr_use_eagle m) ret bnd = Inr bm"
      "case bm of None \<Rightarrow> True | Some ms \<Rightarrow> length ms = ?nf - ?nc" using mask_total by blast
    obtain d q where q: "cache_full_blocks sha256 r ?bl ?nc ?nf ?bs (kv_cache_group_id m) bm p = Inr (with_cache r d, q)"
      "embeds_ok sha256 (with_cache r d)"
      using cache_full_total [OF f assms(2) refl cfg(1) bs cfg(2) assms(4,5) nf cfg(3,4)
          slice_distinct [OF assms(1) mem assms(8), of ?nf] bm(2)] by blast
    have "\<forall>b \<in> set ?bl. cacheable p b" using mgr_okD(8) [OF mok] refs_cacheable [OF f(2) assms(2)] by blast
    from cache_full_op [OF f(1) this q(1)]
    have op: "index_op p q (\<lambda>_. 0) (full_entries p r ?bl ?nc ?nf ?bs (kv_cache_group_id m))" .
    have "fst ` full_entries p r ?bl ?nc ?nf ?bs (kv_cache_group_id m) \<subseteq> set (py_slice ?bl ?nc ?nf)"
      by (rule full_entries_slice)
    then have kd: "keyed (set (py_slice ?bl ?nc ?nf)) p q" by (rule index_op_keyed [OF pok op])
    have "mgr_cache_full sha256 r ntoks ret (m, p) = Inr (with_cache r d, cached_to ?rid ?nf m, q)"
      using False bm(1) q(1) unfolding bnd_def by (simp add: mgr_cache_full_def cached_upto_def cached_to_def res_simps Let_def)
    then show ?thesis using books_cached [OF assms(1) kd assms(8)] nf(1) q(2) kd by auto
  qed
qed

lemma mgr_cache_step:
  assumes "books loose (xs @ m # ys) p" "enable_caching p" "cache_cfg p m" "hashes_ok sha256 hash_fn nh (hash_block_size p) r"
    "mm_sorted (mm_features r)" "ntoks \<le> num_tokens r" "ntoks \<le> length (blocks_of (request_id r) m) * mgr_block_size m"
    "dict_get (partial_hit_reqs m) (request_id r) = None"
  shows "\<exists>d m' q B. mgr_cache_blocks sha256 r ntoks ret (m, p) = Inr (with_cache r d, m', q) \<and> embeds_ok sha256 (with_cache r d) \<and>
    books loose (xs @ m' # ys) q \<and> keyed B p q \<and> (m' = m \<or> m' = cached_to (request_id r) (ntoks div mgr_block_size m) m)"
proof -
  obtain d m' q B where r: "mgr_cache_full sha256 r ntoks ret (m, p) = Inr (with_cache r d, m', q)" "embeds_ok sha256 (with_cache r d)"
    "books loose (xs @ m' # ys) q" "keyed B p q" "m' = m \<or> m' = cached_to (request_id r) (ntoks div mgr_block_size m) m"
    using cache_full_step [OF assms] by blast
  have "mgr_block_size m' = mgr_block_size m" using r(5) same_config_eq(2) [OF cached_to_config] by auto
  moreover have "hash_block_size q = hash_block_size p" using r(4) by (simp add: keyed_def same_consts_def)
  ultimately have "mgr_cache_blocks sha256 r ntoks ret (m, p) = Inr (with_cache r d, m', q)"
    using r(1) assms(3) by (simp add: mgr_cache_blocks_def cache_cfg_def res_simps split: attn_kind.splits)
  then show ?thesis using r by blast
qed

text \<open>What the loop over the managers keeps of one.\<close>

definition cached_post :: "string \<Rightarrow> manager \<Rightarrow> manager \<Rightarrow> bool" where
  "cached_post rid m m' \<longleftrightarrow> (m' = m \<or> (\<exists>n. n \<le> length (blocks_of rid m) \<and> m' = cached_to rid n m))"

lemma hashes_ok_cache: "hashes_ok sha256 hash_fn nh hbs r \<Longrightarrow> embeds_ok sha256 (with_cache r d) \<Longrightarrow> hashes_ok sha256 hash_fn nh hbs (with_cache r d)"
  by (simp add: hashes_ok_def num_tokens_def)

lemma cache_loop:
  assumes "books loose (xs @ ms) p" "enable_caching p" "hashes_ok sha256 hash_fn nh (hash_block_size p) r" "mm_sorted (mm_features r)"
    "each (\<lambda>i m. cache_cfg p m \<and> g m \<le> num_tokens r \<and> g m \<le> length (blocks_of (request_id r) m) * mgr_block_size m \<and>
      dict_get (partial_hit_reqs m) (request_id r) = None) k ms"
  shows "\<exists>d ms' q B. mgr_loop (\<lambda>i r st. mgr_cache_blocks sha256 r (g (fst st)) ret st) k r ms p = Inr (with_cache r d, ms', q) \<and>
    embeds_ok sha256 (with_cache r d) \<and> books loose (xs @ ms') q \<and> keyed B p q \<and> each2 (\<lambda>i. cached_post (request_id r)) k ms ms'"
  using assms
proof (induction ms arbitrary: k xs p r)
  case Nil
  have "keyed {} p p" using booksD(1) [OF Nil(1)] by (simp add: keyed_def same_consts_def)
  then show ?case using Nil by (intro exI [of _ "prompt_embeds_hashes r"]) (auto simp: hashes_ok_def)
next
  case (Cons m ms)
  have h: "cache_cfg p m" "g m \<le> num_tokens r" "g m \<le> length (blocks_of (request_id r) m) * mgr_block_size m"
    "dict_get (partial_hit_reqs m) (request_id r) = None" using Cons.prems(5) by simp_all
  obtain d m1 p1 B where o: "mgr_cache_blocks sha256 r (g m) ret (m, p) = Inr (with_cache r d, m1, p1)" "embeds_ok sha256 (with_cache r d)"
    "books loose (xs @ m1 # ms) p1" "keyed B p p1" "m1 = m \<or> m1 = cached_to (request_id r) (g m div mgr_block_size m) m"
    using mgr_cache_step [OF Cons.prems(1,2) h(1) Cons.prems(3,4) h(2-4)] by blast
  have sc: "same_consts p p1" using o(4) by (simp add: keyed_def)
  let ?r = "with_cache r d"
  have "g m div mgr_block_size m \<le> length (blocks_of (request_id r) m)"
    using h(3) mgr_okD(4) [OF booksD(2) [OF Cons.prems(1), of m]] by (metis div_le_mono div_mult_self_is_m in_set_conv_decomp)
  then have post: "cached_post (request_id r) m m1" using o(5) by (auto simp: cached_post_def)
  have hb: "hash_block_size p1 = hash_block_size p" using sc by (simp add: same_consts_def)
  have "enable_caching p1" using sc Cons.prems(2) by (simp add: same_consts_def)
  moreover have "cache_cfg p1 = cache_cfg p" by (rule ext) (unfold cache_cfg_def hb, rule refl)
  ultimately have cf: "cache_cfg p1 = cache_cfg p" "enable_caching p1" "hash_block_size p1 = hash_block_size p" using hb by blast+
  have "each (\<lambda>i m. cache_cfg p1 m \<and> g m \<le> num_tokens ?r \<and> g m \<le> length (blocks_of (request_id ?r) m) * mgr_block_size m \<and>
      dict_get (partial_hit_reqs m) (request_id ?r) = None) (Suc k) ms" using Cons.prems(5) by (simp add: cf num_tokens_def)
  moreover have "books loose ((xs @ [m1]) @ ms) p1" using o(3) by simp
  moreover have "hashes_ok sha256 hash_fn nh (hash_block_size p1) ?r" "mm_sorted (mm_features ?r)"
    using hashes_ok_cache [OF Cons.prems(3) o(2)] Cons.prems(4) by (simp_all add: cf)
  ultimately obtain d2 ms2 q B2 where r: "mgr_loop (\<lambda>i r st. mgr_cache_blocks sha256 r (g (fst st)) ret st) (Suc k) ?r ms p1 = Inr (with_cache ?r d2, ms2, q)"
    "embeds_ok sha256 (with_cache ?r d2)" "books loose ((xs @ [m1]) @ ms2) q" "keyed B2 p1 q" "each2 (\<lambda>i. cached_post (request_id ?r)) (Suc k) ms ms2"
    using Cons.IH [of "xs @ [m1]" p1 ?r "Suc k"] cf(2) by blast
  have "keyed (B \<union> B2) p q" using o(4) r(4) sc unfolding keyed_def same_consts_def by (auto 0 4)
  then show ?case using o(1) r post by (intro exI [of _ d2] exI [of _ "m1 # ms2"] exI [of _ q] exI [of _ "B \<union> B2"]) (simp add: res_simps)
qed

end
