(* ===== verification/KV_Alloc.thy ===== *)
theory KV_Alloc
  imports Manager_Caching
begin

text \<open>
  Allocation of slots: the number of blocks that the managers predict is enough for everything the allocation takes afterwards, so that
  \<open>allocate_slots\<close> either reports that the pool is too full or succeeds, and never raises.
\<close>

section \<open>The prediction\<close>

definition predicted :: "string \<Rightarrow> nat \<Rightarrow> nat list \<Rightarrow> nat \<Rightarrow> nat \<Rightarrow> bool \<Rightarrow> manager \<Rightarrow> block_pool \<Rightarrow> nat" where
  "predicted rid ntoks new tot n cap m p =
     (let full = blocks_for ntoks (mgr_block_size m);
          required = (case max_admission_blocks m of Some c \<Rightarrow> if cap then min full c else full | None \<Rightarrow> full);
          num_req = length (blocks_of rid m)
      in if rid \<in> set (dict_keys (num_cached_block m)) then required - num_req
         else (required - max (skipped_blocks m tot) (length new + num_req)) + (if has_partial_local_hit m new n then 1 else 0) +
              get_num_evictable_blocks p (drop (skipped_blocks m tot - num_req) new))"

lemma num_blocks_predicted:
  assumes "rid \<in> set (dict_keys (num_cached_block m)) \<Longrightarrow> new = []"
  shows "num_blocks_to_allocate rid ntoks new tot n cap m p = Inr (predicted rid ntoks new tot n cap m p)"
  using assms by (simp add: num_blocks_to_allocate_def predicted_def Let_def res_simps skipped_blocks_def)

definition predicted_at :: "string \<Rightarrow> nat \<Rightarrow> nat list list \<Rightarrow> nat \<Rightarrow> nat \<Rightarrow> nat \<Rightarrow> bool \<Rightarrow> block_pool \<Rightarrow> nat \<Rightarrow> manager \<Rightarrow> nat" where
  "predicted_at rid ntoks computed enc tot n cap p i m =
     (if mgr_kind m = CrossAttention then predicted rid enc [] 0 0 cap m p
      else predicted rid ntoks (computed ! i) tot n cap m p)"

lemma coord_predicted:
  assumes "each (\<lambda>i m. rid \<in> set (dict_keys (num_cached_block m)) \<longrightarrow> computed ! i = []) 0 (managers c)"
  shows "get_num_blocks_to_allocate rid ntoks computed enc tot n cap c =
    Inr (loop_cost (predicted_at rid ntoks computed enc tot n cap (coord_pool c)) 0 (managers c))"
proof -
  let ?f = "\<lambda>(i, m) s.
         bind_res (if mgr_kind m = CrossAttention then num_blocks_to_allocate rid enc [] 0 0 cap m (coord_pool c)
                   else num_blocks_to_allocate rid ntoks (computed ! i) tot n cap m (coord_pool c))
           (\<lambda>k. Inr (s + k))"
  have "fold_res ?f (zip [k ..< k + length ms] ms) s =
      Inr (s + loop_cost (predicted_at rid ntoks computed enc tot n cap (coord_pool c)) k ms)"
    if "each (\<lambda>i m. rid \<in> set (dict_keys (num_cached_block m)) \<longrightarrow> computed ! i = []) k ms" for k ms s
    using that
  proof (induction ms arbitrary: k s)
    case (Cons m ms)
    have "(if mgr_kind m = CrossAttention then num_blocks_to_allocate rid enc [] 0 0 cap m (coord_pool c)
        else num_blocks_to_allocate rid ntoks (computed ! k) tot n cap m (coord_pool c)) =
        Inr (predicted_at rid ntoks computed enc tot n cap (coord_pool c) k m)"
      using Cons.prems num_blocks_predicted [of rid m "computed ! k"] num_blocks_predicted [of rid m "[]"] by (auto simp: predicted_at_def)
    moreover have "[k ..< k + length (m # ms)] = k # [Suc k ..< Suc k + length ms]"
      using upt_conv_Cons [of k "k + length (m # ms)"] by simp
    ultimately show ?case using Cons.IH [of "Suc k"] Cons.prems by (simp add: res_simps del: upt_Suc)
  qed simp
  from this [of 0 "managers c" 0] show ?thesis using assms unfolding get_num_blocks_to_allocate_def by simp
qed

section \<open>The prediction is enough\<close>

lemma blocks_for_mono: "n \<le> k \<Longrightarrow> blocks_for n b \<le> blocks_for k b"
proof (cases "0 < b")
  case True
  then show "n \<le> k \<Longrightarrow> blocks_for n b \<le> blocks_for k b"
    unfolding blocks_for_def by (intro nat_mono) (simp add: cdiv_alt zdiv_mono1)
qed (simp add: blocks_for_def cdiv_def)

lemma skipped_zero: "kind_ok (mgr_kind m) \<Longrightarrow> skipped_blocks m 0 = 0"
  by (cases "mgr_kind m") (simp_all add: skipped_blocks_def get_num_skipped_tokens_def)

text \<open>What the three loops take from the pool, as functions of the manager before the first one.\<close>

definition after_hits :: "string \<Rightarrow> nat \<Rightarrow> nat \<Rightarrow> nat list list \<Rightarrow> nat \<Rightarrow> manager \<Rightarrow> manager" where
  "after_hits rid n ext new i m = (if mgr_kind m = CrossAttention then m
     else with_hits rid (hit_blocks m (n + ext) (new ! i)) (drop (skipped_blocks m (n + ext)) (new ! i)) n m)"

definition ext_cost :: "string \<Rightarrow> nat \<Rightarrow> nat \<Rightarrow> nat list list \<Rightarrow> nat \<Rightarrow> manager \<Rightarrow> nat" where
  "ext_cost rid n ext new i m = (if ext = 0 then 0 else external_blocks rid n ext (after_hits rid n ext new i m))"

definition slot_cost :: "string \<Rightarrow> nat \<Rightarrow> nat \<Rightarrow> nat list list \<Rightarrow> nat \<Rightarrow> nat \<Rightarrow> nat \<Rightarrow> manager \<Rightarrow> nat" where
  "slot_cost rid n ext new ntoks enc i m =
     (let m1 = after_hits rid n ext new i m
      in (if dict_get (partial_hit_reqs m1) rid = None then 0 else 1) +
         (blocks_for (slots_for ntoks enc m) (mgr_block_size m) - (length (blocks_of rid m1) + ext_cost rid n ext new i m)))"

lemma prediction_enough:
  assumes "pool_ok p" "mgr_ok p m" "fresh rid m" "hits_ok n (new ! i) m p" "n + ext \<le> ntoks"
  shows "hit_cost m (n + ext) (new ! i) p + ext_cost rid n ext new i m + slot_cost rid n ext new ntoks enc i m \<le>
    predicted_at rid ntoks new enc (n + ext) n False p i m"
proof (cases "mgr_kind m = CrossAttention")
  case True
  have f: "blocks_of rid m = []" "dict_get (num_cached_block m) rid = None" "dict_get (partial_hit_reqs m) rid = None"
    using assms(3) by (simp_all add: fresh_def)
  have nc: "rid \<notin> set (dict_keys (num_cached_block m))" using f(2) by (simp add: map_of_eq_None_iff)
  have "new ! i = []" using hits_okD(4) [OF assms(4)] True by blast
  moreover have "skipped_blocks m 0 = 0" using True by (simp add: skipped_blocks_def get_num_skipped_tokens_def)
  ultimately show ?thesis using True f nc
    by (simp add: hit_cost_def ext_cost_def external_blocks_def after_hits_def slot_cost_def Let_def predicted_at_def predicted_def
        slots_for_def split: option.split)
next
  case False
  let ?k = "skipped_blocks m (n + ext)" and ?new = "new ! i" and ?bs = "mgr_block_size m"
  have f: "blocks_of rid m = []" "dict_get (num_cached_block m) rid = None" "dict_get (partial_hit_reqs m) rid = None"
    using assms(3) by (simp_all add: fresh_def)
  have nc: "rid \<notin> set (dict_keys (num_cached_block m))" using f(2) by (simp add: map_of_eq_None_iff)
  have pr: "predicted_at rid ntoks new enc (n + ext) n False p i m =
      (blocks_for ntoks ?bs - max ?k (length ?new)) + (if has_partial_local_hit m ?new n then 1 else 0) + hit_cost m (n + ext) ?new p"
    using False f nc evictable_hit_cost [OF assms(1,4), of "n + ext"]
    by (simp add: predicted_at_def predicted_def Let_def split: option.split)
  have len: "length (hit_blocks m (n + ext) ?new) = max ?k (length ?new)" using False by (simp add: hit_blocks_def)
  define e where "e = ext_cost rid n ext new i m"
  have "e \<le> blocks_for (n + ext) ?bs - max ?k (length ?new)"
    using False len by (simp add: e_def ext_cost_def external_blocks_def after_hits_def Let_def)
  then have e: "e \<le> blocks_for ntoks ?bs - max ?k (length ?new)" using blocks_for_mono [OF assms(5), of ?bs] by linarith
  have "slot_cost rid n ext new ntoks enc i m \<le>
      (if has_partial_local_hit m ?new n then 1 else 0) + (blocks_for ntoks ?bs - (max ?k (length ?new) + e))"
    using False len f(3)
    by (auto simp: slot_cost_def after_hits_def with_hits_partial slots_for_def e_def [symmetric] Let_def has_partial_local_hit_def)
  then show ?thesis using e unfolding pr e_def [symmetric] by linarith
qed

lemma prediction_continuing:
  assumes "skipped_blocks m n \<le> length (blocks_of rid m)" "new ! i = []" "dict_get (partial_hit_reqs m) rid = None" "kind_ok (mgr_kind m)"
  shows "slot_blocks rid (slots_for ntoks enc m) m \<le> predicted_at rid ntoks new enc n n False p i m"
  using assms skipped_zero [OF assms(4)]
  by (auto simp: slot_blocks_def predicted_at_def predicted_def slots_for_def Let_def split: option.split)

section \<open>Taking the slots\<close>

lemma loop_cost_add: "loop_cost (\<lambda>i m. f i m + g i m) k ms = loop_cost f k ms + loop_cost g k ms"
  by (induction ms arbitrary: k) simp_all

lemma loop_cost_each2: "each2 (\<lambda>i m m'. f i m' \<le> g i m) k ms ms' \<Longrightarrow> loop_cost f k ms' \<le> loop_cost g k ms"
  by (induction "\<lambda>i m m'. f i m' \<le> g i m" k ms ms' rule: each2.induct) (auto simp: add_mono)

lemma each2_trans:
  assumes "each2 P k ms ns" "each2 Q k ns os" "\<And>i m n l. P i m n \<Longrightarrow> Q i n l \<Longrightarrow> R i m l"
  shows "each2 R k ms os"
  using assms unfolding each2_nth by metis

lemma each2_mono: "each2 P k ms ns \<Longrightarrow> (\<And>i m n. P i m n \<Longrightarrow> Q i m n) \<Longrightarrow> each2 Q k ms ns"
  unfolding each2_nth by metis

text \<open>What an allocation for \<open>rid\<close> leaves behind in a manager.\<close>

definition allocated :: "string \<Rightarrow> nat \<Rightarrow> nat \<Rightarrow> manager \<Rightarrow> manager \<Rightarrow> bool" where
  "allocated rid ntoks enc m m' \<longleftrightarrow> only rid m m' \<and> dict_get (partial_hit_reqs m') rid = None \<and>
     blocks_for (slots_for ntoks enc m) (mgr_block_size m) \<le> length (blocks_of rid m') \<and>
     (dict_get (partial_hit_reqs m) rid = None \<longrightarrow> (\<exists>new. blocks_of rid m' = blocks_of rid m @ new))"

text \<open>The table that a first allocation starts from.\<close>

definition began :: "string \<Rightarrow> nat \<Rightarrow> nat \<Rightarrow> nat list list \<Rightarrow> nat \<Rightarrow> manager \<Rightarrow> manager \<Rightarrow> bool" where
  "began rid n ext new i m m' \<longleftrightarrow> only rid m m' \<and> partial_hit_reqs m' = partial_hit_reqs (after_hits rid n ext new i m) \<and>
     (\<exists>bs. blocks_of rid m' = blocks_of rid (after_hits rid n ext new i m) @ bs)"

lemma new_blocks_step:
  assumes "books loose (managers c) (coord_pool c)"
    "loop_cost (\<lambda>i m. slot_blocks rid (slots_for ntoks enc m) m) 0 (managers c) \<le> nfree (coord_pool c)"
  shows "\<exists>new ms p. allocate_new_blocks rid ntoks enc c = Inr (new, c\<lparr>managers := ms, coord_pool := p\<rparr>) \<and> books loose ms p \<and>
    quiet (coord_pool c) p \<and> each2 (\<lambda>i. allocated rid ntoks enc) 0 (managers c) ms"
proof -
  have "each (\<lambda>i m. True) 0 (managers c)" by (rule each_True) simp
  from slots_loop.over [OF assms(1) this assms(2), of "[]"]
  obtain new ms p where o: "allocate_new_blocks rid ntoks enc c = Inr (new, c\<lparr>managers := ms, coord_pool := p\<rparr>)" "books loose ms p"
    "quiet (coord_pool c) p" "each2 (\<lambda>i m m'. slots_post rid ntoks enc m m' \<and> only rid m m') 0 (managers c) ms"
    unfolding allocate_new_blocks_def by blast
  have "each2 (\<lambda>i. allocated rid ntoks enc) 0 (managers c) ms"
    by (rule each2_mono [OF o(4)]) (auto simp: allocated_def slots_post_def)
  then show ?thesis using o by blast
qed

lemma computed_blocks_step:
  assumes "books loose (managers c) (coord_pool c)" "each (\<lambda>i m. fresh rid m \<and> hits_ok n (new ! i) m (coord_pool c)) 0 (managers c)"
    "loop_cost (\<lambda>i m. hit_cost m (n + ext) (new ! i) (coord_pool c) + ext_cost rid n ext new i m + slot_cost rid n ext new ntoks enc i m)
       0 (managers c) \<le> nfree (coord_pool c)"
  shows "\<exists>ms p. allocate_new_computed_blocks rid new n ext c = Inr (c\<lparr>managers := ms, coord_pool := p\<rparr>) \<and> books loose ms p \<and>
    quiet (coord_pool c) p \<and> each2 (began rid n ext new) 0 (managers c) ms \<and>
    loop_cost (\<lambda>i m. slot_blocks rid (slots_for ntoks enc m) m) 0 ms \<le> nfree p"
proof -
  let ?p = "coord_pool c" and ?ms = "managers c"
  have cost: "loop_cost (\<lambda>i m. hit_cost m (n + ext) (new ! i) ?p) 0 ?ms + loop_cost (ext_cost rid n ext new) 0 ?ms +
      loop_cost (slot_cost rid n ext new ntoks enc) 0 ?ms \<le> nfree ?p" using assms(3) by (simp add: loop_cost_add)
  have nc: "\<not> list_ex (\<lambda>m. rid \<in> set (dict_keys (num_cached_block m))) ?ms"
    using assms(2) by (auto simp: each_nth list_ex_length fresh_def map_of_eq_None_iff)
  have pre: "each (\<lambda>i m. (mgr_kind m = CrossAttention \<or> fresh rid m) \<and> hits_ok n (new ! i) m ?p) 0 ?ms"
    by (rule each_mono [OF assms(2)]) blast
  have h1: "loop_cost (\<lambda>i m. hit_cost m (n + ext) (new ! i) ?p) 0 ?ms \<le> nfree ?p" using cost by linarith
  obtain ms1 p1 where l: "over_managers (\<lambda>i _ st. bind_res (add_local_computed_blocks rid (new ! i) n ext st) (\<lambda>st'. Inr ((), st'))) () c =
      Inr ((), c\<lparr>managers := ms1, coord_pool := p1\<rparr>)" "books loose ms1 p1" "quiet ?p p1"
    "nfree ?p \<le> nfree p1 + loop_cost (\<lambda>i m. hit_cost m (n + ext) (new ! i) ?p) 0 ?ms"
    "each2 (\<lambda>i m m'. local_post rid n ext new i m m' \<and> only rid m m') 0 ?ms ms1"
    using local_loop.over [OF assms(1) pre h1, where s = "()"] by auto
  have ah: "each2 (\<lambda>i m m'. m' = after_hits rid n ext new i m \<and> only rid m m') 0 ?ms ms1"
    by (rule each2_mono [OF l(5)]) (auto simp: local_post_def after_hits_def)
  let ?c1 = "c\<lparr>managers := ms1, coord_pool := p1\<rparr>"
  show ?thesis
  proof (cases "ext = 0")
    case True
    have "loop_cost (\<lambda>i m. slot_blocks rid (slots_for ntoks enc m) m) 0 ms1 \<le> loop_cost (slot_cost rid n ext new ntoks enc) 0 ?ms"
      by (rule loop_cost_each2, rule each2_mono [OF ah])
        (use True in \<open>auto simp: slot_cost_def slot_blocks_def ext_cost_def Let_def slots_for_def after_hits_def\<close>)
    then show ?thesis using True l nc cost each2_mono [OF ah, of "began rid n ext new"]
      by (intro exI [of _ ms1] exI [of _ p1]) (auto simp: allocate_new_computed_blocks_def res_simps began_def)
  next
    case False
    have "loop_cost (\<lambda>i m. external_blocks rid n ext m) 0 ms1 \<le> loop_cost (ext_cost rid n ext new) 0 ?ms"
      by (rule loop_cost_each2, rule each2_mono [OF ah]) (use False in \<open>auto simp: ext_cost_def\<close>)
    moreover have "each (\<lambda>i m. True) 0 (managers ?c1)" by (rule each_True) simp
    ultimately obtain ms2 p2 where e: "over_managers (\<lambda>i _ st. bind_res (allocate_external_computed_blocks rid n ext st) (\<lambda>st'. Inr ((), st'))) () ?c1 =
      Inr ((), ?c1\<lparr>managers := ms2, coord_pool := p2\<rparr>)" "books loose ms2 p2" "quiet p1 p2"
      "nfree p1 \<le> nfree p2 + loop_cost (\<lambda>i m. external_blocks rid n ext m) 0 ms1"
      "each2 (\<lambda>i m m'. external_post rid n ext m m' \<and> only rid m m') 0 ms1 ms2"
      using external_loop.over [where loose = loose and c = ?c1 and rid = rid and n = n and ext = ext and s = "()"] l(2,4) cost by auto
    have ae: "each2 (\<lambda>i m m'. began rid n ext new i m m' \<and> slot_blocks rid (slots_for ntoks enc m') m' \<le> slot_cost rid n ext new ntoks enc i m) 0 ?ms ms2"
    proof (rule each2_trans [OF ah e(5)])
      fix i m m1 m2
      assume a: "m1 = after_hits rid n ext new i m \<and> only rid m m1" "external_post rid n ext m1 m2 \<and> only rid m1 m2"
      then have o: "only rid m m2" using only_trans by blast
      then have "mgr_block_size m2 = mgr_block_size m" "slots_for ntoks enc m2 = slots_for ntoks enc m"
        using same_config_eq [OF onlyD(1)] by (auto simp: slots_for_def)
      then show "began rid n ext new i m m2 \<and> slot_blocks rid (slots_for ntoks enc m2) m2 \<le> slot_cost rid n ext new ntoks enc i m"
        using o a False by (auto simp: slot_cost_def slot_blocks_def ext_cost_def external_post_def began_def Let_def)
    qed
    have "loop_cost (\<lambda>i m. slot_blocks rid (slots_for ntoks enc m) m) 0 ms2 \<le> loop_cost (slot_cost rid n ext new ntoks enc) 0 ?ms"
      by (rule loop_cost_each2, rule each2_mono [OF ae]) blast
    moreover have "loop_cost (\<lambda>i m. external_blocks rid n ext m) 0 ms1 \<le> loop_cost (ext_cost rid n ext new) 0 ?ms" by fact
    ultimately have "loop_cost (\<lambda>i m. slot_blocks rid (slots_for ntoks enc m) m) 0 ms2 \<le> nfree p2" using cost l(4) e(4) by linarith
    then show ?thesis using False l(1) e(1-3) nc quiet_trans [OF l(3) e(3)] each2_mono [OF ae, of "began rid n ext new"]
      by (intro exI [of _ ms2] exI [of _ p2]) (auto simp: allocate_new_computed_blocks_def res_simps)
  qed
qed

text \<open>A request at its first allocation, with the hits of a lookup.\<close>

definition starting :: "string \<Rightarrow> nat \<Rightarrow> nat \<Rightarrow> nat list list \<Rightarrow> coordinator \<Rightarrow> bool" where
  "starting rid n ext computed c \<longleftrightarrow> length computed = length (managers c) \<and>
     each (\<lambda>i m. fresh rid m \<and> hits_ok n (computed ! i) m (coord_pool c)) 0 (managers c) \<and>
     (is_empty_blocks computed \<and> ext = 0 \<longrightarrow> n = 0)"

text \<open>A request that holds the blocks of its first \<open>n\<close> tokens, as far as its attention reads them.\<close>

definition continuing :: "string \<Rightarrow> nat \<Rightarrow> nat \<Rightarrow> nat list list \<Rightarrow> coordinator \<Rightarrow> bool" where
  "continuing rid n ext computed c \<longleftrightarrow> length computed = length (managers c) \<and> is_empty_blocks computed \<and> ext = 0 \<and>
     (\<forall>m \<in> set (managers c). skipped_blocks m n \<le> length (blocks_of rid m))"

definition settled :: "manager list \<Rightarrow> bool" where
  "settled ms \<longleftrightarrow> (\<forall>m \<in> set ms. \<forall>rid. dict_get (partial_hit_reqs m) rid = None)"

lemma settled_none: "settled ms \<Longrightarrow> m \<in> set ms \<Longrightarrow> dict_get (partial_hit_reqs m) rid = None"
  by (simp add: settled_def)

lemma empty_nth: "is_empty_blocks bss \<Longrightarrow> i < length bss \<Longrightarrow> bss ! i = []"
  by (simp add: is_empty_blocks_def list_all_length)

lemma settled_only:
  assumes "settled ms" "each2 (\<lambda>i m m'. only rid m m' \<and> dict_get (partial_hit_reqs m') rid = None) k ms ms'"
  shows "settled ms'"
  unfolding settled_def
proof (intro ballI allI)
  fix m' x
  assume "m' \<in> set ms'"
  then obtain j where j: "j < length ms'" "m' = ms' ! j" by (auto simp: in_set_conv_nth)
  then have "only rid (ms ! j) m'" "dict_get (partial_hit_reqs m') rid = None" "ms ! j \<in> set ms"
    using assms(2) by (auto simp: each2_nth)
  then show "dict_get (partial_hit_reqs m') x = None" using settled_none [OF assms(1)] by (cases "x = rid") (auto simp: only_def)
qed

lemma slots_without_hits:
  assumes "books loose (managers c) (coord_pool c)" "settled (managers c)" "is_empty_blocks computed" "length computed = length (managers c)"
    "\<And>m. m \<in> set (managers c) \<Longrightarrow> skipped_blocks m n \<le> length (blocks_of rid m)"
  shows "loop_cost (\<lambda>i m. slot_blocks rid (slots_for ntoks enc m) m) 0 (managers c) \<le>
    loop_cost (predicted_at rid ntoks computed enc n n False (coord_pool c)) 0 (managers c)"
proof (rule loop_cost_mono, unfold each_nth, intro allI impI)
  fix j assume j: "j < length (managers c)"
  then have m: "managers c ! j \<in> set (managers c)" by simp
  show "slot_blocks rid (slots_for ntoks enc (managers c ! j)) (managers c ! j) \<le>
      predicted_at rid ntoks computed enc n n False (coord_pool c) (0 + j) (managers c ! j)"
    using prediction_continuing [OF assms(5) [OF m] _ settled_none [OF assms(2) m] mgr_okD(5) [OF booksD(2) [OF assms(1) m]]]
      empty_nth [OF assms(3)] assms(4) j by simp
qed

text \<open>
  What the first phase leaves of the table: all of it without hits, else the hits, unless the last of them has to be copied.
\<close>

definition based :: "string \<Rightarrow> nat \<Rightarrow> nat \<Rightarrow> nat list list \<Rightarrow> nat \<Rightarrow> manager \<Rightarrow> manager \<Rightarrow> bool" where
  "based rid n ext computed i m m' \<longleftrightarrow>
     (if is_empty_blocks computed \<and> ext = 0 then \<exists>new. blocks_of rid m' = blocks_of rid m @ new
      else mgr_kind m \<noteq> CrossAttention \<and> n mod mgr_block_size m = 0 \<longrightarrow> (\<exists>new. blocks_of rid m' = hit_blocks m (n + ext) (computed ! i) @ new))"

definition opened :: "string \<Rightarrow> nat \<Rightarrow> nat \<Rightarrow> nat list list \<Rightarrow> nat \<Rightarrow> manager \<Rightarrow> manager \<Rightarrow> bool" where
  "opened rid n ext computed i m m' \<longleftrightarrow> only rid m m' \<and> based rid n ext computed i m m' \<and>
     (is_empty_blocks computed \<and> ext = 0 \<or> (mgr_kind m \<noteq> CrossAttention \<and> n mod mgr_block_size m = 0) \<longrightarrow> dict_get (partial_hit_reqs m') rid = None)"

lemma began_opened:
  assumes "began rid n ext computed i m m'" "fresh rid m" "\<not> (is_empty_blocks computed \<and> ext = 0)"
  shows "opened rid n ext computed i m m'"
  using assms by (auto simp: began_def opened_def based_def after_hits_def with_hits_partial has_partial_local_hit_def fresh_def)

lemma blocks_taken:
  assumes "books loose (managers c) (coord_pool c)" "settled (managers c)"
    "starting rid n ext computed c \<and> n + ext \<le> ntoks \<or> continuing rid n ext computed c"
    "loop_cost (predicted_at rid ntoks computed enc (n + ext) n False (coord_pool c)) 0 (managers c) \<le> nfree (coord_pool c)"
  shows "\<exists>ms p. (if \<not> is_empty_blocks computed \<or> ext > 0 then allocate_new_computed_blocks rid computed n ext c else Inr c) =
      Inr (c\<lparr>managers := ms, coord_pool := p\<rparr>) \<and> books loose ms p \<and> quiet (coord_pool c) p \<and> each2 (opened rid n ext computed) 0 (managers c) ms \<and>
    loop_cost (\<lambda>i m. slot_blocks rid (slots_for ntoks enc m) m) 0 ms \<le> nfree p"
proof (cases "is_empty_blocks computed \<and> ext = 0")
  case True
  have "skipped_blocks m n \<le> length (blocks_of rid m)" if m: "m \<in> set (managers c)" for m
    using assms(3) True m skipped_zero [OF mgr_okD(5) [OF booksD(2) [OF assms(1) m]]] by (auto simp: starting_def continuing_def)
  moreover have "length computed = length (managers c)" using assms(3) by (auto simp: starting_def continuing_def)
  ultimately have "loop_cost (\<lambda>i m. slot_blocks rid (slots_for ntoks enc m) m) 0 (managers c) \<le> nfree (coord_pool c)"
    using slots_without_hits [OF assms(1,2) conjunct1 [OF True], of n rid ntoks enc] assms(4) True by simp
  moreover have "each2 (opened rid n ext computed) 0 (managers c) (managers c)"
    using True settled_none [OF assms(2)] by (simp add: each2_nth opened_def based_def only_refl)
  ultimately show ?thesis using True assms(1) quiet_refl [OF booksD(1) [OF assms(1)]]
    by (intro exI [of _ "managers c"] exI [of _ "coord_pool c"]) simp
next
  case False
  then have st: "starting rid n ext computed c" "n + ext \<le> ntoks" using assms(3) by (auto simp: continuing_def)
  have fr: "each (\<lambda>i m. fresh rid m \<and> hits_ok n (computed ! i) m (coord_pool c)) 0 (managers c)" using st(1) by (simp add: starting_def)
  have "loop_cost (\<lambda>i m. hit_cost m (n + ext) (computed ! i) (coord_pool c) + ext_cost rid n ext computed i m +
      slot_cost rid n ext computed ntoks enc i m) 0 (managers c) \<le> nfree (coord_pool c)"
  proof (rule order_trans [OF loop_cost_mono assms(4)], unfold each_nth, intro allI impI)
    fix j assume j: "j < length (managers c)"
    then have m: "managers c ! j \<in> set (managers c)" by simp
    show "hit_cost (managers c ! j) (n + ext) (computed ! (0 + j)) (coord_pool c) + ext_cost rid n ext computed (0 + j) (managers c ! j) +
        slot_cost rid n ext computed ntoks enc (0 + j) (managers c ! j) \<le>
        predicted_at rid ntoks computed enc (n + ext) n False (coord_pool c) (0 + j) (managers c ! j)"
      by (rule prediction_enough [OF booksD(1) [OF assms(1)] booksD(2) [OF assms(1) m] _ _ st(2)])
        (use fr j in \<open>simp_all add: each_nth\<close>)
  qed
  from computed_blocks_step [OF assms(1) fr this]
  obtain ms p where c: "allocate_new_computed_blocks rid computed n ext c = Inr (c\<lparr>managers := ms, coord_pool := p\<rparr>)" "books loose ms p"
    "quiet (coord_pool c) p" "each2 (began rid n ext computed) 0 (managers c) ms"
    "loop_cost (\<lambda>i m. slot_blocks rid (slots_for ntoks enc m) m) 0 ms \<le> nfree p" by blast
  have "each2 (opened rid n ext computed) 0 (managers c) ms"
    using c(4) fr began_opened [OF _ _ False] by (simp add: each2_nth each_nth)
  then show ?thesis using False c by auto
qed

lemma cached_post_only:
  assumes "mgr_ok p m" "cached_post rid m m'"
  shows "only rid m m'" "blocks_of x m' = blocks_of x m" "partial_hit_reqs m' = partial_hit_reqs m"
  using assms(2) cached_to_refs(1) [OF assms(1)] cached_to_config
  by (auto simp: cached_post_def only_def same_config_refl)

lemma same_consts_trans: "same_consts p q \<Longrightarrow> same_consts q r \<Longrightarrow> same_consts p r"
  by (simp add: same_consts_def)

lemma quiet_consts: "quiet p q \<Longrightarrow> same_consts p q"
  by (simp add: quiet_def)

lemma opened_allocated:
  assumes "opened rid n ext computed i m m1" "allocated rid ntoks enc m1 m2"
  shows "only rid m m2 \<and> dict_get (partial_hit_reqs m2) rid = None \<and> mgr_block_size m2 = mgr_block_size m \<and>
    blocks_for (slots_for ntoks enc m) (mgr_block_size m) \<le> length (blocks_of rid m2) \<and> based rid n ext computed i m m2"
proof -
  have o1: "only rid m m1" using assms(1) by (simp add: opened_def)
  have o: "only rid m m2" using only_trans [OF o1] assms(2) by (simp add: allocated_def)
  have "based rid n ext computed i m m2" using assms by (auto simp: opened_def based_def allocated_def split: if_splits)
  moreover have "mgr_block_size m1 = mgr_block_size m" "slots_for ntoks enc m1 = slots_for ntoks enc m" "mgr_block_size m2 = mgr_block_size m"
    using same_config_eq [OF onlyD(1) [OF o1]] same_config_eq [OF onlyD(1) [OF o]] by (simp_all add: slots_for_def)
  ultimately show ?thesis using o assms(2) by (simp add: allocated_def)
qed

text \<open>What \<open>take_slots\<close> leaves behind in a manager.\<close>

definition slotted :: "string \<Rightarrow> nat \<Rightarrow> nat \<Rightarrow> manager \<Rightarrow> manager \<Rightarrow> bool" where
  "slotted rid ntoks enc m m' \<longleftrightarrow> only rid m m' \<and> dict_get (partial_hit_reqs m') rid = None \<and>
     blocks_for (slots_for ntoks enc m) (mgr_block_size m) \<le> length (blocks_of rid m')"

lemma tokens_to_cache_le: "tokens_to_cache c n m \<le> n"
proof -
  have "align_cacheable c k \<le> k" for k by (simp add: align_cacheable_def)
  then show ?thesis
    by (auto simp: tokens_to_cache_def Let_def split: coordinator_class.splits intro: order_trans [OF min.cobounded1])
qed

lemma cached_slots:
  assumes "books loose ms p" "settled ms" "enable_caching p" "\<And>m. m \<in> set ms \<Longrightarrow> cache_cfg p m"
    "hashes_ok sha256 hash_fn nh (hash_block_size p) r" "mm_sorted (mm_features r)" "to_cache \<le> num_tokens r"
    "\<And>m. m \<in> set ms \<Longrightarrow> to_cache \<le> length (blocks_of (request_id r) m) * mgr_block_size m"
  shows "\<exists>d ms' q. coord_cache_blocks sha256 r to_cache (c\<lparr>managers := ms, coord_pool := p\<rparr>) =
      Inr (with_cache r d, c\<lparr>managers := ms', coord_pool := q\<rparr>) \<and> embeds_ok sha256 (with_cache r d) \<and> books loose ms' q \<and> same_consts p q \<and>
    each2 (\<lambda>i m m'. only (request_id r) m m' \<and> blocks_of (request_id r) m' = blocks_of (request_id r) m \<and>
      partial_hit_reqs m' = partial_hit_reqs m) 0 ms ms'"
proof -
  let ?c = "c\<lparr>managers := ms, coord_pool := p\<rparr>"
  have b0: "books loose ([] @ ms) p" using assms(1) by simp
  have e: "each (\<lambda>i m. cache_cfg p m \<and> tokens_to_cache ?c to_cache m \<le> num_tokens r \<and>
      tokens_to_cache ?c to_cache m \<le> length (blocks_of (request_id r) m) * mgr_block_size m \<and>
      dict_get (partial_hit_reqs m) (request_id r) = None) 0 ms"
    by (rule each_set) (meson assms(4,7,8) order_trans tokens_to_cache_le settled_none [OF assms(2)])
  obtain d ms' q B where o: "mgr_loop (\<lambda>i r st. mgr_cache_blocks sha256 r (tokens_to_cache ?c to_cache (fst st)) (retention_interval ?c) st) 0 r ms p =
      Inr (with_cache r d, ms', q)" "embeds_ok sha256 (with_cache r d)" "books loose ([] @ ms') q" "keyed B p q"
      "each2 (\<lambda>i. cached_post (request_id r)) 0 ms ms'"
    using cache_loop [OF b0 assms(3,5,6) e] by blast
  have "each2 (\<lambda>i m m'. only (request_id r) m m' \<and> blocks_of (request_id r) m' = blocks_of (request_id r) m \<and>
      partial_hit_reqs m' = partial_hit_reqs m) 0 ms ms'"
    using o(5) cached_post_only [OF booksD(2) [OF assms(1)]] unfolding each2_nth by (metis nth_mem)
  then show ?thesis using o by (auto simp: coord_cache_blocks_def over_managers_def res_simps keyed_def)
qed

lemma slots_cover:
  assumes "only rid m m'" "cache_cfg p m" "mgr_ok p m" "same_consts p q"
    "blocks_for (slots_for ntoks enc m) (mgr_block_size m) \<le> length (blocks_of rid m')"
  shows "ntoks \<le> length (blocks_of rid m') * mgr_block_size m'" "cache_cfg q m'"
proof -
  have c: "same_config m m'" using onlyD(1) [OF assms(1)] .
  have "slots_for ntoks enc m = ntoks" using assms(2) by (simp add: slots_for_def cache_cfg_def)
  then show "ntoks \<le> length (blocks_of rid m') * mgr_block_size m'"
    using blocks_for_mult [OF mgr_okD(4) [OF assms(3)]] assms(5) same_config_eq(2) [OF c] by simp
  show "cache_cfg q m'" using assms(2,4) c by (simp add: cache_cfg_def same_config_def same_consts_def cong: attn_kind.case_cong)
qed

lemma take_slots_step:
  assumes "books loose (managers c) (coord_pool c)" "settled (managers c)"
    "starting (request_id r) n ext computed c \<and> n + ext \<le> ntoks \<or> continuing (request_id r) n ext computed c"
    "loop_cost (predicted_at (request_id r) ntoks computed enc (n + ext) n False (coord_pool c)) 0 (managers c) \<le> nfree (coord_pool c)"
    "caching \<and> \<not> delay \<Longrightarrow> enable_caching (coord_pool c) \<and> (\<forall>m \<in> set (managers c). cache_cfg (coord_pool c) m) \<and>
       hashes_ok sha256 hash_fn nh (hash_block_size (coord_pool c)) r \<and> mm_sorted (mm_features r) \<and> to_cache \<le> num_tokens r \<and> to_cache \<le> ntoks"
  shows "\<exists>new d ms q. take_slots sha256 r computed n ext ntoks enc to_cache delay caching c =
      Inr (new, with_cache r d, c\<lparr>managers := ms, coord_pool := q\<rparr>) \<and> books loose ms q \<and> settled ms \<and> same_consts (coord_pool c) q \<and>
    each2 (\<lambda>i m m'. slotted (request_id r) ntoks enc m m' \<and> based (request_id r) n ext computed i m m') 0 (managers c) ms"
proof -
  let ?rid = "request_id r"
  obtain ms1 p1 where c: "(if \<not> is_empty_blocks computed \<or> ext > 0 then allocate_new_computed_blocks ?rid computed n ext c else Inr c) =
      Inr (c\<lparr>managers := ms1, coord_pool := p1\<rparr>)" "books loose ms1 p1" "quiet (coord_pool c) p1" "each2 (opened ?rid n ext computed) 0 (managers c) ms1"
    "loop_cost (\<lambda>i m. slot_blocks ?rid (slots_for ntoks enc m) m) 0 ms1 \<le> nfree p1" using blocks_taken [OF assms(1-4)] by blast
  obtain new ms p where a: "allocate_new_blocks ?rid ntoks enc (c\<lparr>managers := ms1, coord_pool := p1\<rparr>) =
      Inr (new, c\<lparr>managers := ms, coord_pool := p\<rparr>)" "books loose ms p" "quiet p1 p" "each2 (\<lambda>i. allocated ?rid ntoks enc) 0 ms1 ms"
    using new_blocks_step [of loose "c\<lparr>managers := ms1, coord_pool := p1\<rparr>" ?rid ntoks enc] c(2,5) by auto
  have al: "each2 (\<lambda>i m m'. only ?rid m m' \<and> dict_get (partial_hit_reqs m') ?rid = None \<and> mgr_block_size m' = mgr_block_size m \<and>
      blocks_for (slots_for ntoks enc m) (mgr_block_size m) \<le> length (blocks_of ?rid m') \<and> based ?rid n ext computed i m m') 0 (managers c) ms"
    by (rule each2_trans [OF c(4) a(4)]) (rule opened_allocated)
  have st: "settled ms" by (rule settled_only [OF assms(2) each2_mono [OF al]]) blast
  have sc: "same_consts (coord_pool c) p" using same_consts_trans quiet_consts c(3) a(3) by blast
  show ?thesis
  proof (cases "caching \<and> \<not> delay")
    case False
    have "take_slots sha256 r computed n ext ntoks enc to_cache delay caching c =
        Inr (new, with_cache r (prompt_embeds_hashes r), c\<lparr>managers := ms, coord_pool := p\<rparr>)"
      using False c(1) a(1) by (auto simp: take_slots_def res_simps)
    moreover have "each2 (\<lambda>i m m'. slotted ?rid ntoks enc m m' \<and> based ?rid n ext computed i m m') 0 (managers c) ms" by (rule each2_mono [OF al]) (simp add: slotted_def)
    ultimately show ?thesis using a(2) st sc by blast
  next
    case True
    note h = assms(5) [OF True]
    have len: "to_cache \<le> length (blocks_of ?rid m') * mgr_block_size m' \<and> cache_cfg p m'" if m': "m' \<in> set ms" for m'
    proof -
      obtain j where j: "j < length ms" "m' = ms ! j" using m' by (auto simp: in_set_conv_nth)
      let ?m = "managers c ! j"
      have r: "only ?rid ?m m'" "?m \<in> set (managers c)" "blocks_for (slots_for ntoks enc ?m) (mgr_block_size ?m) \<le> length (blocks_of ?rid m')"
        using al j by (auto simp: each2_nth)
      show ?thesis using slots_cover [OF r(1) _ booksD(2) [OF assms(1) r(2)] sc r(3)] h r(2) by force
    qed
    have hp: "enable_caching p" "hash_block_size p = hash_block_size (coord_pool c)" using h sc by (simp_all add: same_consts_def)
    obtain d ms' q where k: "coord_cache_blocks sha256 r to_cache (c\<lparr>managers := ms, coord_pool := p\<rparr>) =
        Inr (with_cache r d, c\<lparr>managers := ms', coord_pool := q\<rparr>)" "books loose ms' q" "same_consts p q"
      "each2 (\<lambda>i m m'. only ?rid m m' \<and> blocks_of ?rid m' = blocks_of ?rid m \<and> partial_hit_reqs m' = partial_hit_reqs m) 0 ms ms'"
      using cached_slots [OF a(2) st hp(1), of sha256 hash_fn nh r to_cache c] h hp(2) len by auto
    have "each2 (\<lambda>i m m'. slotted ?rid ntoks enc m m' \<and> based ?rid n ext computed i m m') 0 (managers c) ms'"
      by (rule each2_trans [OF al k(4)]) (auto simp: slotted_def based_def intro: only_trans)
    moreover have "settled ms'" by (rule settled_only [where rid = ?rid, OF assms(2) each2_mono [OF calculation]]) (simp add: slotted_def)
    ultimately show ?thesis using True c(1) a(1) k same_consts_trans [OF sc k(3)] by (auto simp: take_slots_def res_simps)
  qed
qed

end
