(* ===== verification/KV_Slots.thy ===== *)
theory KV_Slots
  imports KV_Alloc
begin

text \<open>
  The invariant of the KV-cache manager and its allocation: \<open>allocate_slots\<close>, called the way the scheduler calls it, never raises, keeps
  the invariant, covers the tokens when it succeeds, and succeeds when there is room.
\<close>

section \<open>The invariant of the manager\<close>

text \<open>What the constructors fix: the block sizes of the managers and, without several groups, the one manager.\<close>

definition shaped :: "coordinator \<Rightarrow> bool" where
  "shaped c \<longleftrightarrow>
     (\<forall>m \<in> set (managers c). mgr_block_size m = (if dcp_world_size c > 1 then spec_block_size m * dcp_world_size c else spec_block_size m)) \<and>
     (coord_class c = Unitary \<longrightarrow> (\<exists>m. managers c = [m] \<and> mgr_block_size m = hash_block_size (coord_pool c)))"

definition kv_ok :: "(nat \<Rightarrow> nat) \<Rightarrow> kv_manager \<Rightarrow> bool" where
  "kv_ok loose k \<longleftrightarrow> books loose (managers (coord k)) (coord_pool (coord k)) \<and> settled (managers (coord k)) \<and>
     enable_caching (coord_pool (coord k)) = kv_caching k \<and> shaped (coord k) \<and>
     (kv_caching k \<longrightarrow> (\<forall>m \<in> set (managers (coord k)). cache_cfg (coord_pool (coord k)) m))"

definition with_state :: "kv_manager \<Rightarrow> manager list \<Rightarrow> block_pool \<Rightarrow> kv_manager" where
  "with_state k ms p = k\<lparr>coord := (coord k)\<lparr>managers := ms, coord_pool := p\<rparr>\<rparr>"

lemma with_state_sel [simp]:
  "managers (coord (with_state k ms p)) = ms" "coord_pool (coord (with_state k ms p)) = p" "kv_caching (with_state k ms p) = kv_caching k"
  "max_model_len (with_state k ms p) = max_model_len k" "watermark_blocks (with_state k ms p) = watermark_blocks k"
  by (simp_all add: with_state_def)

lemma cache_cfg_same: "cache_cfg p m \<Longrightarrow> same_config m m' \<Longrightarrow> same_consts p q \<Longrightarrow> cache_cfg q m'"
  by (simp add: cache_cfg_def same_config_def same_consts_def cong: attn_kind.case_cong)

lemma shaped_with_state:
  assumes "shaped (coord k)" "same_consts (coord_pool (coord k)) q" "each2 (\<lambda>i. same_config) 0 (managers (coord k)) ms"
  shows "shaped (coord (with_state k ms q))"
proof -
  let ?c = "coord k"
  have "mgr_block_size m = (if dcp_world_size ?c > 1 then spec_block_size m * dcp_world_size ?c else spec_block_size m)" if m: "m \<in> set ms" for m
  proof -
    obtain j where j: "j < length ms" "m = ms ! j" using m by (auto simp: in_set_conv_nth)
    then have "same_config (managers ?c ! j) m" "managers ?c ! j \<in> set (managers ?c)" using assms(3) by (auto simp: each2_nth)
    then show ?thesis using assms(1) unfolding shaped_def same_config_def by metis
  qed
  moreover have "\<exists>m. ms = [m] \<and> mgr_block_size m = hash_block_size q" if "coord_class ?c = Unitary"
  proof -
    obtain m where m: "managers ?c = [m]" "mgr_block_size m = hash_block_size (coord_pool ?c)" using assms(1) \<open>coord_class ?c = Unitary\<close> by (auto simp: shaped_def)
    then show ?thesis using assms(2,3) by (cases ms) (auto simp: each2_nth same_config_def same_consts_def)
  qed
  ultimately show ?thesis by (simp add: shaped_def with_state_def)
qed

lemma kv_ok_with_state:
  assumes "kv_ok loose k" "books loose' ms q" "settled ms" "same_consts (coord_pool (coord k)) q"
    "each2 (\<lambda>i. same_config) 0 (managers (coord k)) ms"
  shows "kv_ok loose' (with_state k ms q)"
proof -
  have "cache_cfg q m" if c: "kv_caching k" "m \<in> set ms" for m
  proof -
    obtain j where j: "j < length ms" "m = ms ! j" using c(2) by (auto simp: in_set_conv_nth)
    then have "same_config (managers (coord k) ! j) m" "managers (coord k) ! j \<in> set (managers (coord k))"
      using assms(5) by (auto simp: each2_nth)
    then show ?thesis using assms(1,4) c(1) cache_cfg_same by (auto simp: kv_ok_def)
  qed
  moreover have "shaped (coord (with_state k ms q))" using shaped_with_state [OF _ assms(4,5)] assms(1) by (simp add: kv_ok_def)
  ultimately show ?thesis using assms(1-4) by (simp add: kv_ok_def same_consts_def)
qed

lemma remove_all_step:
  assumes "books loose (managers c) (coord_pool c)" "settled (managers c)"
  shows "\<exists>ms p. coord_remove_skipped_blocks rid n np c = Inr (c\<lparr>managers := ms, coord_pool := p\<rparr>) \<and> books loose ms p \<and> settled ms \<and>
    quiet (coord_pool c) p \<and> nfree (coord_pool c) \<le> nfree p \<and> (\<forall>b. keys_of p b = keys_of (coord_pool c) b) \<and>
    each2 (\<lambda>i m m'. removed_post rid n np m m' \<and> only rid m m') 0 (managers c) ms"
proof -
  have pre: "each (\<lambda>i m. dict_get (partial_hit_reqs m) rid = None) 0 (managers c)"
    by (rule each_set) (rule settled_none [OF assms(2)])
  have z: "loop_cost (\<lambda>i m. 0) j ms \<le> nfree p" for j ms p by (induction ms arbitrary: j) simp_all
  obtain s ms p where r: "over_managers (\<lambda>i _ st. bind_res (mgr_remove_skipped_blocks rid n np st) (\<lambda>st'. Inr ((), st'))) () c =
      Inr (s, c\<lparr>managers := ms, coord_pool := p\<rparr>)" "books loose ms p" "quiet (coord_pool c) p"
    "nfree (coord_pool c) \<le> nfree p \<and> (\<forall>b. keys_of p b = keys_of (coord_pool c) b)"
    "each2 (\<lambda>i m m'. removed_post rid n np m m' \<and> only rid m m') 0 (managers c) ms"
    using skip_loop.over [OF assms(1) pre z, where s = "()"] by blast
  have "settled ms"
  proof (rule settled_only [where rid = rid, OF assms(2) each2_mono])
    show "each2 (\<lambda>i m m'. dict_get (partial_hit_reqs m') rid = None \<and> only rid m m') 0 (managers c) ms"
      using r(5) pre by (auto simp: each2_nth each_nth removed_post_def)
  qed blast
  then show ?thesis using r by (auto simp: coord_remove_skipped_blocks_def res_simps)
qed

lemma removed_starting:
  assumes "each2 (\<lambda>i m m'. removed_post rid l np m m' \<and> only rid m m') 0 (managers c) ms" "quiet (coord_pool c) p"
    "\<forall>b. keys_of p b = keys_of (coord_pool c) b"
  shows "starting rid n ext computed c \<Longrightarrow> starting rid n ext computed (c\<lparr>managers := ms, coord_pool := p\<rparr>)"
    "continuing rid n ext computed c \<Longrightarrow> continuing rid n ext computed (c\<lparr>managers := ms, coord_pool := p\<rparr>)"
proof -
  have r: "length ms = length (managers c)" "\<And>j. j < length ms \<Longrightarrow> removed_post rid l np (managers c ! j) (ms ! j)"
    "\<And>j. j < length ms \<Longrightarrow> same_config (managers c ! j) (ms ! j)"
    using assms(1) onlyD(1) by (auto simp: each2_nth)
  have fr: "fresh rid (ms ! j)" if "j < length ms" "fresh rid (managers c ! j)" for j
    using r(2) [OF that(1)] that(2) by (simp add: removed_post_def fresh_def nulls_of_def)
  have hk: "hits_ok n h (ms ! j) p" if "j < length ms" "hits_ok n h (managers c ! j) (coord_pool c)" for j h
    using r(3) [OF that(1)] that(2) assms(2,3) by (simp add: hits_ok_def same_config_def quietD)
  show "starting rid n ext computed c \<Longrightarrow> starting rid n ext computed (c\<lparr>managers := ms, coord_pool := p\<rparr>)"
    using fr hk r(1) by (auto simp: starting_def each_nth)
  have "skipped_blocks (ms ! j) n = skipped_blocks (managers c ! j) n" "length (blocks_of rid (ms ! j)) = length (blocks_of rid (managers c ! j))"
    if "j < length ms" for j
    using r(2,3) [OF that] by (simp_all add: skipped_blocks_def same_config_def removed_post_def nulls_of_def)
  then show "continuing rid n ext computed c \<Longrightarrow> continuing rid n ext computed (c\<lparr>managers := ms, coord_pool := p\<rparr>)"
    using r(1) by (auto simp: continuing_def in_set_conv_nth) (metis nth_mem)
qed

section \<open>Allocation\<close>

text \<open>An upper bound for what an allocation takes: the blocks of all its tokens, one copy per group, and the hits.\<close>

definition room :: "nat \<Rightarrow> nat \<Rightarrow> nat list list \<Rightarrow> manager list \<Rightarrow> nat" where
  "room ntoks enc computed ms =
     loop_cost (\<lambda>i m. blocks_for (slots_for ntoks enc m) (mgr_block_size m) + length (computed ! i) + 1) 0 ms"

lemma predicted_le: "predicted rid ntoks new tot n cap m p \<le> blocks_for ntoks (mgr_block_size m) + length new + 1"
proof -
  let ?e = "get_num_evictable_blocks p (drop (skipped_blocks m tot - length (blocks_of rid m)) new)"
  have "?e \<le> length new" unfolding get_num_evictable_blocks_def by (rule order_trans [OF length_filter_le]) simp
  then show ?thesis by (auto simp: predicted_def Let_def min_def split: option.split)
qed

lemma predicted_room: "loop_cost (predicted_at rid ntoks computed enc tot n cap p) k ms \<le>
    loop_cost (\<lambda>i m. blocks_for (slots_for ntoks enc m) (mgr_block_size m) + length (computed ! i) + 1) k ms"
proof (rule loop_cost_mono, rule each_True)
  fix i m
  show "predicted_at rid ntoks computed enc tot n cap p i m \<le> blocks_for (slots_for ntoks enc m) (mgr_block_size m) + length (computed ! i) + 1"
    using predicted_le [of rid enc "[]" 0 0 cap m p] predicted_le [of rid ntoks "computed ! i" tot n cap m p]
    by (simp add: predicted_at_def slots_for_def)
qed

definition given_blocks :: "nat list list option \<Rightarrow> kv_manager \<Rightarrow> nat list list" where
  "given_blocks new_computed k = (case new_computed of None \<Rightarrow> replicate (length (managers (coord k))) [] | Some bss \<Rightarrow> bss)"

text \<open>How the scheduler calls \<open>allocate_slots\<close>: for a new request with the hits of a lookup, or for a running one without hits.\<close>

definition alloc_args ::
  "(byte list \<Rightarrow> byte list) \<Rightarrow> (hash_input \<Rightarrow> byte list) \<Rightarrow> byte list \<Rightarrow> request \<Rightarrow> nat \<Rightarrow> nat list list \<Rightarrow> nat \<Rightarrow> bool \<Rightarrow> kv_manager \<Rightarrow> bool" where
  "alloc_args sha256 hash_fn nh r num_new_computed computed ext delay k \<longleftrightarrow>
     (let n = num_computed_tokens r + num_new_computed; c = coord k
      in (starting (request_id r) n ext computed c \<or> continuing (request_id r) n ext computed c) \<and> n + ext \<le> max_model_len k \<and>
         (kv_caching k \<and> \<not> delay \<longrightarrow> hashes_ok sha256 hash_fn nh (hash_block_size (coord_pool c)) r \<and>
            mm_sorted (mm_features r) \<and> num_tokens r \<le> max_model_len k))"

lemma args_predicted:
  assumes "starting rid n ext computed c \<or> continuing rid n ext computed c"
  shows "get_num_blocks_to_allocate rid ntoks computed enc tot l cap c =
    Inr (loop_cost (predicted_at rid ntoks computed enc tot l cap (coord_pool c)) 0 (managers c))"
proof (rule coord_predicted)
  show "each (\<lambda>i m. rid \<in> set (dict_keys (num_cached_block m)) \<longrightarrow> computed ! i = []) 0 (managers c)"
    using assms by (auto simp: starting_def continuing_def each_nth fresh_def map_of_eq_None_iff empty_nth)
qed

lemma with_state_same: "with_state k (managers (coord k)) (coord_pool (coord k)) = k"
  by (simp add: with_state_def)

lemma gate_step:
  assumes "kv_ok loose k" "starting (request_id r) n ext computed (coord k) \<or> continuing (request_id r) n ext computed (coord k)"
  shows "full_sequence_fits r computed enc tot l watermark k =
    Inr (loop_cost (predicted_at (request_id r) (min (num_tokens r) (max_model_len k)) computed enc tot l True (coord_pool (coord k))) 0
      (managers (coord k)) + watermark \<le> nfree (coord_pool (coord k)))"
  using args_predicted [OF assms(2)] pool_ok_free [OF booksD(1), of loose "managers (coord k)" "coord_pool (coord k)"] assms(1)
  by (simp add: full_sequence_fits_def res_simps kv_ok_def del: of_nat_add)

lemma only_config: "each2 (\<lambda>i. only rid) 0 ms ms' \<Longrightarrow> each2 (\<lambda>i. same_config) 0 ms ms'"
  by (erule each2_mono) (rule onlyD(1))

text \<open>
  What an allocation keeps of the table of the request: the blocks that its attention still reads, or the hits it starts with.
\<close>

definition kept :: "string \<Rightarrow> nat \<Rightarrow> nat \<Rightarrow> nat list list \<Rightarrow> nat \<Rightarrow> nat option \<Rightarrow> nat \<Rightarrow> manager \<Rightarrow> manager \<Rightarrow> bool" where
  "kept rid n ext computed l np i m m' \<longleftrightarrow>
     (if is_empty_blocks computed \<and> ext = 0 then
        length (blocks_of rid m) \<le> length (blocks_of rid m') \<and> (\<forall>j < length (blocks_of rid m).
          \<not> unneeded (mgr_kind m) np l (mgr_block_size m) j \<longrightarrow> blocks_of rid m' ! j = blocks_of rid m ! j)
      else mgr_kind m \<noteq> CrossAttention \<and> n mod mgr_block_size m = 0 \<longrightarrow>
        (\<exists>new. blocks_of rid m' = hit_blocks m (n + ext) (computed ! i) @ new))"

lemma based_kept:
  assumes "removed_post rid l np m m1" "only rid m m1" "based rid n ext computed i m1 m2"
  shows "kept rid n ext computed l np i m m2"
proof (cases "is_empty_blocks computed \<and> ext = 0")
  case True
  then obtain new where "blocks_of rid m2 = blocks_of rid m1 @ new" using assms(3) by (auto simp: based_def)
  moreover have "length (blocks_of rid m1) = length (blocks_of rid m)" using assms(1) by (simp add: removed_post_def nulls_of_def)
  ultimately show ?thesis using True assms(1) by (simp add: kept_def removed_post_def nth_append)
next
  case False
  have "hit_blocks m1 (n + ext) (computed ! i) = hit_blocks m (n + ext) (computed ! i)" "mgr_kind m1 = mgr_kind m" "mgr_block_size m1 = mgr_block_size m"
    using onlyD(1) [OF assms(2)] by (simp_all add: hit_blocks_def skipped_blocks_def same_config_def)
  then show ?thesis using False assms(3) by (simp only: kept_def based_def if_False)
qed

lemma take_after_removal:
  assumes ok: "kv_ok loose k" and args: "alloc_args sha256 hash_fn nh r nc computed ext delay k"
    and rm: "books loose ms1 p1" "settled ms1" "quiet (coord_pool (coord k)) p1" "\<forall>b. keys_of p1 b = keys_of (coord_pool (coord k)) b"
      "each2 (\<lambda>i m m'. removed_post (request_id r) l np m m' \<and> only (request_id r) m m') 0 (managers (coord k)) ms1"
  defines "n \<equiv> num_computed_tokens r + nc"
  assumes ntoks: "n + ext \<le> ntoks" "min (n + ext + num_new) (num_tokens r) \<le> ntoks \<or> max_model_len k < num_tokens r"
    and free: "loop_cost (predicted_at (request_id r) ntoks computed enc (n + ext) n False p1) 0 ms1 \<le> nfree p1"
  shows "\<exists>new d ms q. take_slots sha256 r computed n ext ntoks enc (min (n + ext + num_new) (num_tokens r)) delay (kv_caching k)
      ((coord k)\<lparr>managers := ms1, coord_pool := p1\<rparr>) = Inr (new, with_cache r d, (coord k)\<lparr>managers := ms, coord_pool := q\<rparr>) \<and>
    kv_ok loose (with_state k ms q) \<and>
    each2 (\<lambda>i m m'. slotted (request_id r) ntoks enc m m' \<and> kept (request_id r) n ext computed l np i m m') 0 (managers (coord k)) ms"
proof -
  let ?c = "(coord k)\<lparr>managers := ms1, coord_pool := p1\<rparr>" and ?rid = "request_id r"
  have sc: "same_consts (coord_pool (coord k)) p1" using quiet_consts [OF rm(3)] .
  have on: "each2 (\<lambda>i. only ?rid) 0 (managers (coord k)) ms1" by (rule each2_mono [OF rm(5)]) blast
  have k1: "kv_ok loose (with_state k ms1 p1)" by (rule kv_ok_with_state [OF ok rm(1,2) sc only_config [OF on]])
  have st: "starting ?rid n ext computed ?c \<and> n + ext \<le> ntoks \<or> continuing ?rid n ext computed ?c"
    using args removed_starting [OF rm(5,3,4), of n ext computed] ntoks(1) by (auto simp: alloc_args_def n_def Let_def)
  have ca: "enable_caching (coord_pool ?c) \<and> (\<forall>m \<in> set (managers ?c). cache_cfg (coord_pool ?c) m) \<and>
       hashes_ok sha256 hash_fn nh (hash_block_size (coord_pool ?c)) r \<and> mm_sorted (mm_features r) \<and>
       min (n + ext + num_new) (num_tokens r) \<le> num_tokens r \<and> min (n + ext + num_new) (num_tokens r) \<le> ntoks"
    if "kv_caching k \<and> \<not> delay"
    using that k1 args sc ntoks(2) by (auto simp: kv_ok_def alloc_args_def Let_def same_consts_def)
  obtain new d ms q where t: "take_slots sha256 r computed n ext ntoks enc (min (n + ext + num_new) (num_tokens r)) delay (kv_caching k) ?c =
      Inr (new, with_cache r d, ?c\<lparr>managers := ms, coord_pool := q\<rparr>)" "books loose ms q" "settled ms" "same_consts p1 q"
    "each2 (\<lambda>i m m'. slotted ?rid ntoks enc m m' \<and> based ?rid n ext computed i m m') 0 ms1 ms"
    using take_slots_step [where c = ?c and loose = loose and enc = enc and caching = "kv_caching k" and delay = delay, OF _ _ st _ ca] rm(1,2) free by auto
  have sl: "each2 (\<lambda>i m m'. slotted ?rid ntoks enc m m' \<and> kept ?rid n ext computed l np i m m') 0 (managers (coord k)) ms"
  proof (rule each2_trans [OF rm(5) t(5)])
    fix i m m1 m2
    assume a: "removed_post ?rid l np m m1 \<and> only ?rid m m1" "slotted ?rid ntoks enc m1 m2 \<and> based ?rid n ext computed i m1 m2"
    then have o: "only ?rid m m1" by blast
    then have "slotted ?rid ntoks enc m m2"
      using only_trans [OF o] same_config_eq [OF onlyD(1) [OF o]] a(2) by (simp add: slotted_def slots_for_def)
    then show "slotted ?rid ntoks enc m m2 \<and> kept ?rid n ext computed l np i m m2" using a based_kept by blast
  qed
  have "each2 (\<lambda>i. only ?rid) 0 (managers (coord k)) ms" by (rule each2_mono [OF sl]) (simp add: slotted_def)
  from kv_ok_with_state [OF ok t(2,3) same_consts_trans [OF sc t(4)] only_config [OF this]]
  show ?thesis using t(1) sl by auto
qed

lemma room_same:
  assumes "each2 (\<lambda>i. same_config) 0 ms ms'"
  shows "room ntoks enc computed ms' \<le> room ntoks enc computed ms"
  unfolding room_def
  by (rule loop_cost_each2, rule each2_mono [OF assms]) (simp add: same_config_def slots_for_def)

lemma allocate_run:
  fixes num_lookahead :: nat and has_scheduled :: bool
  assumes ok: "kv_ok loose k" and args: "alloc_args sha256 hash_fn nh r nc (given_blocks new_computed k) ext delay k"
    and some: "num_new \<noteq> 0 \<or> ext \<noteq> 0"
  defines "ntoks \<equiv> min (num_computed_tokens r + nc + ext + num_new + num_lookahead) (max_model_len k)"
    and "watermark \<equiv> (if needs_watermark r has_scheduled then watermark_blocks k else 0)"
  obtains fits demand ms1 p1 where
    "allocate_slots sha256 r num_new nc new_computed num_lookahead ext delay enc full_must_fit reserved has_scheduled k =
      (if \<not> fits then Inr (None, r, k)
       else if nfree p1 < demand + watermark + reserved then Inr (None, r, with_state k ms1 p1)
       else bind_res (take_slots sha256 r (given_blocks new_computed k) (num_computed_tokens r + nc) ext ntoks enc
              (min (num_computed_tokens r + nc + ext + num_new) (num_tokens r)) delay (kv_caching k)
              ((coord k)\<lparr>managers := ms1, coord_pool := p1\<rparr>)) (\<lambda>(new, r', c2). Inr (Some new, r', k\<lparr>coord := c2\<rparr>)))"
    "books loose ms1 p1" "settled ms1" "quiet (coord_pool (coord k)) p1" "nfree (coord_pool (coord k)) \<le> nfree p1"
    "\<forall>b. keys_of p1 b = keys_of (coord_pool (coord k)) b"
    "each2 (\<lambda>i m m'. removed_post (request_id r) (num_computed_tokens r + nc + ext - num_in_flight_tokens r) (Some (num_prompt_tokens r)) m m' \<and>
       only (request_id r) m m') 0 (managers (coord k)) ms1"
    "demand = loop_cost (predicted_at (request_id r) ntoks (given_blocks new_computed k) enc (num_computed_tokens r + nc + ext)
       (num_computed_tokens r + nc) False p1) 0 ms1"
    "demand \<le> room ntoks enc (given_blocks new_computed k) (managers (coord k))"
    "(full_must_fit \<longrightarrow> room (min (num_tokens r) (max_model_len k)) enc (given_blocks new_computed k) (managers (coord k)) + watermark \<le>
       nfree (coord_pool (coord k))) \<Longrightarrow> fits"
proof -
  let ?rid = "request_id r" and ?n = "num_computed_tokens r + nc" and ?c = "coord k" and ?comp = "given_blocks new_computed k"
  have st: "starting ?rid ?n ext ?comp ?c \<or> continuing ?rid ?n ext ?comp ?c" and len: "?n + ext \<le> max_model_len k"
    using args by (simp_all add: alloc_args_def Let_def)
  have tot: "min (?n + ext) (max_model_len k) = ?n + ext" using len by simp
  define fits where "fits \<longleftrightarrow> (full_must_fit \<longrightarrow> loop_cost (predicted_at ?rid (min (num_tokens r) (max_model_len k)) ?comp enc (?n + ext) ?n True
      (coord_pool ?c)) 0 (managers ?c) + watermark \<le> nfree (coord_pool ?c))"
  have gate: "(if full_must_fit then full_sequence_fits r ?comp enc (?n + ext) ?n watermark k else Inr True) = Inr fits"
    using gate_step [OF ok st] by (simp add: fits_def)
  have bk: "books loose (managers ?c) (coord_pool ?c)" "settled (managers ?c)" using ok by (simp_all add: kv_ok_def)
  obtain ms1 p1 where rm: "coord_remove_skipped_blocks ?rid (?n + ext - num_in_flight_tokens r) (Some (num_prompt_tokens r)) ?c =
      Inr (?c\<lparr>managers := ms1, coord_pool := p1\<rparr>)" "books loose ms1 p1" "settled ms1" "quiet (coord_pool ?c) p1"
    "nfree (coord_pool ?c) \<le> nfree p1" "\<forall>b. keys_of p1 b = keys_of (coord_pool ?c) b"
    "each2 (\<lambda>i m m'. removed_post ?rid (?n + ext - num_in_flight_tokens r) (Some (num_prompt_tokens r)) m m' \<and> only ?rid m m') 0 (managers ?c) ms1"
    using remove_all_step [OF bk] by blast
  have on: "each2 (\<lambda>i. only ?rid) 0 (managers ?c) ms1" by (rule each2_mono [OF rm(7)]) blast
  define demand where "demand = loop_cost (predicted_at ?rid ntoks ?comp enc (?n + ext) ?n False p1) 0 ms1"
  have pr: "get_num_blocks_to_allocate ?rid ntoks ?comp enc (?n + ext) ?n False (?c\<lparr>managers := ms1, coord_pool := p1\<rparr>) = Inr demand"
    using args_predicted [of ?rid ?n ext ?comp "?c\<lparr>managers := ms1, coord_pool := p1\<rparr>"] removed_starting [OF rm(7,4,6)] st
    by (auto simp: demand_def)
  have dr: "demand \<le> room ntoks enc ?comp (managers ?c)"
    using predicted_room room_same [OF only_config [OF on]] unfolding demand_def room_def by (rule order_trans)
  have free: "get_num_free_blocks p1 = int (nfree p1)" using pool_ok_free [OF booksD(1) [OF rm(2)]] .
  have run: "allocate_slots sha256 r num_new nc new_computed num_lookahead ext delay enc full_must_fit reserved has_scheduled k =
    (if \<not> fits then Inr (None, r, k)
     else if nfree p1 < demand + watermark + reserved then Inr (None, r, with_state k ms1 p1)
     else bind_res (take_slots sha256 r ?comp ?n ext ntoks enc (min (?n + ext + num_new) (num_tokens r)) delay (kv_caching k)
            (?c\<lparr>managers := ms1, coord_pool := p1\<rparr>)) (\<lambda>(new, r', c2). Inr (Some new, r', k\<lparr>coord := c2\<rparr>)))"
  proof -
    have c0: "\<not> (num_new = 0 \<and> ext = 0)" using some by blast
    have cmp: "int (demand + watermark) > get_num_free_blocks (coord_pool (?c\<lparr>managers := ms1, coord_pool := p1\<rparr>)) - int reserved \<longleftrightarrow>
        nfree p1 < demand + watermark + reserved" using free by auto
    show ?thesis
      by (simp only: allocate_slots_def c0 if_False Let_def given_blocks_def [symmetric] watermark_def [symmetric] tot gate bind_res_Inr
          ntoks_def [symmetric] rm(1) pr cmp with_state_def)
  qed
  have fit: fits if "full_must_fit \<longrightarrow> room (min (num_tokens r) (max_model_len k)) enc ?comp (managers ?c) + watermark \<le> nfree (coord_pool ?c)"
    using that predicted_room [of ?rid "min (num_tokens r) (max_model_len k)" ?comp enc "?n + ext" ?n True "coord_pool ?c" 0 "managers ?c"]
    unfolding fits_def room_def by linarith
  show thesis by (rule that [OF run rm(2-7) demand_def dr fit])
qed

lemma allocate_step:
  fixes num_lookahead :: nat and has_scheduled :: bool
  assumes ok: "kv_ok loose k" and args: "alloc_args sha256 hash_fn nh r nc (given_blocks new_computed k) ext delay k"
    and some: "num_new \<noteq> 0 \<or> ext \<noteq> 0"
  defines "ntoks \<equiv> min (num_computed_tokens r + nc + ext + num_new + num_lookahead) (max_model_len k)"
    and "watermark \<equiv> (if needs_watermark r has_scheduled then watermark_blocks k else 0)"
  shows "\<exists>res d ms q. allocate_slots sha256 r num_new nc new_computed num_lookahead ext delay enc full_must_fit reserved has_scheduled k =
      Inr (res, with_cache r d, with_state k ms q) \<and> kv_ok loose (with_state k ms q) \<and> each2 (\<lambda>i. only (request_id r)) 0 (managers (coord k)) ms \<and>
    (res \<noteq> None \<longrightarrow> each2 (\<lambda>i m m'. slotted (request_id r) ntoks enc m m' \<and>
       kept (request_id r) (num_computed_tokens r + nc) ext (given_blocks new_computed k) (num_computed_tokens r + nc + ext - num_in_flight_tokens r)
         (Some (num_prompt_tokens r)) i m m') 0 (managers (coord k)) ms) \<and>
    (room ntoks enc (given_blocks new_computed k) (managers (coord k)) + watermark + reserved \<le> nfree (coord_pool (coord k)) \<and>
     (full_must_fit \<longrightarrow> room (min (num_tokens r) (max_model_len k)) enc (given_blocks new_computed k) (managers (coord k)) + watermark \<le>
        nfree (coord_pool (coord k))) \<longrightarrow> res \<noteq> None)"
proof -
  let ?rid = "request_id r" and ?n = "num_computed_tokens r + nc" and ?c = "coord k" and ?comp = "given_blocks new_computed k"
  obtain fits demand ms1 p1 where run: "allocate_slots sha256 r num_new nc new_computed num_lookahead ext delay enc full_must_fit reserved has_scheduled k =
      (if \<not> fits then Inr (None, r, k)
       else if nfree p1 < demand + watermark + reserved then Inr (None, r, with_state k ms1 p1)
       else bind_res (take_slots sha256 r ?comp ?n ext ntoks enc (min (?n + ext + num_new) (num_tokens r)) delay (kv_caching k)
              (?c\<lparr>managers := ms1, coord_pool := p1\<rparr>)) (\<lambda>(new, r', c2). Inr (Some new, r', k\<lparr>coord := c2\<rparr>)))"
    and rm: "books loose ms1 p1" "settled ms1" "quiet (coord_pool ?c) p1" "nfree (coord_pool ?c) \<le> nfree p1"
      "\<forall>b. keys_of p1 b = keys_of (coord_pool ?c) b"
      "each2 (\<lambda>i m m'. removed_post ?rid (?n + ext - num_in_flight_tokens r) (Some (num_prompt_tokens r)) m m' \<and> only ?rid m m') 0 (managers ?c) ms1"
    and d: "demand = loop_cost (predicted_at ?rid ntoks ?comp enc (?n + ext) ?n False p1) 0 ms1" "demand \<le> room ntoks enc ?comp (managers ?c)"
    and fit: "(full_must_fit \<longrightarrow> room (min (num_tokens r) (max_model_len k)) enc ?comp (managers ?c) + watermark \<le> nfree (coord_pool ?c)) \<Longrightarrow> fits"
    by (rule allocate_run [where num_lookahead = num_lookahead and enc = enc and full_must_fit = full_must_fit and reserved = reserved and
      has_scheduled = has_scheduled, OF ok args some, folded ntoks_def watermark_def]) (rule that, blast+)
  have on: "each2 (\<lambda>i. only ?rid) 0 (managers ?c) ms1" by (rule each2_mono [OF rm(6)]) blast
  consider "\<not> fits" | "fits" "nfree p1 < demand + watermark + reserved" | "fits" "\<not> nfree p1 < demand + watermark + reserved" by blast
  then show ?thesis
  proof cases
    case 1
    have "each2 (\<lambda>i. only ?rid) 0 (managers ?c) (managers ?c)" by (simp add: each2_nth only_refl)
    then show ?thesis using 1 fit ok unfolding run
      by (intro exI [of _ None] exI [of _ "prompt_embeds_hashes r"] exI [of _ "managers ?c"] exI [of _ "coord_pool ?c"])
        (auto simp: with_state_same)
  next
    case 2
    have "kv_ok loose (with_state k ms1 p1)" by (rule kv_ok_with_state [OF ok rm(1,2) quiet_consts [OF rm(3)] only_config [OF on]])
    then show ?thesis using 2 on d(2) rm(4) unfolding run
      by (intro exI [of _ None] exI [of _ "prompt_embeds_hashes r"] exI [of _ ms1] exI [of _ p1]) auto
  next
    case 3
    have "?n + ext \<le> max_model_len k" using args by (simp add: alloc_args_def Let_def)
    then have nt: "?n + ext \<le> ntoks" "min (?n + ext + num_new) (num_tokens r) \<le> ntoks \<or> max_model_len k < num_tokens r"
      by (auto simp: ntoks_def)
    have "demand \<le> nfree p1" using 3(2) by linarith
    then obtain new d ms q where t: "take_slots sha256 r ?comp ?n ext ntoks enc (min (?n + ext + num_new) (num_tokens r)) delay (kv_caching k)
        (?c\<lparr>managers := ms1, coord_pool := p1\<rparr>) = Inr (new, with_cache r d, ?c\<lparr>managers := ms, coord_pool := q\<rparr>)"
      "kv_ok loose (with_state k ms q)" "each2 (\<lambda>i m m'. slotted ?rid ntoks enc m m' \<and>
        kept ?rid ?n ext ?comp (?n + ext - num_in_flight_tokens r) (Some (num_prompt_tokens r)) i m m') 0 (managers ?c) ms"
      using take_after_removal [OF ok args rm(1-3,5,6) nt] d(1) by blast
    have "each2 (\<lambda>i. only ?rid) 0 (managers ?c) ms" by (rule each2_mono [OF t(3)]) (simp add: slotted_def)
    then show ?thesis using 3 t unfolding run
      by (intro exI [of _ "Some new"] exI [of _ d] exI [of _ ms] exI [of _ q]) (simp add: with_state_def)
  qed
qed

end
