(* ===== verification/KV_Runs.thy ===== *)
theory KV_Runs
  imports KV_Slots
begin

text \<open>
  The KV-cache manager as the scheduler uses it: the states that its operations reach from construction, the invariant of these
  states, and what it guarantees about reference counts, about the sharing of blocks and about the release of blocks.
\<close>

section \<open>A new manager\<close>

text \<open>What the configuration of the groups must satisfy.\<close>

definition group_ok :: "bool \<Rightarrow> nat \<Rightarrow> nat \<Rightarrow> kv_spec \<Rightarrow> bool" where
  "group_ok caching dcp hash_bs s \<longleftrightarrow> kind_ok (spec_kind s) \<and>
     (caching \<longrightarrow> (case spec_kind s of CrossAttention \<Rightarrow> False | SlidingWindow w extra \<Rightarrow> dcp \<le> 1 | ChunkedLocal c \<Rightarrow> True
        | _ \<Rightarrow> (if dcp > 1 then spec_size s * dcp else spec_size s) = hash_bs))"

definition groups_ok :: "bool \<Rightarrow> nat \<Rightarrow> nat \<Rightarrow> group_config list \<Rightarrow> bool" where
  "groups_ok caching dcp hash_bs gs \<longleftrightarrow> length gs < 2 ^ 32 \<and> list_all (\<lambda>g. group_ok caching dcp hash_bs (group_spec g)) gs"

definition blank :: "manager \<Rightarrow> bool" where
  "blank m \<longleftrightarrow> req_to_blocks m = [] \<and> num_cached_block m = [] \<and> partial_hit_reqs m = [] \<and> pending_cow_copies m = []"

lemma blank_facts:
  assumes "blank m"
  shows "mgr_refs m b = 0" "list_refs m b = 0" "blocks_of rid m = []" "tail rid m = []" "dict_get (partial_hit_reqs m) rid = None"
    "partial_ok m"
  using assms by (simp_all add: blank_def mgr_refs_def list_refs_def cow_refs_def blocks_of_def tail_def partial_ok_def)

lemma books_blank:
  assumes "pool_ok p" "\<And>b. refs p b = 0"
    "\<And>m. m \<in> set ms \<Longrightarrow> blank m \<and> 0 < mgr_block_size m \<and> kind_ok (mgr_kind m) \<and> mgr_caching m = enable_caching p"
  shows "books (\<lambda>_. 0) ms p"
proof (rule booksI)
  show "pool_ok p" by (rule assms(1))
  show "mgr_ok p m" if "m \<in> set ms" for m
    using assms(3) [OF that] blank_facts(3,6) by (auto simp: mgr_ok_def blank_def)
  have "held_by ms b = 0" for b using assms(3) blank_facts(1) by (simp add: held_by_def)
  then show "refs p b = int (0 + held_by ms b)" for b using assms(2) by simp
  show "keys_of p b = {} \<and> listed ms b \<le> 1" if "m \<in> set ms" "b \<in> set (tail rid m)" for m rid b
    using assms(3) [OF that(1)] blank_facts(4) that(2) by auto
qed

lemma mark_eagle_all:
  assumes "\<And>m. P m \<Longrightarrow> P (m\<lparr>mgr_use_eagle := True\<rparr>)" "\<forall>m \<in> set ms. P m"
  shows "\<forall>m \<in> set (mark_eagle ags ms). P m"
proof -
  have upd: "\<forall>m \<in> set (ms[i := (ms ! i)\<lparr>mgr_use_eagle := True\<rparr>]). P m" if "\<forall>m \<in> set ms. P m" for ms i
  proof (cases "i < length ms")
    case True
    then have "P ((ms ! i)\<lparr>mgr_use_eagle := True\<rparr>)" using that assms(1) nth_mem by blast
    then show ?thesis using that set_update_subset_insert [of ms i "(ms ! i)\<lparr>mgr_use_eagle := True\<rparr>"] by auto
  next
    case False
    then have "ms[i := x] = ms" for x by (simp add: list_update_beyond)
    then show ?thesis using that by simp
  qed
  have ids: "\<forall>m \<in> set (fold (\<lambda>i ms. ms[i := (ms ! i)\<lparr>mgr_use_eagle := True\<rparr>]) js ms). P m" if "\<forall>m \<in> set ms. P m" for js ms
    using that
  proof (induction js arbitrary: ms)
    case (Cons i js)
    show ?case using Cons.IH [OF upd [OF Cons.prems, of i]] by simp
  qed simp
  show ?thesis unfolding mark_eagle_def using assms(2)
  proof (induction ags arbitrary: ms)
    case (Cons g ags)
    show ?case using Cons.IH [OF ids [OF Cons.prems, of "group_ids g"]] Cons.IH [OF Cons.prems] by simp
  qed simp
qed

lemma mark_eagle_length: "length (mark_eagle ags ms) = length ms"
proof -
  have e: "length (fold (\<lambda>i ms. ms[i := (ms ! i)\<lparr>mgr_use_eagle := True\<rparr>]) js ms) = length ms" for js ms
    by (induction js arbitrary: ms) simp_all
  show ?thesis unfolding mark_eagle_def by (induction ags arbitrary: ms) (simp_all add: e)
qed

text \<open>A manager that the constructor creates for one of the groups.\<close>

definition made_for :: "group_config list \<Rightarrow> bool \<Rightarrow> nat \<Rightarrow> nat \<Rightarrow> manager \<Rightarrow> bool" where
  "made_for gs caching dcp sched_bs m \<longleftrightarrow> blank m \<and> mgr_caching m = caching \<and> scheduler_block_size m = sched_bs \<and>
     0 \<le> kv_cache_group_id m \<and> kv_cache_group_id m < int (length gs) \<and>
     (\<exists>g \<in> set gs. mgr_kind m = spec_kind (group_spec g) \<and> spec_block_size m = spec_size (group_spec g) \<and>
        mgr_block_size m = (if dcp > 1 then spec_size (group_spec g) * dcp else spec_size (group_spec g)))"

lemma made_for_eagle: "made_for gs caching dcp sched_bs m \<Longrightarrow> made_for gs caching dcp sched_bs (m\<lparr>mgr_use_eagle := e\<rparr>)"
  by (simp add: made_for_def blank_def)

lemma base_facts:
  assumes "base_coordinator cls gs num_blocks max_len max_in_flight eagle caching events dcp sched_bs hash_bs mc lookahead
      retention zeroing use_int_hashes order = Inr c"
  shows "new_pool num_blocks caching hash_bs events mc use_int_hashes order = Inr (coord_pool c)" "0 < hash_bs"
    "list_all (\<lambda>g. 0 < spec_size (group_spec g) \<and> sched_bs mod spec_size (group_spec g) = 0) gs"
    "\<forall>m \<in> set (managers c). made_for gs caching dcp sched_bs m" "length (managers c) = length gs" "coord_class c = cls"
    "dcp_world_size c = dcp"
proof -
  show "new_pool num_blocks caching hash_bs events mc use_int_hashes order = Inr (coord_pool c)" "0 < hash_bs"
      "list_all (\<lambda>g. 0 < spec_size (group_spec g) \<and> sched_bs mod spec_size (group_spec g) = 0) gs" "coord_class c = cls"
      "dcp_world_size c = dcp"
    using assms unfolding base_coordinator_def
    by (auto simp: bind_res_eq_Inr py_assert_def Let_def list_all_iff list_ex_iff split: if_splits)
  have ms: "managers c = map (\<lambda>(i, g). get_manager_for_kv_cache_spec (spec_kind (group_spec g)) (spec_size (group_spec g))
      max_in_flight max_len caching (int i) dcp sched_bs zeroing) (zip [0 ..< length gs] gs)"
    using assms unfolding base_coordinator_def by (auto simp: bind_res_eq_Inr Let_def split: if_splits)
  then show "length (managers c) = length gs" by simp
  have "made_for gs caching dcp sched_bs (get_manager_for_kv_cache_spec (spec_kind (group_spec g)) (spec_size (group_spec g))
      max_in_flight max_len caching (int i) dcp sched_bs zeroing)" if "(i, g) \<in> set (zip [0 ..< length gs] gs)" for i g
    using that set_zip_leftD [OF that] set_zip_rightD [OF that] by (auto simp: made_for_def get_manager_for_kv_cache_spec_def blank_def)
  then show "\<forall>m \<in> set (managers c). made_for gs caching dcp sched_bs m" unfolding ms by auto
qed

lemma coordinator_facts:
  assumes "get_kv_cache_coordinator gs num_blocks max_len max_in_flight eagle caching events dcp sched_bs hash_bs mc lookahead
      retention zeroing use_int_hashes order = Inr c"
  shows "new_pool num_blocks caching hash_bs events mc use_int_hashes order = Inr (coord_pool c)" "0 < hash_bs"
    "list_all (\<lambda>g. 0 < spec_size (group_spec g) \<and> sched_bs mod spec_size (group_spec g) = 0) gs"
    "\<forall>m \<in> set (managers c). made_for gs caching dcp sched_bs m" "length (managers c) = length gs"
    "caching \<Longrightarrow> \<forall>m \<in> set (managers c). hash_block_size (coord_pool c) dvd mgr_block_size m"
    "shaped c"
proof -
  let ?base = "\<lambda>cls cach. base_coordinator cls gs num_blocks max_len max_in_flight eagle cach events dcp sched_bs hash_bs mc lookahead
      retention zeroing use_int_hashes order"
  let ?ok = "\<lambda>c cls cach. new_pool num_blocks cach hash_bs events mc use_int_hashes order = Inr (coord_pool c) \<and> 0 < hash_bs \<and>
    list_all (\<lambda>g. 0 < spec_size (group_spec g) \<and> sched_bs mod spec_size (group_spec g) = 0) gs \<and>
    (\<forall>m \<in> set (managers c). made_for gs cach dcp sched_bs m) \<and> length (managers c) = length gs \<and> coord_class c = cls \<and> dcp_world_size c = dcp"
  have base: "?base cls cach = Inr c0 \<Longrightarrow> ?ok c0 cls cach" for cls cach c0
    by (intro conjI) (erule base_facts)+
  consider "\<not> caching" "?base NoPrefixCache False = Inr c"
    | c0 where "caching" "length gs = 1" "?base Unitary caching = Inr c0" "finish_unitary caching c0 = Inr c"
    | c0 where "caching" "length gs \<noteq> 1" "?base Hybrid caching = Inr c0" "finish_hybrid c0 = Inr c"
    using assms by (auto simp: get_kv_cache_coordinator_def bind_res_eq_Inr split: if_splits)
  then have ok: "?ok c (if \<not> caching then NoPrefixCache else if length gs = 1 then Unitary else Hybrid) caching \<and>
    (caching \<longrightarrow> (\<forall>m \<in> set (managers c). hash_block_size (coord_pool c) dvd mgr_block_size m)) \<and>
    (coord_class c = Unitary \<longrightarrow> (\<exists>m. managers c = [m] \<and> mgr_block_size m = hash_block_size (coord_pool c)))"
  proof cases
    case 1
    then show ?thesis using base [OF 1(2)] by simp
  next
    case 2
    note b = base [OF 2(3)]
    obtain m where m: "managers c0 = [m]" using b 2(2) by (metis length_Suc_conv length_0_conv One_nat_def)
    have c: "c = c0\<lparr>managers := [m\<lparr>mgr_use_eagle := 0 \<in> set (eagle_group_ids c0)\<rparr>]\<rparr>"
      "hash_block_size (coord_pool c0) = mgr_block_size m"
      using 2(1,4) m by (auto simp: finish_unitary_def bind_res_eq_Inr py_assert_def split: if_splits)
    then show ?thesis using b 2(1,2) m made_for_eagle by simp
  next
    case 3
    note b = base [OF 3(3)]
    obtain ags where c: "c = c0\<lparr>attention_groups := ags, managers := mark_eagle ags (managers c0)\<rparr>"
      "list_all (\<lambda>m. mgr_block_size m mod hash_block_size (coord_pool c0) = 0) (managers c0)"
      using 3(4) by (auto simp: finish_hybrid_def Let_def bind_res_eq_Inr py_assert_def split: if_splits)
    have "\<forall>m \<in> set (mark_eagle ags (managers c0)). made_for gs caching dcp sched_bs m \<and> mgr_block_size m mod hash_block_size (coord_pool c0) = 0"
      by (rule mark_eagle_all) (use b c(2) made_for_eagle in \<open>auto simp: list_all_iff\<close>)
    then show ?thesis using b c(1) 3(1,2) mark_eagle_length by (simp add: dvd_eq_mod_eq_0)
  qed
  then show "new_pool num_blocks caching hash_bs events mc use_int_hashes order = Inr (coord_pool c)" "0 < hash_bs"
    "list_all (\<lambda>g. 0 < spec_size (group_spec g) \<and> sched_bs mod spec_size (group_spec g) = 0) gs"
    "\<forall>m \<in> set (managers c). made_for gs caching dcp sched_bs m" "length (managers c) = length gs"
    "caching \<Longrightarrow> \<forall>m \<in> set (managers c). hash_block_size (coord_pool c) dvd mgr_block_size m" by blast+
  show "shaped c" using ok by (auto simp: shaped_def made_for_def)
qed

lemma new_kv_ok:
  assumes "new_kv_manager gs num_blocks max_len sched_bs hash_bs max_in_flight caching eagle lookahead with_stats events dcp mc watermark
      retention zeroing use_int_hashes order = Inr k" "groups_ok caching dcp hash_bs gs" "\<And>xs. mset (order xs) = mset xs"
  shows "kv_ok (\<lambda>_. 0) k"
proof -
  obtain c where co: "get_kv_cache_coordinator gs num_blocks max_len (case max_in_flight of None \<Rightarrow> max_len | Some n \<Rightarrow> n) eagle caching
         events dcp sched_bs hash_bs mc lookahead retention zeroing use_int_hashes order = Inr c"
    and k: "coord k = c" "kv_caching k = caching"
    using assms(1) by (auto simp: new_kv_manager_def bind_res_eq_Inr split: if_splits)
  note f = coordinator_facts [OF co]
  have "0 < num_blocks" using f(1) by (auto simp: new_pool_def bind_res_eq_Inr py_assert_def split: if_splits)
  from new_pool_facts [OF this assms(3), of caching hash_bs events mc use_int_hashes]
  have p: "pool_ok (coord_pool c)" "\<And>b. refs (coord_pool c) b = 0" "enable_caching (coord_pool c) = caching"
    "hash_block_size (coord_pool c) = hash_bs"
    using f(1) by (auto simp: pool_ok_def)
  have mf: "blank m \<and> 0 < mgr_block_size m \<and> kind_ok (mgr_kind m) \<and> mgr_caching m = enable_caching (coord_pool c)"
    "caching \<Longrightarrow> cache_cfg (coord_pool c) m" if m: "m \<in> set (managers c)" for m
  proof -
    have mm: "made_for gs caching dcp sched_bs m" using f(4) m by blast
    then obtain g where g: "g \<in> set gs" "mgr_kind m = spec_kind (group_spec g)"
      "mgr_block_size m = (if dcp > 1 then spec_size (group_spec g) * dcp else spec_size (group_spec g))" by (auto simp: made_for_def)
    have gk: "group_ok caching dcp hash_bs (group_spec g)" "0 < spec_size (group_spec g)" "sched_bs mod spec_size (group_spec g) = 0"
      using assms(2) f(3) g(1) by (auto simp: groups_ok_def list_all_iff)
    show "blank m \<and> 0 < mgr_block_size m \<and> kind_ok (mgr_kind m) \<and> mgr_caching m = enable_caching (coord_pool c)"
      using mm g gk p(3) by (auto simp: made_for_def group_ok_def)
    have "int (length gs) \<le> 2 ^ 32" using assms(2) by (simp add: groups_ok_def)
    moreover have "hash_block_size (coord_pool c) dvd mgr_block_size m" if caching using f(6) [OF that] m by blast
    ultimately show "cache_cfg (coord_pool c) m" if caching
      using that mm g gk f(2) p(4) by (auto simp: made_for_def group_ok_def cache_cfg_def split: attn_kind.splits)
  qed
  have "settled (managers c)" using mf(1) blank_facts(5) by (auto simp: settled_def)
  then show ?thesis using books_blank [OF p(1,2) mf(1)] mf(2) p(3) k f(7) by (simp add: kv_ok_def)
qed

section \<open>The operations keep the invariant\<close>

lemma kv_okD:
  assumes "kv_ok loose k"
  shows "books loose (managers (coord k)) (coord_pool (coord k))" "settled (managers (coord k))"
    "enable_caching (coord_pool (coord k)) = kv_caching k" "pool_ok (coord_pool (coord k))"
    "m \<in> set (managers (coord k)) \<Longrightarrow> mgr_ok (coord_pool (coord k)) m"
  using assms booksD by (auto simp: kv_ok_def)

lemma kv_ok_pool:
  assumes "kv_ok loose k" "quiet (coord_pool (coord k)) q" "\<And>b. b \<noteq> 0 \<Longrightarrow> refs q b = int (loose' b + held_by (managers (coord k)) b)"
  shows "kv_ok loose' (with_state k (managers (coord k)) q)"
proof (rule kv_ok_with_state [OF assms(1) _ kv_okD(2) [OF assms(1)] quiet_consts [OF assms(2)]])
  note b = kv_okD(1) [OF assms(1)]
  show "books loose' (managers (coord k)) q"
  proof (rule booksI)
    show "pool_ok q" using quietD(1) [OF assms(2)] .
    show "mgr_ok q m" if "m \<in> set (managers (coord k))" for m using mgr_ok_quiet [OF booksD(2) [OF b that] assms(2)] .
    show "keys_of q x = {} \<and> listed (managers (coord k)) x \<le> 1"
      if "m \<in> set (managers (coord k))" "x \<in> set (tail rid m)" "x \<noteq> 0" for m rid x
      using booksD(4,5) [OF b that] quietD(5) [OF assms(2)] by blast
  qed (rule assms(3))
  show "each2 (\<lambda>i. same_config) 0 (managers (coord k)) (managers (coord k))" by (simp add: each2_nth same_config_refl)
qed

lemma index_op_quiet: "pool_ok p \<Longrightarrow> index_op p q d {} \<Longrightarrow> quiet p q \<and> (\<forall>b. refs q b = refs p b)"
  using index_op_keyed [of p q d "{}" "{}"] by (auto simp: keyed_def quiet_def)

lemma kv_ok_index:
  assumes "kv_ok loose k" "index_op (coord_pool (coord k)) q d {}"
  shows "kv_ok loose (with_state k (managers (coord k)) q)"
  using kv_ok_pool [OF assms(1)] index_op_quiet [OF kv_okD(4) [OF assms(1)] assms(2)] booksD(3) [OF kv_okD(1) [OF assms(1)]] by simp

lemma free_request_step:
  assumes "kv_ok loose k"
  shows "\<exists>ms p. free_request r k = Inr (with_state k ms p) \<and> kv_ok loose (with_state k ms p) \<and>
    ms = map (\<lambda>m. snd (mgr_pop_blocks_for_free (request_id r) m)) (managers (coord k)) \<and> nfree (coord_pool (coord k)) \<le> nfree p"
proof -
  let ?c = "coord k" and ?rid = "request_id r"
  have pre: "each (\<lambda>i m. True) 0 (managers ?c)" by (rule each_True) simp
  have z: "loop_cost (\<lambda>i m. 0) j ms \<le> nfree p" for j ms p by (induction ms arbitrary: j) simp_all
  obtain s ms p where r: "over_managers (\<lambda>i _ st. bind_res (mgr_free ?rid st) (\<lambda>st'. Inr ((), st'))) () ?c =
      Inr (s, ?c\<lparr>managers := ms, coord_pool := p\<rparr>)" "books loose ms p" "quiet (coord_pool ?c) p" "nfree (coord_pool ?c) \<le> nfree p"
    "each2 (\<lambda>i m m'. m' = snd (mgr_pop_blocks_for_free ?rid m) \<and> only ?rid m m') 0 (managers ?c) ms"
    using free_loop.over [OF kv_okD(1) [OF assms] pre z, where s = "()" and rid = ?rid] by blast
  have ms: "ms = map (\<lambda>m. snd (mgr_pop_blocks_for_free ?rid m)) (managers ?c)"
    using r(5) by (auto simp: each2_nth intro!: nth_equalityI)
  have "each2 (\<lambda>i m m'. only ?rid m m' \<and> dict_get (partial_hit_reqs m') ?rid = None) 0 (managers ?c) ms"
    using r(5) pop_facts(6) [OF kv_okD(5) [OF assms]] by (auto simp: each2_nth)
  from settled_only [OF kv_okD(2) [OF assms] this] have "settled ms" .
  moreover have "each2 (\<lambda>i. only ?rid) 0 (managers ?c) ms" by (rule each2_mono [OF r(5)]) blast
  ultimately have "kv_ok loose (with_state k ms p)"
    using kv_ok_with_state [OF assms r(2) _ quiet_consts [OF r(3)] only_config] by blast
  moreover have "free_request r k = Inr (with_state k ms p)"
    using r(1) by (simp add: free_request_def coord_free_def res_simps with_state_def)
  ultimately show ?thesis using ms r(4) by blast
qed

lemma count_concat: "count_list (concat xss) b = (\<Sum>xs \<leftarrow> xss. count_list xs b)"
  by (induction xss) simp_all

lemma pop_step:
  assumes "kv_ok loose k" "pop_blocks_for_free r k = (bs, k')"
  shows "kv_ok (\<lambda>b. loose b + count_list bs b) k'"
proof -
  let ?ms = "managers (coord k)" and ?p = "coord_pool (coord k)" and ?rid = "request_id r"
  let ?pop = "\<lambda>m. snd (mgr_pop_blocks_for_free ?rid m)"
  have bs: "bs = concat (map (blocks_of ?rid) ?ms)" and k': "k' = with_state k (map ?pop ?ms) ?p"
    using assms(2) by (auto simp: pop_blocks_for_free_def coord_pop_blocks_for_free_def mgr_pop_blocks_for_free_def with_state_def)
  note b = kv_okD(1) [OF assms(1)]
  note po = pop_facts [OF kv_okD(5) [OF assms(1)]]
  have held: "held_by (map ?pop ms) x + count_list (concat (map (blocks_of ?rid) ms)) x = held_by ms x" if "set ms \<subseteq> set ?ms" for ms x
    using that
  proof (induction ms)
    case (Cons m ms)
    then show ?case using po(7) [of m ?rid x] by force
  qed (simp add: held_by_def)
  have lst: "listed (map ?pop ms) x \<le> listed ms x" if "set ms \<subseteq> set ?ms" for ms x
    using that
  proof (induction ms)
    case (Cons m ms)
    then show ?case using onlyD(5) [OF po(2), of m ?rid x] po(3) [of m ?rid] by force
  qed (simp add: listed_def)
  have "books (\<lambda>b. loose b + count_list bs b) (map ?pop ?ms) ?p"
  proof (rule booksI)
    show "pool_ok ?p" by (rule booksD(1) [OF b])
    show "mgr_ok ?p m" if "m \<in> set (map ?pop ?ms)" for m using that po(1) by auto
    show "refs ?p x = int (loose x + count_list bs x + held_by (map ?pop ?ms) x)" if "x \<noteq> 0" for x
      using booksD(3) [OF b that] held [of ?ms x] bs by simp
    fix m rid x
    assume a: "m \<in> set (map ?pop ?ms)" "x \<in> set (tail rid m)" "x \<noteq> 0"
    then obtain m0 where m0: "m0 \<in> set ?ms" "m = ?pop m0" by auto
    then have "x \<in> set (tail rid m0)" using a(2) po(4) [of m0 ?rid] onlyD(4) [OF po(2) [of m0 ?rid], of rid] by (cases "rid = ?rid") auto
    then show "keys_of ?p x = {} \<and> listed (map ?pop ?ms) x \<le> 1"
      using booksD(4,5) [OF b m0(1) _ a(3)] lst [of ?ms x] by (meson order_refl order_trans)
  qed
  moreover have "settled (map ?pop ?ms)"
    using settled_none [OF kv_okD(2) [OF assms(1)]] by (auto simp: settled_def mgr_pop_blocks_for_free_def delete_conv')
  moreover have "each2 (\<lambda>i. same_config) 0 ?ms (map ?pop ?ms)" using onlyD(1) [OF po(2)] by (simp add: each2_nth)
  ultimately show ?thesis using kv_ok_with_state [OF assms(1), of _ "map ?pop ?ms" ?p] k' by (simp add: same_consts_def)
qed

text \<open>A holder of popped or copied blocks returns them to the pool.\<close>

lemma release_step:
  assumes "kv_ok loose k" "\<forall>b \<in> set bs. b < num_gpu_blocks (coord_pool (coord k)) \<and> (b \<noteq> 0 \<longrightarrow> count_list bs b \<le> loose b)"
    "free_blocks bs (coord_pool (coord k)) = Inr q"
  shows "kv_ok (\<lambda>b. loose b - count_list bs b) (with_state k (managers (coord k)) q)"
proof -
  note b = kv_okD(1) [OF assms(1)]
  have le: "count_list bs x \<le> loose x" if "x \<noteq> 0" for x using assms(2) that by (cases "x \<in> set bs") auto
  have "int (count_list bs x) \<le> refs (coord_pool (coord k)) x" if "x \<noteq> 0" for x using le [OF that] booksD(3) [OF b that] by simp
  then have "freeable (coord_pool (coord k)) bs" using assms(2) by (simp add: freeable_def)
  then have q: "quiet (coord_pool (coord k)) q" "\<And>c. refs q c = refs (coord_pool (coord k)) c - int (count_list bs c)"
    using free_ok [OF kv_okD(4) [OF assms(1)], of bs] assms(3) by auto
  show ?thesis
  proof (rule kv_ok_pool [OF assms(1) q(1)])
    fix x :: nat
    assume x: "x \<noteq> 0"
    show "refs q x = int (loose x - count_list bs x + held_by (managers (coord k)) x)"
      using q(2) [of x] booksD(3) [OF b x] le [OF x] by linarith
  qed
qed

lemma copies_step:
  assumes "kv_ok loose k" "take_kv_cache_block_copies k = (pairs, bs, k')"
  shows "kv_ok (\<lambda>b. loose b + count_list bs b) k'"
proof -
  let ?ms = "managers (coord k)" and ?p = "coord_pool (coord k)"
  let ?take = "\<lambda>m :: manager. m\<lparr>pending_cow_copies := []\<rparr>"
  have bs: "bs = concat (map (\<lambda>(x, y). [x, y]) (concat (map pending_cow_copies ?ms)))" and k': "k' = with_state k (map ?take ?ms) ?p"
    using assms(2) by (auto simp: take_kv_cache_block_copies_def take_pending_cow_copies_def with_state_def Let_def)
  note b = kv_okD(1) [OF assms(1)]
  have same: "list_refs (?take m) x = list_refs m x" "tail rid (?take m) = tail rid m" "blocks_of rid (?take m) = blocks_of rid m" for m x rid
    by (simp_all add: list_refs_def tail_def blocks_of_def cached_upto_def cong: option.case_cong)
  have held: "held_by (map ?take ms) x + count_list (concat (map (\<lambda>(x, y). [x, y]) (concat (map pending_cow_copies ms)))) x = held_by ms x" for ms x
    by (induction ms) (simp_all add: held_by_def mgr_refs_def same(1), simp add: cow_refs_def)
  have lst: "listed (map ?take ms) x = listed ms x" for ms x by (simp add: listed_def same(1) comp_def)
  have "books (\<lambda>b. loose b + count_list bs b) (map ?take ?ms) ?p"
  proof (rule booksI)
    show "pool_ok ?p" by (rule booksD(1) [OF b])
    show "mgr_ok ?p m" if "m \<in> set (map ?take ?ms)" for m
      using that booksD(2) [OF b] by (auto simp: mgr_ok_def partial_ok_def cached_upto_def same(3))
    show "refs ?p x = int (loose x + count_list bs x + held_by (map ?take ?ms) x)" if "x \<noteq> 0" for x
      using booksD(3) [OF b that] held [of ?ms x] bs by simp
    show "keys_of ?p x = {} \<and> listed (map ?take ?ms) x \<le> 1" if "m \<in> set (map ?take ?ms)" "x \<in> set (tail rid m)" "x \<noteq> 0" for m rid x
      using that booksD(4,5) [OF b] unfolding lst by (auto simp: same(2))
  qed
  moreover have "settled (map ?take ?ms)" using settled_none [OF kv_okD(2) [OF assms(1)]] by (auto simp: settled_def)
  moreover have "each2 (\<lambda>i. same_config) 0 ?ms (map ?take ?ms)" by (simp add: each2_nth same_config_def)
  ultimately show ?thesis using kv_ok_with_state [OF assms(1), of _ "map ?take ?ms" ?p] k' by (simp add: same_consts_def)
qed

lemma remove_skipped_blocks_step:
  assumes "kv_ok loose k"
  shows "\<exists>ms p. remove_skipped_blocks rid n np k = Inr (with_state k ms p) \<and> kv_ok loose (with_state k ms p) \<and>
    nfree (coord_pool (coord k)) \<le> nfree p \<and> each2 (\<lambda>i m m'. removed_post rid n np m m' \<and> only rid m m') 0 (managers (coord k)) ms"
proof -
  obtain ms p where r: "coord_remove_skipped_blocks rid n np (coord k) = Inr ((coord k)\<lparr>managers := ms, coord_pool := p\<rparr>)"
    "books loose ms p" "settled ms" "quiet (coord_pool (coord k)) p" "nfree (coord_pool (coord k)) \<le> nfree p"
    "each2 (\<lambda>i m m'. removed_post rid n np m m' \<and> only rid m m') 0 (managers (coord k)) ms"
    using remove_all_step [OF kv_okD(1,2) [OF assms]] by blast
  have "each2 (\<lambda>i. only rid) 0 (managers (coord k)) ms" by (rule each2_mono [OF r(6)]) blast
  from kv_ok_with_state [OF assms r(2,3) quiet_consts [OF r(4)] only_config [OF this]]
  show ?thesis using r by (auto simp: remove_skipped_blocks_def res_simps with_state_def)
qed

lemma reset_step:
  assumes "kv_ok loose k" "kv_reset_prefix_cache k = Inr (ok, k')"
  shows "kv_ok loose k'"
proof -
  let ?p = "coord_pool (coord k)"
  obtain ok' q where q: "reset_prefix_cache ?p = (ok', q)" by fastforce
  have "quiet ?p q \<and> (\<forall>b. refs q b = refs ?p b)"
  proof (cases ok')
    case True
    obtain free where f: "index_ok ?p" "refs_ok ?p free {}" using kv_okD(4) [OF assms(1)] by (rule pool_okE)
    have i: "index_ok q" "index_frame ?p q" "\<And>b. keys_of q b = {}" using reset_op [OF f(1), of q] q True by auto
    then show ?thesis using refs_ok_frame [OF i(2) f(2)] by (auto simp: quiet_def pool_ok_def index_frame_def)
  next
    case False
    then have "q = ?p" using q by (auto simp: reset_prefix_cache_def Let_def split: if_splits)
    then show ?thesis using quiet_refl [OF kv_okD(4) [OF assms(1)]] by simp
  qed
  then have "kv_ok loose (with_state k (managers (coord k)) q)"
    using kv_ok_pool [OF assms(1)] booksD(3) [OF kv_okD(1) [OF assms(1)]] by simp
  then show ?thesis using assms(2) q
    by (auto simp: kv_reset_prefix_cache_def Let_def with_state_def kv_ok_def split: if_splits option.splits)
qed

lemma evict_step:
  assumes "kv_ok loose k" "kv_evict_blocks ids k = Inr k'"
  shows "kv_ok loose k'"
proof -
  obtain q where q: "evict_blocks ids (coord_pool (coord k)) = Inr q" "k' = with_state k (managers (coord k)) q"
    using assms(2) by (auto simp: kv_evict_blocks_def bind_res_eq_Inr with_state_def)
  have "index_ok (coord_pool (coord k))" using kv_okD(4) [OF assms(1)] by (simp add: pool_ok_def)
  then show ?thesis using evict_blocks_op [OF _ q(1)] kv_ok_index [OF assms(1)] q(2) by blast
qed

lemma cache_blocks_step:
  assumes "kv_ok loose k" "kv_caching k \<Longrightarrow> hashes_ok sha256 hash_fn nh (hash_block_size (coord_pool (coord k))) r \<and> mm_sorted (mm_features r) \<and>
      n \<le> num_tokens r \<and> list_all (\<lambda>m. n \<le> length (blocks_of (request_id r) m) * mgr_block_size m) (managers (coord k))"
  shows "\<exists>d ms q. kv_cache_blocks sha256 r n k = Inr (with_cache r d, with_state k ms q) \<and> kv_ok loose (with_state k ms q)"
proof (cases "kv_caching k")
  case True
  let ?c = "coord k"
  have h: "hashes_ok sha256 hash_fn nh (hash_block_size (coord_pool ?c)) r" "mm_sorted (mm_features r)" "n \<le> num_tokens r"
    "\<And>m. m \<in> set (managers ?c) \<Longrightarrow> n \<le> length (blocks_of (request_id r) m) * mgr_block_size m"
    using assms(2) [OF True] by (auto simp: list_all_iff)
  have cc: "enable_caching (coord_pool ?c)" "\<And>m. m \<in> set (managers ?c) \<Longrightarrow> cache_cfg (coord_pool ?c) m"
    using assms(1) True by (auto simp: kv_ok_def)
  obtain d ms q where r: "coord_cache_blocks sha256 r n (?c\<lparr>managers := managers ?c, coord_pool := coord_pool ?c\<rparr>) =
      Inr (with_cache r d, ?c\<lparr>managers := ms, coord_pool := q\<rparr>)" "books loose ms q" "same_consts (coord_pool ?c) q"
    "each2 (\<lambda>i m m'. only (request_id r) m m' \<and> blocks_of (request_id r) m' = blocks_of (request_id r) m \<and>
      partial_hit_reqs m' = partial_hit_reqs m) 0 (managers ?c) ms"
    using cached_slots [OF kv_okD(1,2) [OF assms(1)] cc h, of ?c] by blast
  have "each2 (\<lambda>i m m'. only (request_id r) m m' \<and> dict_get (partial_hit_reqs m') (request_id r) = None) 0 (managers ?c) ms"
    using r(4) settled_none [OF kv_okD(2) [OF assms(1)]] by (auto simp: each2_nth)
  from settled_only [OF kv_okD(2) [OF assms(1)] this] have "settled ms" .
  moreover have "each2 (\<lambda>i. only (request_id r)) 0 (managers ?c) ms" by (rule each2_mono [OF r(4)]) blast
  ultimately have "kv_ok loose (with_state k ms q)" using kv_ok_with_state [OF assms(1) r(2) _ r(3) only_config] by blast
  then show ?thesis using True r(1) by (auto simp: kv_cache_blocks_def res_simps with_state_def)
next
  case False
  have "kv_cache_blocks sha256 r n k = Inr (with_cache r (prompt_embeds_hashes r), with_state k (managers (coord k)) (coord_pool (coord k)))"
    using False by (simp add: kv_cache_blocks_def with_state_same)
  then show ?thesis using assms(1) with_state_same by metis
qed

lemma events_quiet: "pool_ok p \<Longrightarrow> quiet p (p\<lparr>kv_event_queue := e\<rparr>) \<and> (\<forall>b. refs (p\<lparr>kv_event_queue := e\<rparr>) b = refs p b)"
proof -
  assume "pool_ok p"
  then obtain free where f: "index_ok p" "refs_ok p free {}" by (rule pool_okE)
  have fr: "index_frame p (p\<lparr>kv_event_queue := e\<rparr>)" by (simp add: index_frame_def same_consts_def)
  have k: "keys_of (p\<lparr>kv_event_queue := e\<rparr>) b = keys_of p b" for b by (simp add: keys_of_def)
  have "index_ok (p\<lparr>kv_event_queue := e\<rparr>)" using f(1) by (simp add: index_ok_def k extra_ok_def)
  then show ?thesis using refs_ok_frame [OF fr f(2)] fr by (auto simp: quiet_def pool_ok_def k index_frame_def)
qed

lemma emit_events_queue:
  assumes "emit_cached_block_events sha256 r n bs gid p = Inr (r', q)"
  shows "\<exists>e. q = p\<lparr>kv_event_queue := e\<rparr>"
proof (cases "q = p")
  case True
  then show ?thesis by (intro exI [of _ "kv_event_queue p"]) simp
next
  case False
  then show ?thesis using assms by (auto simp: emit_cached_block_events_def bind_res_eq_Inr split: if_splits prod.splits)
qed

lemma emit_reused_events:
  assumes "emit_reused sha256 computed r c = Inr (r', c')"
  shows "\<exists>e. c' = c\<lparr>coord_pool := (coord_pool c)\<lparr>kv_event_queue := e\<rparr>\<rparr>"
proof -
  let ?I = "\<lambda>(r, c'). \<exists>e. c' = c\<lparr>coord_pool := (coord_pool c)\<lparr>kv_event_queue := e\<rparr>\<rparr>"
  have "?I (r', c')"
    using assms unfolding emit_reused_def
  proof (rule fold_res_invariant [where I = ?I])
    show "?I (r, c)" by (auto intro!: exI [of _ "kv_event_queue (coord_pool c)"])
    fix x st st'
    assume "?I st" "(case x of (i, bs) \<Rightarrow> \<lambda>(r, c). if bs = [] then Inr (r, c)
         else bind_res (emit_cached_block_events sha256 r (length bs) (spec_size (group_spec (groups c ! i))) (int i) (coord_pool c))
                (\<lambda>(r', p). Inr (r', c\<lparr>coord_pool := p\<rparr>))) st = Inr st'"
    then show "?I st'"
      by (cases x; cases st) (auto simp: bind_res_eq_Inr split: if_splits dest!: emit_events_queue)
  qed
  then show ?thesis by simp
qed

lemma lookup_step:
  assumes "kv_ok loose k" "get_computed_blocks sha256 r k = Inr (computed, n, u, r', k')"
  shows "kv_ok loose k'"
proof -
  let ?p = "coord_pool (coord k)"
  have "\<exists>e. k' = with_state k (managers (coord k)) (?p\<lparr>kv_event_queue := e\<rparr>)"
  proof (cases "k' = k")
    case True
    then show ?thesis by (intro exI [of _ "kv_event_queue ?p"]) (simp add: with_state_def)
  next
    case False
    then obtain comp c' where "emit_reused sha256 comp r (coord k) = Inr (r', c')" "k' = k\<lparr>coord := c'\<rparr>"
      using assms(2) by (auto simp: get_computed_blocks_def bind_res_eq_Inr split: if_splits)
    then show ?thesis using emit_reused_events by (fastforce simp: with_state_def)
  qed
  then show ?thesis
    using kv_ok_pool [OF assms(1)] events_quiet [OF kv_okD(4) [OF assms(1)]] booksD(3) [OF kv_okD(1) [OF assms(1)]] by fastforce
qed

text \<open>Operations that only relabel the managers.\<close>

definition relabels :: "(manager \<Rightarrow> manager) \<Rightarrow> bool" where
  "relabels f \<longleftrightarrow> (\<forall>p m. mgr_ok p m \<longrightarrow> mgr_ok p (f m) \<and> same_config m (f m) \<and> partial_hit_reqs (f m) = partial_hit_reqs m \<and>
     (\<forall>b. mgr_refs (f m) b = mgr_refs m b \<and> list_refs (f m) b = list_refs m b) \<and> (\<forall>rid. tail rid (f m) = tail rid m))"

lemma relabel_step:
  assumes "kv_ok loose k" "relabels f"
  shows "kv_ok loose (with_state k (map f (managers (coord k))) (coord_pool (coord k)))"
proof -
  let ?ms = "managers (coord k)" and ?p = "coord_pool (coord k)"
  note b = kv_okD(1) [OF assms(1)]
  have f: "mgr_ok ?p (f m)" "same_config m (f m)" "partial_hit_reqs (f m) = partial_hit_reqs m" "\<And>x. mgr_refs (f m) x = mgr_refs m x"
    "\<And>x. list_refs (f m) x = list_refs m x" "\<And>rid. tail rid (f m) = tail rid m" if "m \<in> set ?ms" for m
    using assms(2) booksD(2) [OF b that] by (auto simp: relabels_def)
  have h: "held_by (map f ?ms) x = held_by ?ms x" "listed (map f ?ms) x = listed ?ms x" for x
    unfolding held_by_def listed_def map_map using f(4,5) by (auto intro!: arg_cong [where f = sum_list] map_cong)
  have "books loose (map f ?ms) ?p"
    by (rule booksI) (use booksD [OF b] f h in auto)
  moreover have "settled (map f ?ms)" using settled_none [OF kv_okD(2) [OF assms(1)]] f(3) by (auto simp: settled_def)
  moreover have "each2 (\<lambda>i. same_config) 0 ?ms (map f ?ms)" using f(2) by (simp add: each2_nth)
  ultimately show ?thesis using kv_ok_with_state [OF assms(1)] by (simp add: same_consts_def)
qed

lemma relabels_entry: "relabels (\<lambda>m. set_blocks rid (blocks_of rid m) m)"
  unfolding relabels_def using entry_created set_blocks_config by auto

lemma relabels_ids: "relabels (\<lambda>m. m\<lparr>new_block_ids := l m\<rparr>)"
proof -
  have b: "blocks_of rid (m\<lparr>new_block_ids := x\<rparr>) = blocks_of rid m" for rid x and m :: manager by (simp add: blocks_of_def)
  have t: "tail rid (m\<lparr>new_block_ids := x\<rparr>) = tail rid m" for rid x m
    by (simp add: tail_def b cached_upto_def cong: option.case_cong)
  show ?thesis unfolding relabels_def
    by (simp add: t mgr_ok_def b partial_ok_def cached_upto_def same_config_def mgr_refs_def list_refs_def cow_refs_def)
qed

lemma relabels_comp: "relabels f \<Longrightarrow> relabels g \<Longrightarrow> relabels (\<lambda>m. g (f m))"
  unfolding relabels_def using same_config_trans by (metis (no_types, lifting))

lemma relabels_if: "relabels f \<Longrightarrow> relabels g \<Longrightarrow> relabels (\<lambda>m. if c m then f m else g m)"
  by (simp add: relabels_def)

lemma relabels_id: "relabels (\<lambda>m. m)"
  by (simp add: relabels_def same_config_refl)

lemma common_prefix_step:
  assumes "kv_ok loose k" "get_num_common_prefix_blocks rid (coord k) = (ns, c')"
  shows "kv_ok loose (k\<lparr>coord := c'\<rparr>)"
proof (cases "coord_class (coord k) = NoPrefixCache")
  case True
  then have "c' = coord k" using assms(2) by (simp add: get_num_common_prefix_blocks_def)
  then show ?thesis using assms(1) by simp
next
  case False
  let ?f = "\<lambda>m. if (case mgr_kind m of FullAttention \<Rightarrow> True | RSWA _ \<Rightarrow> True | _ \<Rightarrow> False) then set_blocks rid (blocks_of rid m) m else m"
  have "k\<lparr>coord := c'\<rparr> = with_state k (map ?f (managers (coord k))) (coord_pool (coord k))"
    using assms(2) False by (auto simp: get_num_common_prefix_blocks_def mgr_num_common_prefix_blocks_def with_state_def Let_def)
  then show ?thesis using relabel_step [OF assms(1) relabels_if [OF relabels_entry relabels_id]] by simp
qed

lemma map_res_pure: "map_res f xs = Inr ys \<Longrightarrow> (\<And>x y. x \<in> set xs \<Longrightarrow> f x = Inr y \<Longrightarrow> y = g x) \<Longrightarrow> ys = map g xs"
  by (induction xs arbitrary: ys) (auto simp: bind_res_eq_Inr)

lemma zeroing_step:
  assumes "kv_ok loose k" "record_blocks_for_zeroing rid t k = Inr k'"
  shows "kv_ok loose k'"
proof -
  let ?l = "\<lambda>m :: manager. new_block_ids m @ drop (t div mgr_block_size m) (blocks_of rid m)"
  let ?f = "\<lambda>m. if record_new_block_ids m then (set_blocks rid (blocks_of rid m) m)\<lparr>new_block_ids := ?l (set_blocks rid (blocks_of rid m) m)\<rparr> else m"
  have r: "relabels ?f" using relabels_if [OF relabels_comp [OF relabels_entry relabels_ids] relabels_id] .
  obtain ms where ms: "map_res (\<lambda>m. if record_new_block_ids m then
           bind_res (py_assert (t mod mgr_block_size m = 0)) (\<lambda>_.
             Inr ((set_blocks rid (blocks_of rid m) m)\<lparr>new_block_ids :=
               new_block_ids m @ drop (t div mgr_block_size m) (blocks_of rid m)\<rparr>))
         else Inr m) (managers (coord k)) = Inr ms" "k' = with_state k ms (coord_pool (coord k))"
    using assms(2) by (auto simp: record_blocks_for_zeroing_def bind_res_eq_Inr with_state_def)
  have "ms = map ?f (managers (coord k))"
    by (rule map_res_pure [OF ms(1)]) (auto simp: bind_res_eq_Inr split: if_splits)
  then show ?thesis using relabel_step [OF assms(1) r] ms(2) by simp
qed

section \<open>Runs\<close>

text \<open>
  The states that the operations of the manager reach, with the references that the manager handed out: blocks popped for a deferred
  release, and blocks of copies in flight. Requests are passed the way the scheduler passes them.
\<close>

inductive kv_run :: "(byte list \<Rightarrow> byte list) \<Rightarrow> (hash_input \<Rightarrow> byte list) \<Rightarrow> byte list \<Rightarrow> kv_manager \<Rightarrow> (nat \<Rightarrow> nat) \<Rightarrow> bool"
  for sha256 hash_fn nh where
  kvr_new: "new_kv_manager gs num_blocks max_len sched_bs hash_bs max_in_flight caching eagle lookahead with_stats events dcp mc watermark
      retention zeroing use_int_hashes order = Inr k \<Longrightarrow> groups_ok caching dcp hash_bs gs \<Longrightarrow> (\<And>xs. mset (order xs) = mset xs) \<Longrightarrow>
    kv_run sha256 hash_fn nh k (\<lambda>_. 0)"
| kvr_lookup: "kv_run sha256 hash_fn nh k loose \<Longrightarrow> get_computed_blocks sha256 r k = Inr (computed, n, u, r', k') \<Longrightarrow> kv_run sha256 hash_fn nh k' loose"
| kvr_allocate: "kv_run sha256 hash_fn nh k loose \<Longrightarrow> alloc_args sha256 hash_fn nh r nc (given_blocks new_computed k) ext delay k \<Longrightarrow>
    allocate_slots sha256 r num_new nc new_computed num_lookahead ext delay enc full_must_fit reserved has_scheduled k = Inr (res, r', k') \<Longrightarrow>
    kv_run sha256 hash_fn nh k' loose"
| kvr_cache: "kv_run sha256 hash_fn nh k loose \<Longrightarrow> hashes_ok sha256 hash_fn nh (hash_block_size (coord_pool (coord k))) r \<Longrightarrow>
    mm_sorted (mm_features r) \<Longrightarrow> n \<le> num_tokens r \<Longrightarrow>
    list_all (\<lambda>m. n \<le> length (blocks_of (request_id r) m) * mgr_block_size m) (managers (coord k)) \<Longrightarrow>
    kv_cache_blocks sha256 r n k = Inr (r', k') \<Longrightarrow> kv_run sha256 hash_fn nh k' loose"
| kvr_remove: "kv_run sha256 hash_fn nh k loose \<Longrightarrow> remove_skipped_blocks rid n np k = Inr k' \<Longrightarrow> kv_run sha256 hash_fn nh k' loose"
| kvr_free: "kv_run sha256 hash_fn nh k loose \<Longrightarrow> free_request r k = Inr k' \<Longrightarrow> kv_run sha256 hash_fn nh k' loose"
| kvr_pop: "kv_run sha256 hash_fn nh k loose \<Longrightarrow> pop_blocks_for_free r k = (bs, k') \<Longrightarrow>
    kv_run sha256 hash_fn nh k' (\<lambda>b. loose b + count_list bs b)"
| kvr_copies: "kv_run sha256 hash_fn nh k loose \<Longrightarrow> take_kv_cache_block_copies k = (pairs, bs, k') \<Longrightarrow>
    kv_run sha256 hash_fn nh k' (\<lambda>b. loose b + count_list bs b)"
| kvr_release: "kv_run sha256 hash_fn nh k loose \<Longrightarrow>
    \<forall>b \<in> set bs. b < num_gpu_blocks (coord_pool (coord k)) \<and> (b \<noteq> 0 \<longrightarrow> count_list bs b \<le> loose b) \<Longrightarrow>
    free_blocks bs (coord_pool (coord k)) = Inr q \<Longrightarrow>
    kv_run sha256 hash_fn nh (with_state k (managers (coord k)) q) (\<lambda>b. loose b - count_list bs b)"
| kvr_evict: "kv_run sha256 hash_fn nh k loose \<Longrightarrow> kv_evict_blocks ids k = Inr k' \<Longrightarrow> kv_run sha256 hash_fn nh k' loose"
| kvr_reset: "kv_run sha256 hash_fn nh k loose \<Longrightarrow> kv_reset_prefix_cache k = Inr (ok, k') \<Longrightarrow> kv_run sha256 hash_fn nh k' loose"
| kvr_ids: "kv_run sha256 hash_fn nh k loose \<Longrightarrow> kv_take_new_block_ids k = (ids, k') \<Longrightarrow> kv_run sha256 hash_fn nh k' loose"
| kvr_zeroing: "kv_run sha256 hash_fn nh k loose \<Longrightarrow> record_blocks_for_zeroing rid t k = Inr k' \<Longrightarrow> kv_run sha256 hash_fn nh k' loose"
| kvr_common: "kv_run sha256 hash_fn nh k loose \<Longrightarrow> get_num_common_prefix_blocks rid (coord k) = (ns, c') \<Longrightarrow>
    kv_run sha256 hash_fn nh (k\<lparr>coord := c'\<rparr>) loose"

lemma kv_run_ok: "kv_run sha256 hash_fn nh k loose \<Longrightarrow> kv_ok loose k"
proof (induction rule: kv_run.induct)
  case kvr_new
  then show ?case by (rule new_kv_ok)
next
  case kvr_lookup
  then show ?case using lookup_step by blast
next
  case (kvr_allocate k loose r nc new_computed ext delay num_new num_lookahead enc full_must_fit reserved has_scheduled res r' k')
  have some: "num_new \<noteq> 0 \<or> ext \<noteq> 0" using kvr_allocate(3) by (auto simp: allocate_slots_def split: if_splits)
  from allocate_step [OF kvr_allocate(4,2) some, of num_lookahead enc full_must_fit reserved has_scheduled] kvr_allocate(3)
  show ?case by auto
next
  case (kvr_cache k loose r n r' k')
  then show ?case using cache_blocks_step [of loose k sha256 hash_fn nh r n] by auto
next
  case (kvr_remove k loose rid n np k')
  then show ?case using remove_skipped_blocks_step [of loose k rid n np] by auto
next
  case (kvr_free k loose r k')
  then show ?case using free_request_step [of loose k r] by auto
next
  case kvr_pop
  then show ?case using pop_step by blast
next
  case kvr_copies
  then show ?case using copies_step by blast
next
  case kvr_release
  then show ?case using release_step by blast
next
  case kvr_evict
  then show ?case using evict_step by blast
next
  case kvr_reset
  then show ?case using reset_step by blast
next
  case kvr_zeroing
  then show ?case using zeroing_step by blast
next
  case kvr_common
  then show ?case using common_prefix_step by blast
next
  case (kvr_ids k loose ids k')
  then show ?case using relabel_step [OF kvr_ids(3) relabels_ids [of "\<lambda>_. []"]]
    by (auto simp: kv_take_new_block_ids_def take_new_block_ids_def with_state_def)
qed

end
