(* ===== verification/KV_Safety.thy ===== *)
theory KV_Safety
  imports KV_Runs
begin

text \<open>
  What the KV-cache manager guarantees in every state of its runs.
\<close>

section \<open>A concrete manager\<close>

definition demo_groups :: "group_config list" where
  "demo_groups = [\<lparr>group_spec = \<lparr>spec_kind = FullAttention, spec_size = 2, spec_layout = 0\<rparr>, is_eagle_group = False\<rparr>]"

definition demo_manager :: manager where
  "demo_manager = get_manager_for_kv_cache_spec FullAttention 2 16 16 True 0 1 2 False"

lemma demo_kv:
  "\<exists>k. kv_run id toy_hash [1] k (\<lambda>_. 0) \<and> managers (coord k) = [demo_manager] \<and> coord_class (coord k) = Unitary \<and>
    get_num_free_blocks (coord_pool (coord k)) = 3 \<and> num_gpu_blocks (coord_pool (coord k)) = 4 \<and>
    hash_block_size (coord_pool (coord k)) = 2 \<and> max_model_len k = 16 \<and> kv_caching k \<and> watermark_blocks k = 0 \<and>
    dcp_world_size (coord k) = 1 \<and> eagle_group_ids (coord k) = [] \<and> \<not> enable_events (coord_pool (coord k)) \<and>
    (\<forall>b. keys_of (coord_pool (coord k)) b = {}) \<and> index_ok (coord_pool (coord k)) \<and> refs_ok (coord_pool (coord k)) ([1, 2] @ [3]) {}"
proof -
  obtain p where p: "new_pool 4 True 2 False None False id = Inr p" "refs_ok p [1 ..< nat 4] {}" "num_gpu_blocks p = nat 4"
    "hash_block_size p = 2" "\<not> enable_events p" "\<forall>b. keys_of p b = {}" "index_ok p" using new_pool_facts [of 4 id True 2 False None False] by auto
  have up: "[1 ..< nat 4] = [1, 2] @ [3]" by (simp add: upt_rec)
  have "nfree p = 3" using refs_ok_length(3) [OF p(2)] by simp
  then have f: "get_num_free_blocks p = 3" using refs_ok_length(1) [OF p(2)] by simp
  define c where "c = \<lparr>coord_class = Unitary, groups = demo_groups, managers = [demo_manager], coord_pool = p, coord_block_size = 2,
    num_reprefillable_tokens = 0, eagle_group_ids = [], retention_interval = None, dcp_world_size = 1, attention_groups = [],
    enable_partial_hash_hits = False\<rparr>"
  define k where "k = \<lparr>coord = c, max_model_len = 16, kv_caching = True, watermark_blocks = 0, log_stats = False, prefix_stats = None\<rparr>"
  have "base_coordinator Unitary demo_groups 4 16 16 False True False 1 2 2 None 0 None False False id = Inr c"
    using p(1) by (simp add: base_coordinator_def demo_groups_def res_simps validate_retention_def c_def demo_manager_def Let_def upt_rec)
  moreover have "finish_unitary True c = Inr c"
    using p(4) by (simp add: finish_unitary_def c_def demo_manager_def get_manager_for_kv_cache_spec_def res_simps)
  ultimately have "new_kv_manager demo_groups 4 16 2 2 None True False 0 False False 1 None 0 None False False id = Inr k"
    by (simp add: new_kv_manager_def get_kv_cache_coordinator_def res_simps k_def) (simp add: demo_groups_def)
  moreover have "groups_ok True 1 2 demo_groups" by (simp add: groups_ok_def group_ok_def demo_groups_def)
  ultimately have "kv_run id toy_hash [1] k (\<lambda>_. 0)" by (rule kvr_new) simp
  then show ?thesis using f p(2-7) up by (intro exI [of _ k]) (simp add: k_def c_def)
qed

section \<open>Reference counts\<close>

text \<open>
  Property C2. No leak and no double use of a block: in every state that the operations of the KV-cache manager reach, the reference
  count of a block is the number of its occurrences in the block tables of all requests and groups, plus the copies that are pending,
  plus the references that were handed out for a deferred release; and the free queue holds exactly the blocks that nobody references.
\<close>

theorem refcounts_exact:
  assumes "kv_run sha256 hash_fn nh k loose"
  defines "p \<equiv> coord_pool (coord k)"
    and "uses b \<equiv> loose b + (\<Sum>m \<leftarrow> managers (coord k). (\<Sum>(rid, bs) \<leftarrow> req_to_blocks m. count_list bs b) +
       count_list (concat (map (\<lambda>(x, y). [x, y]) (pending_cow_copies m))) b)"
  shows "(\<forall>b. b \<noteq> 0 \<longrightarrow> ref_cnt (block_at p b) = int (uses b)) \<and>
    (\<exists>free. represents p free \<and> distinct free \<and> set free = {b. 0 < b \<and> b < num_gpu_blocks p \<and> uses b = 0})"
proof -
  have ok: "kv_ok loose k" using kv_run_ok [OF assms(1)] .
  have u: "uses b = loose b + held_by (managers (coord k)) b" for b
    by (simp add: uses_def held_by_def mgr_refs_def list_refs_def cow_refs_def)
  have r: "ref_cnt (block_at p b) = int (uses b)" if "b \<noteq> 0" for b using booksD(3) [OF kv_okD(1) [OF ok] that] by (simp add: u p_def)
  obtain free where f: "refs_ok p free {}" "distinct free" using kv_okD(4) [OF ok] unfolding p_def by (rule pool_okE)
  have "set free = {b. 0 < b \<and> b < num_gpu_blocks p \<and> uses b = 0}" using f(1) r by (auto simp: refs_ok_def)
  then show ?thesis using r f by (auto simp: refs_ok_def)
qed

theorem refcounts_exact_witness:
  "\<exists>k. kv_run id toy_hash [1] k (\<lambda>_. 0) \<and> ref_cnt (block_at (coord_pool (coord k)) 1) = 0 \<and>
    (\<exists>free. represents (coord_pool (coord k)) free \<and> set free = {1, 2, 3})"
proof -
  obtain k where k: "kv_run id toy_hash [1] k (\<lambda>_. 0)" "managers (coord k) = [demo_manager]" "num_gpu_blocks (coord_pool (coord k)) = 4"
    using demo_kv by blast
  have e: "{b. 0 < b \<and> b < (4 :: nat)} = {1, 2, 3}" by auto
  show ?thesis using refcounts_exact [OF k(1)] k by (auto simp: demo_manager_def get_manager_for_kv_cache_spec_def e)
qed

lemma count_positions:
  assumes "i < length xs" "j < length xs" "xs ! i = b" "xs ! j = b" "count_list xs b \<le> 1"
  shows "i = j"
proof (rule ccontr)
  assume "i \<noteq> j"
  then obtain a c where ac: "a < c" "c < length xs" "xs ! a = b" "xs ! c = b" using assms(1-4) by (metis nat_neq_iff)
  have "b \<in> set (take c xs)" using ac by (auto simp: in_set_conv_nth intro!: exI [of _ a])
  moreover have "b \<in> set (drop c xs)" using ac by (metis Cons_nth_drop_Suc list.set_intros(1))
  ultimately show False using count_two [of b c xs] assms(5) by linarith
qed

lemma listed_positions:
  assumes "listed ms b \<le> 1" "\<And>m. m \<in> set ms \<Longrightarrow> dict_ok (req_to_blocks m)" "g < length ms" "h < length ms"
    "b \<in> set (blocks_of x (ms ! g))" "b \<in> set (blocks_of y (ms ! h))"
  shows "g = h \<and> x = y"
proof -
  have one: "1 \<le> list_refs m b" if "b \<in> set (blocks_of z m)" for z m
    using list_refs_mem [OF that] count_pos [OF that] by linarith
  have gh: "g = h"
  proof (rule ccontr)
    assume "g \<noteq> h"
    then obtain a c where ac: "a < c" "c < length ms" "1 \<le> list_refs (ms ! a) b" "1 \<le> list_refs (ms ! c) b"
      using assms(3-6) one by (metis nat_neq_iff)
    have "ms ! a \<in> set (take c ms)" using ac by (auto simp: in_set_conv_nth)
    moreover have "ms ! c \<in> set (drop c ms)" using ac by (metis Cons_nth_drop_Suc list.set_intros(1))
    ultimately have "2 \<le> listed (take c ms) b + listed (drop c ms) b" using ac(3,4) list_refs_le_listed by (metis add_mono le_trans one_add_one)
    then show False using assms(1) listed_app(1) [of "take c ms" "drop c ms" b] by simp
  qed
  have "x = y"
  proof (rule ccontr)
    assume "x \<noteq> y"
    then have "2 \<le> list_refs (ms ! g) b"
      using list_refs_two [OF assms(2), of "ms ! g" x y b] count_pos [OF assms(5)] count_pos [OF assms(6)] assms(3) gh by fastforce
    then show False using assms(1,3) list_refs_le_listed [of "ms ! g" ms b] by simp
  qed
  then show ?thesis using gh by simp
qed


section \<open>Allocation\<close>

lemma slotted_cover:
  assumes "each2 (\<lambda>i. slotted rid ntoks enc) 0 ms ms'" "\<And>m. m \<in> set ms \<Longrightarrow> mgr_ok p m"
  shows "list_all (\<lambda>m. slots_for ntoks enc m \<le> length (blocks_of rid m) * mgr_block_size m) ms'"
  unfolding list_all_length
proof (intro allI impI)
  fix j assume j: "j < length ms'"
  let ?m = "ms ! j"
  have s: "slotted rid ntoks enc ?m (ms' ! j)" "?m \<in> set ms" using assms(1) j by (auto simp: each2_nth)
  then have c: "same_config ?m (ms' ! j)" using onlyD(1) by (auto simp: slotted_def)
  have "slots_for ntoks enc ?m \<le> length (blocks_of rid (ms' ! j)) * mgr_block_size ?m"
    by (rule blocks_for_mult [OF mgr_okD(4) [OF assms(2) [OF s(2)]]]) (use s(1) in \<open>simp add: slotted_def\<close>)
  then show "slots_for ntoks enc (ms' ! j) \<le> length (blocks_of rid (ms' ! j)) * mgr_block_size (ms' ! j)"
    using same_config_eq [OF c] by (simp add: slots_for_def)
qed

lemma only_blocks:
  assumes "each2 (\<lambda>i. only rid) 0 ms ms'" "x \<noteq> rid"
  shows "map (blocks_of x) ms' = map (blocks_of x) ms"
proof (rule nth_equalityI)
  show "map (blocks_of x) ms' ! j = map (blocks_of x) ms ! j" if "j < length (map (blocks_of x) ms')" for j
    using that assms onlyD(2) [of rid "ms ! j" "ms' ! j" x] by (simp add: each2_nth)
qed (use assms(1) in \<open>simp add: each2_nth\<close>)

text \<open>
  Property C4. Allocation of slots, called the way the scheduler calls it: for a new request with the hits of a lookup, or for a running
  request without hits. It never raises: it either reports that the pool is too full or succeeds. When it succeeds, the table of the request
  covers all tokens of the step and the lookahead in every group; the tables of the other requests are as before; and it does succeed when
  the pool has room for the blocks of all tokens of the request, its hits and one copy per group, besides the watermark and the reserve.
\<close>

theorem allocate_slots_total:
  fixes num_lookahead enc reserved :: nat and has_scheduled full_must_fit :: bool
  assumes "kv_run sha256 hash_fn nh k loose" "alloc_args sha256 hash_fn nh r nc (given_blocks new_computed k) ext delay k"
    "num_new \<noteq> 0 \<or> ext \<noteq> 0"
  defines "ntoks \<equiv> min (num_computed_tokens r + nc + ext + num_new + num_lookahead) (max_model_len k)"
    and "watermark \<equiv> (if needs_watermark r has_scheduled then watermark_blocks k else 0)"
    and "free \<equiv> get_num_free_blocks (coord_pool (coord k))"
    and "need \<equiv> \<lambda>n. room n enc (given_blocks new_computed k) (managers (coord k))"
  shows "\<exists>res r' k'. allocate_slots sha256 r num_new nc new_computed num_lookahead ext delay enc full_must_fit reserved has_scheduled k =
      Inr (res, r', k') \<and>
    (res \<noteq> None \<longrightarrow> list_all (\<lambda>m. slots_for ntoks enc m \<le> length (blocks_of (request_id r) m) * mgr_block_size m) (managers (coord k'))) \<and>
    (\<forall>x. x \<noteq> request_id r \<longrightarrow> get_blocks x k' = get_blocks x k) \<and>
    (int (need ntoks + watermark + reserved) \<le> free \<and>
     (full_must_fit \<longrightarrow> int (need (min (num_tokens r) (max_model_len k)) + watermark) \<le> free) \<longrightarrow> res \<noteq> None)"
proof -
  have ok: "kv_ok loose k" using kv_run_ok [OF assms(1)] .
  have free: "free = int (nfree (coord_pool (coord k)))" using pool_ok_free [OF kv_okD(4) [OF ok]] by (simp add: free_def)
  obtain res d ms q where a: "allocate_slots sha256 r num_new nc new_computed num_lookahead ext delay enc full_must_fit reserved has_scheduled k =
      Inr (res, with_cache r d, with_state k ms q)" "each2 (\<lambda>i. only (request_id r)) 0 (managers (coord k)) ms"
    "res \<noteq> None \<longrightarrow> each2 (\<lambda>i m m'. slotted (request_id r) ntoks enc m m' \<and>
       kept (request_id r) (num_computed_tokens r + nc) ext (given_blocks new_computed k) (num_computed_tokens r + nc + ext - num_in_flight_tokens r)
         (Some (num_prompt_tokens r)) i m m') 0 (managers (coord k)) ms"
    "need ntoks + watermark + reserved \<le> nfree (coord_pool (coord k)) \<and>
     (full_must_fit \<longrightarrow> need (min (num_tokens r) (max_model_len k)) + watermark \<le> nfree (coord_pool (coord k))) \<longrightarrow> res \<noteq> None"
    using allocate_step [OF ok assms(2,3), of num_lookahead enc full_must_fit reserved has_scheduled, folded ntoks_def watermark_def]
    unfolding need_def by blast
  have "get_blocks x (with_state k ms q) = get_blocks x k" if "x \<noteq> request_id r" for x
    using only_blocks [OF a(2) that] by (simp add: get_blocks_def coord_get_blocks_def)
  moreover have "res \<noteq> None \<longrightarrow> list_all (\<lambda>m. slots_for ntoks enc m \<le> length (blocks_of (request_id r) m) * mgr_block_size m) ms"
    using a(3) slotted_cover [OF each2_mono] kv_okD(5) [OF ok] by blast
  ultimately show ?thesis
    unfolding free using a(1,4) by (intro exI [of _ res] exI [of _ "with_cache r d"] exI [of _ "with_state k ms q"]) (simp del: of_nat_add)
qed

lemma demo_args:
  assumes "managers (coord k) = [demo_manager]" "max_model_len k = 16" "hash_block_size (coord_pool (coord k)) = 2"
  shows "alloc_args id toy_hash [1] (demo_req [5, 2, 8]) 0 (given_blocks None k) 0 delay k"
proof -
  have "fresh x demo_manager" for x by (simp add: fresh_def demo_manager_def get_manager_for_kv_cache_spec_def blocks_of_def)
  then have "starting x 0 0 [[]] (coord k)" for x using assms(1) by (simp add: starting_def hits_ok_def)
  moreover have "num_computed_tokens (demo_req [5, 2, 8]) = 0" by (simp add: hashed_def demo_request_def)
  ultimately show ?thesis using demo_req_facts [of "[5, 2, 8]"] assms by (simp add: alloc_args_def given_blocks_def)
qed

theorem allocate_slots_total_witness:
  "\<exists>k res r' k'. kv_run id toy_hash [1] k (\<lambda>_. 0) \<and>
    allocate_slots id (demo_req [5, 2, 8]) 4 0 None 0 0 False 0 False 0 False k = Inr (Some res, r', k') \<and>
    list_all (\<lambda>m. slots_for 4 0 m \<le> length (blocks_of (request_id (demo_req [5, 2, 8])) m) * mgr_block_size m) (managers (coord k'))"
proof -
  obtain k where k: "kv_run id toy_hash [1] k (\<lambda>_. 0)" "managers (coord k) = [demo_manager]" "max_model_len k = 16"
    "hash_block_size (coord_pool (coord k)) = 2" "get_num_free_blocks (coord_pool (coord k)) = 3" using demo_kv by blast
  let ?r = "demo_req [5, 2, 8]"
  have n: "num_computed_tokens ?r = 0" by (simp add: hashed_def demo_request_def)
  have rm: "room 4 0 (given_blocks None k) [demo_manager] = 3"
    by (simp add: room_def slots_for_def demo_manager_def get_manager_for_kv_cache_spec_def blocks_for_def cdiv_def given_blocks_def k(2))
  have "\<exists>res r' k'. allocate_slots id ?r 4 0 None 0 0 False 0 False 0 False k = Inr (res, r', k') \<and> res \<noteq> None \<and>
    list_all (\<lambda>m. slots_for 4 0 m \<le> length (blocks_of (request_id ?r) m) * mgr_block_size m) (managers (coord k'))"
    using allocate_slots_total [OF k(1) demo_args [OF k(2-4), of False], where num_new = 4 and num_lookahead = 0 and enc = 0 and
      full_must_fit = False and reserved = 0 and has_scheduled = False] rm k(2,3,5) n
    by (auto simp: needs_watermark_def)
  then show ?thesis using k(1) by blast
qed

lemma demo_manager_sel:
  "mgr_kind demo_manager = FullAttention" "mgr_block_size demo_manager = 2" "blocks_of x demo_manager = []" "num_cached_block demo_manager = []"
  "partial_hit_reqs demo_manager = []" "max_admission_blocks demo_manager = None" "\<not> record_new_block_ids demo_manager"
  by (simp_all add: demo_manager_def get_manager_for_kv_cache_spec_def blocks_of_def max_admission_blocks_per_request_def)

lemma demo_allocated:
  "\<exists>k. kv_run id toy_hash [1] k (\<lambda>_. 0) \<and> managers (coord k) = [set_blocks (request_id (demo_req [5, 2, 8])) [1, 2] demo_manager] \<and>
    max_model_len k = 16"
proof -
  let ?r = "demo_req [5, 2, 8]"
  obtain k where k: "kv_run id toy_hash [1] k (\<lambda>_. 0)" "managers (coord k) = [demo_manager]" "max_model_len k = 16"
    "hash_block_size (coord_pool (coord k)) = 2" "get_num_free_blocks (coord_pool (coord k)) = 3"
    "index_ok (coord_pool (coord k))" "refs_ok (coord_pool (coord k)) ([1, 2] @ [3]) {}" using demo_kv by blast
  obtain q where q: "get_new_blocks (length [1, 2 :: nat]) (coord_pool (coord k)) = Inr ([1, 2], q)" using get_new_blocks_op [OF k(6,7)] by blast
  have "length [1, 2 :: nat] = 2" by simp
  then have q2: "get_new_blocks 2 (coord_pool (coord k)) = Inr ([1, 2], q)" using q by (simp only:)
  have n: "num_computed_tokens ?r = 0" by (simp add: hashed_def demo_request_def)
  let ?m = "set_blocks (request_id ?r) [1, 2] demo_manager"
  note m = demo_manager_sel
  have rem: "coord_remove_skipped_blocks (request_id ?r) l np (coord k) = Inr (coord k)" for l np
    using k(2) by (simp add: coord_remove_skipped_blocks_def over_managers_def mgr_remove_skipped_blocks_def remove_skipped_default_def m
        get_num_skipped_tokens_def res_simps)
  have pre: "get_num_blocks_to_allocate (request_id ?r) 4 [[]] 0 0 0 False (coord k) = Inr 2"
    using k(2) by (simp add: get_num_blocks_to_allocate_def num_blocks_to_allocate_def m get_num_skipped_tokens_def blocks_for_def cdiv_def
        get_num_evictable_blocks_def has_partial_local_hit_def res_simps upt_rec)
  have alloc: "allocate_new_blocks (request_id ?r) 4 0 (coord k) = Inr ([[1, 2]], (coord k)\<lparr>managers := [?m], coord_pool := q\<rparr>)"
    using k(2) q2 by (simp add: allocate_new_blocks_def over_managers_def mgr_allocate_new_blocks_def redirect_partial_hit_def m res_simps
        blocks_for_def cdiv_def note_new_blocks_def Let_def)
  have "allocate_slots id ?r 4 0 None 0 0 True 0 False 0 False k = Inr (Some [[1, 2]], ?r, with_state k [?m] q)"
    using k(2,3,5) n rem pre alloc
    by (simp add: allocate_slots_def Let_def res_simps take_slots_def is_empty_blocks_def needs_watermark_def with_state_def)
  from kvr_allocate [OF k(1) demo_args [OF k(2-4)] this] show ?thesis using k(3) by (intro exI [of _ "with_state k [?m] q"]) simp
qed


section \<open>Release\<close>

lemma pop_held:
  assumes "\<And>m. m \<in> set ms \<Longrightarrow> mgr_ok p m"
  shows "held_by (map (\<lambda>m. snd (mgr_pop_blocks_for_free rid m)) ms) b + (\<Sum>m \<leftarrow> ms. count_list (blocks_of rid m) b) = held_by ms b"
  using assms
proof (induction ms)
  case (Cons m ms)
  then show ?case using pop_facts(7) [of p m rid b] by force
qed (simp add: held_by_def)

text \<open>
  Property C13. Freeing a request never raises. Afterwards it has no blocks in any group, the tables of the other requests are as before, and
  every block has lost exactly the references that the request held.
\<close>

theorem free_request_releases:
  assumes "kv_run sha256 hash_fn nh k loose"
  shows "\<exists>k'. free_request r k = Inr k' \<and> get_blocks (request_id r) k' = replicate (length (managers (coord k))) [] \<and>
    (\<forall>x. x \<noteq> request_id r \<longrightarrow> get_blocks x k' = get_blocks x k) \<and>
    (\<forall>b. b \<noteq> 0 \<longrightarrow> ref_cnt (block_at (coord_pool (coord k')) b) =
      ref_cnt (block_at (coord_pool (coord k)) b) - int (\<Sum>bs \<leftarrow> get_blocks (request_id r) k. count_list bs b))"
proof -
  let ?ms = "managers (coord k)" and ?rid = "request_id r"
  have ok: "kv_ok loose k" using kv_run_ok [OF assms] .
  obtain ms p where f: "free_request r k = Inr (with_state k ms p)" "kv_ok loose (with_state k ms p)"
    "ms = map (\<lambda>m. snd (mgr_pop_blocks_for_free ?rid m)) ?ms" using free_request_step [OF ok] by blast
  have bl: "map (blocks_of x) ms = (if x = ?rid then replicate (length ?ms) [] else map (blocks_of x) ?ms)" for x
    using pop_facts(3) [OF kv_okD(5) [OF ok]] onlyD(2) [OF pop_facts(2) [OF kv_okD(5) [OF ok]]]
    by (auto simp: f(3) map_replicate_const [symmetric])
  have "ref_cnt (block_at p b) = ref_cnt (block_at (coord_pool (coord k)) b) - int (\<Sum>m \<leftarrow> ?ms. count_list (blocks_of ?rid m) b)"
    if "b \<noteq> 0" for b
    using booksD(3) [OF kv_okD(1) [OF ok] that] booksD(3) [OF kv_okD(1) [OF f(2)] that] pop_held [OF kv_okD(5) [OF ok], of ?ms ?rid b]
    by (simp add: f(3))
  then show ?thesis using f(1) bl
    by (intro exI [of _ "with_state k ms p"]) (simp add: get_blocks_def coord_get_blocks_def comp_def)
qed

theorem free_request_releases_witness:
  "\<exists>k k'. kv_run id toy_hash [1] k (\<lambda>_. 0) \<and> get_blocks (request_id (demo_req [5, 2, 8])) k = [[1, 2]] \<and>
    free_request (demo_req [5, 2, 8]) k = Inr k' \<and> get_blocks (request_id (demo_req [5, 2, 8])) k' = [[]]"
proof -
  obtain k where k: "kv_run id toy_hash [1] k (\<lambda>_. 0)" "managers (coord k) = [set_blocks (request_id (demo_req [5, 2, 8])) [1, 2] demo_manager]"
    using demo_allocated by blast
  then show ?thesis using free_request_releases [OF k(1), of "demo_req [5, 2, 8]"]
    by (auto simp: get_blocks_def coord_get_blocks_def)
qed

text \<open>
  Property C15. An idle manager has its whole cache back: when every table is empty, no copy is pending and nothing handed out is missing, all
  blocks but the null block are free, and resetting the prefix cache succeeds.
\<close>

theorem idle_cache_free:
  assumes "kv_run sha256 hash_fn nh k loose" "\<And>b. loose b = 0"
    "list_all (\<lambda>m. list_all (\<lambda>(rid, bs). bs = []) (req_to_blocks m) \<and> pending_cow_copies m = []) (managers (coord k))"
  shows "get_num_free_blocks (coord_pool (coord k)) = int (num_gpu_blocks (coord_pool (coord k))) - 1 \<and>
    fst (reset_prefix_cache (coord_pool (coord k)))"
proof -
  let ?p = "coord_pool (coord k)"
  have ok: "kv_ok loose k" using kv_run_ok [OF assms(1)] .
  have "mgr_refs m b = 0" if "m \<in> set (managers (coord k))" for m b
  proof -
    have "list_all (\<lambda>(rid, bs). bs = []) (req_to_blocks m)" "pending_cow_copies m = []" using assms(3) that by (auto simp: list_all_iff)
    then show ?thesis by (auto simp: mgr_refs_def list_refs_def cow_refs_def list_all_iff sum_list_0 intro!: sum_list_nonneg_eq_0_iff [THEN iffD2])
  qed
  then have "held_by (managers (coord k)) b = 0" for b by (simp add: held_by_def)
  then have z: "refs ?p b = 0" if "b \<noteq> 0" for b using booksD(3) [OF kv_okD(1) [OF ok] that] assms(2) by simp
  obtain free where f: "refs_ok ?p free {}" "nfree ?p = length free" "distinct free" using kv_okD(4) [OF ok] by (rule pool_okE)
  have "set free = {1 ..< num_gpu_blocks ?p}" using f(1) z by (auto simp: refs_ok_def)
  then have "length free = num_gpu_blocks ?p - 1" using distinct_card [OF f(3)] by simp
  moreover have "0 < num_gpu_blocks ?p" using f(1) by (simp add: refs_ok_def)
  ultimately have "get_num_free_blocks ?p = int (num_gpu_blocks ?p) - 1" using refs_ok_length(1) [OF f(1)] by (simp add: of_nat_diff)
  then show ?thesis by (simp add: reset_prefix_cache_def Let_def)
qed

theorem idle_cache_free_witness:
  "\<exists>k. kv_run id toy_hash [1] k (\<lambda>_. 0) \<and> get_num_free_blocks (coord_pool (coord k)) = 3"
proof -
  obtain k where k: "kv_run id toy_hash [1] k (\<lambda>_. 0)" "managers (coord k) = [demo_manager]" "num_gpu_blocks (coord_pool (coord k)) = 4"
    using demo_kv by blast
  then show ?thesis using idle_cache_free [OF k(1)] by (auto simp: demo_manager_def get_manager_for_kv_cache_spec_def)
qed

section \<open>Attention windows\<close>

text \<open>Which token positions \<open>t\<close> the query at position \<open>q\<close> reads, by kind of attention.\<close>

definition attends :: "attn_kind \<Rightarrow> nat option \<Rightarrow> nat \<Rightarrow> nat \<Rightarrow> bool" where
  "attends kind num_prompt q t \<longleftrightarrow> t \<le> q \<and>
     (case kind of
        SlidingWindow w extra \<Rightarrow> q < t + w
      | ChunkedLocal c \<Rightarrow> t div c = q div c
      | RSWA w \<Rightarrow> (case num_prompt of None \<Rightarrow> True | Some n \<Rightarrow> t < n \<or> q \<le> t + w)
      | _ \<Rightarrow> True)"

lemma chunk_left:
  fixes t q c n :: nat
  assumes "t < n div c * c" "n \<le> q"
  shows "t div c \<noteq> q div c"
proof -
  have c: "0 < c" using assms(1) by (cases c) auto
  have "t div c < n div c" using assms(1) c by (simp add: div_less_iff_less_mult)
  also have "\<dots> \<le> q div c" using assms(2) by (rule div_le_mono)
  finally show ?thesis by simp
qed

lemma unneeded_not_attended:
  assumes "unneeded kind np n bs i" "i * bs \<le> t" "t < (i + 1) * bs" "n \<le> q"
  shows "\<not> attends kind np q t"
proof (cases kind)
  case (RSWA w)
  show ?thesis
  proof (cases np)
    case (Some l)
    then have h: "l \<le> i * bs" "(i + 1) * bs \<le> max l (n - w)" using assms(1) RSWA by (simp_all add: unneeded_def)
    have "i * bs < (i + 1) * bs" using assms(2,3) by linarith
    then have "(i + 1) * bs \<le> n - w" using h by (simp add: max_def split: if_splits)
    then have "t + w < n" using assms(3) by linarith
    then show ?thesis using RSWA Some assms(2,4) h(1) by (auto simp: attends_def)
  next
    case None
    then show ?thesis using assms(1,3) RSWA by (simp add: unneeded_def get_num_skipped_tokens_def)
  qed
next
  case (SlidingWindow w extra)
  then have "(i + 1) * bs \<le> n + 1 - w - extra" using assms(1) by (simp add: unneeded_def get_num_skipped_tokens_def)
  then have "t < n + 1 - w" using assms(3) by linarith
  then show ?thesis using SlidingWindow assms(4) by (auto simp: attends_def)
next
  case (ChunkedLocal c)
  then have "t < n div c * c" using assms(1,3) by (simp add: unneeded_def get_num_skipped_tokens_def)
  then show ?thesis using ChunkedLocal chunk_left [OF _ assms(4)] by (simp add: attends_def)
qed (use assms(1,3) in \<open>simp_all add: unneeded_def get_num_skipped_tokens_def\<close>)

text \<open>
  Property C14. Dropping the blocks outside the attention window never raises and drops nothing that is still read: a block of the request
  stays in place whenever some query at a position not yet processed attends one of its tokens, otherwise it stays or becomes the null block;
  the tables of the other requests are as before.
\<close>

theorem dropped_blocks_unread:
  assumes "kv_run sha256 hash_fn nh k loose"
  shows "\<exists>k'. remove_skipped_blocks rid n num_prompt k = Inr k' \<and> (\<forall>x. x \<noteq> rid \<longrightarrow> get_blocks x k' = get_blocks x k) \<and>
    (\<forall>g i q t. let m = managers (coord k) ! g; m' = managers (coord k') ! g; bs = mgr_block_size m
      in g < length (managers (coord k)) \<and> i < length (blocks_of rid m) \<longrightarrow>
         i < length (blocks_of rid m') \<and> blocks_of rid m' ! i \<in> {blocks_of rid m ! i, 0} \<and>
         (n \<le> q \<and> i * bs \<le> t \<and> t < (i + 1) * bs \<and> attends (mgr_kind m) num_prompt q t \<longrightarrow> blocks_of rid m' ! i = blocks_of rid m ! i))"
proof -
  let ?ms = "managers (coord k)"
  obtain ms p where r: "remove_skipped_blocks rid n num_prompt k = Inr (with_state k ms p)"
    "each2 (\<lambda>i m m'. removed_post rid n num_prompt m m' \<and> only rid m m') 0 ?ms ms"
    using remove_skipped_blocks_step [OF kv_run_ok [OF assms]] by blast
  have on: "each2 (\<lambda>i. only rid) 0 ?ms ms" by (rule each2_mono [OF r(2)]) blast
  have "i < length (blocks_of rid (ms ! g)) \<and> blocks_of rid (ms ! g) ! i \<in> {blocks_of rid (?ms ! g) ! i, 0} \<and>
      (n \<le> q \<and> i * mgr_block_size (?ms ! g) \<le> t \<and> t < (i + 1) * mgr_block_size (?ms ! g) \<and> attends (mgr_kind (?ms ! g)) num_prompt q t \<longrightarrow>
        blocks_of rid (ms ! g) ! i = blocks_of rid (?ms ! g) ! i)"
    if g: "g < length ?ms" "i < length (blocks_of rid (?ms ! g))" for g i q t
  proof -
    have p: "removed_post rid n num_prompt (?ms ! g) (ms ! g)" using r(2) g(1) by (simp add: each2_nth)
    then have "i < length (blocks_of rid (ms ! g)) \<and> blocks_of rid (ms ! g) ! i \<in> {blocks_of rid (?ms ! g) ! i, 0}"
      using g(2) by (auto simp: removed_post_def nulls_of_def)
    moreover have "blocks_of rid (ms ! g) ! i = blocks_of rid (?ms ! g) ! i" if "\<not> unneeded (mgr_kind (?ms ! g)) num_prompt n (mgr_block_size (?ms ! g)) i"
      using p g(2) that by (simp add: removed_post_def)
    ultimately show ?thesis using unneeded_not_attended by blast
  qed
  then show ?thesis using r(1) only_blocks [OF on]
    by (intro exI [of _ "with_state k ms p"]) (auto simp: get_blocks_def coord_get_blocks_def Let_def)
qed

theorem dropped_blocks_unread_witness:
  "\<exists>k k'. kv_run id toy_hash [1] k (\<lambda>_. 0) \<and> remove_skipped_blocks (request_id (demo_req [5, 2, 8])) 4 None k = Inr k' \<and>
    blocks_of (request_id (demo_req [5, 2, 8])) (managers (coord k') ! 0) ! 1 = 2"
proof -
  let ?rid = "request_id (demo_req [5, 2, 8])"
  obtain k where k: "kv_run id toy_hash [1] k (\<lambda>_. 0)" "managers (coord k) = [set_blocks ?rid [1, 2] demo_manager]"
    using demo_allocated by blast
  have m: "mgr_kind demo_manager = FullAttention" "mgr_block_size demo_manager = 2"
    by (simp_all add: demo_manager_def get_manager_for_kv_cache_spec_def)
  obtain k' where k': "remove_skipped_blocks ?rid 4 None k = Inr k'"
    "\<forall>g i q t. let m = managers (coord k) ! g; m' = managers (coord k') ! g; bs = mgr_block_size m
      in g < length (managers (coord k)) \<and> i < length (blocks_of ?rid m) \<longrightarrow>
         i < length (blocks_of ?rid m') \<and> blocks_of ?rid m' ! i \<in> {blocks_of ?rid m ! i, 0} \<and>
         (4 \<le> q \<and> i * bs \<le> t \<and> t < (i + 1) * bs \<and> attends (mgr_kind m) None q t \<longrightarrow> blocks_of ?rid m' ! i = blocks_of ?rid m ! i)"
    using dropped_blocks_unread [OF k(1)] by blast
  have "blocks_of ?rid (managers (coord k') ! 0) ! 1 = 2"
    using k'(2) [rule_format, of 0 1 4 3] k(2) m by (simp add: attends_def Let_def)
  then show ?thesis using k(1) k'(1) by blast
qed

text \<open>
  Property C6. An allocation for a running request keeps what the model still reads: whenever a query at a position not yet processed
  attends a token of a block, the block is at its place in the table after the allocation.
\<close>

theorem running_table_kept:
  assumes "kv_run sha256 hash_fn nh k loose" "alloc_args sha256 hash_fn nh r 0 (given_blocks None k) 0 delay k" "num_new \<noteq> 0"
    "allocate_slots sha256 r num_new 0 None num_lookahead 0 delay enc full_must_fit reserved has_scheduled k = Inr (Some new, r', k')"
  shows "\<forall>g i q t. let m = managers (coord k) ! g; m' = managers (coord k') ! g; bs = mgr_block_size m; rid = request_id r
    in g < length (managers (coord k)) \<and> i < length (blocks_of rid m) \<and> num_computed_tokens r - num_in_flight_tokens r \<le> q \<and>
       i * bs \<le> t \<and> t < (i + 1) * bs \<and> attends (mgr_kind m) (Some (num_prompt_tokens r)) q t \<longrightarrow>
       i < length (blocks_of rid m') \<and> blocks_of rid m' ! i = blocks_of rid m ! i"
proof -
  let ?n = "num_computed_tokens r" and ?rid = "request_id r" and ?ms = "managers (coord k)" and ?bss = "given_blocks None k"
  obtain ms q where a: "k' = with_state k ms q" "each2 (\<lambda>i m m'. slotted ?rid (min (?n + 0 + 0 + num_new + num_lookahead) (max_model_len k)) enc m m' \<and>
      kept ?rid (?n + 0) 0 ?bss (?n + 0 + 0 - num_in_flight_tokens r) (Some (num_prompt_tokens r)) i m m') 0 ?ms ms"
    using allocate_step [OF kv_run_ok [OF assms(1)] assms(2) disjI1 [OF assms(3)], of num_lookahead enc full_must_fit reserved has_scheduled] assms(4)
    by auto
  have e: "is_empty_blocks ?bss" by (simp add: is_empty_blocks_def given_blocks_def list_all_iff)
  have "i < length (blocks_of ?rid (ms ! g)) \<and> blocks_of ?rid (ms ! g) ! i = blocks_of ?rid (?ms ! g) ! i"
    if g: "g < length ?ms" "i < length (blocks_of ?rid (?ms ! g))" "?n - num_in_flight_tokens r \<le> x"
      "i * mgr_block_size (?ms ! g) \<le> t" "t < (i + 1) * mgr_block_size (?ms ! g)" "attends (mgr_kind (?ms ! g)) (Some (num_prompt_tokens r)) x t" for g i x t
  proof -
    have "kept ?rid ?n 0 ?bss (?n - num_in_flight_tokens r) (Some (num_prompt_tokens r)) g (?ms ! g) (ms ! g)"
      using a(2) g(1) by (simp add: each2_nth)
    moreover have "\<not> unneeded (mgr_kind (?ms ! g)) (Some (num_prompt_tokens r)) (?n - num_in_flight_tokens r) (mgr_block_size (?ms ! g)) i"
      using unneeded_not_attended [OF _ g(4,5,3)] g(6) by blast
    ultimately show ?thesis using e g(2) by (simp add: kept_def)
  qed
  then show ?thesis using a(1) by (auto simp: Let_def)
qed

theorem running_table_kept_witness:
  "\<exists>k new r' k'. kv_run id toy_hash [1] k (\<lambda>_. 0) \<and>
    allocate_slots id (demo_req [5, 2, 8]) 4 0 None 0 0 True 0 False 0 False k = Inr (Some new, r', k') \<and>
    blocks_of (request_id (demo_req [5, 2, 8])) (managers (coord k') ! 0) ! 1 = 2"
proof -
  let ?r = "demo_req [5, 2, 8]"
  let ?m = "set_blocks (request_id ?r) [1, 2] demo_manager"
  obtain k where k: "kv_run id toy_hash [1] k (\<lambda>_. 0)" "managers (coord k) = [?m]" "max_model_len k = 16" using demo_allocated by blast
  have n: "num_computed_tokens ?r = 0" by (simp add: hashed_def demo_request_def)
  note m = demo_manager_sel
  have args: "alloc_args id toy_hash [1] ?r 0 (given_blocks None k) 0 True k"
    using k(2,3) n by (simp add: alloc_args_def given_blocks_def continuing_def is_empty_blocks_def skipped_blocks_def get_num_skipped_tokens_def m)
  have free: "0 \<le> get_num_free_blocks (coord_pool (coord k))" using pool_ok_free [OF kv_okD(4) [OF kv_run_ok [OF k(1)]]] by simp
  have rem: "coord_remove_skipped_blocks (request_id ?r) l np (coord k) = Inr (coord k)" for l np
    using k(2) by (simp add: coord_remove_skipped_blocks_def over_managers_def mgr_remove_skipped_blocks_def remove_skipped_default_def m
        get_num_skipped_tokens_def res_simps)
  have pre: "get_num_blocks_to_allocate (request_id ?r) 4 [[]] 0 0 0 False (coord k) = Inr 0"
    using k(2) by (simp add: get_num_blocks_to_allocate_def num_blocks_to_allocate_def m get_num_skipped_tokens_def blocks_for_def cdiv_def
        get_num_evictable_blocks_def has_partial_local_hit_def res_simps upt_rec)
  obtain k' where alloc: "allocate_new_blocks (request_id ?r) 4 0 (coord k) = Inr ([[]], k')"
    using k(2) by (simp add: allocate_new_blocks_def over_managers_def mgr_allocate_new_blocks_def redirect_partial_hit_def m res_simps
        blocks_for_def cdiv_def note_new_blocks_def Let_def)
  have run: "allocate_slots id ?r 4 0 None 0 0 True 0 False 0 False k = Inr (Some [[]], ?r, k\<lparr>coord := k'\<rparr>)"
    using k(2,3) free n rem pre alloc
    by (simp add: allocate_slots_def Let_def res_simps take_slots_def is_empty_blocks_def needs_watermark_def)
  have "blocks_of (request_id ?r) (managers (coord (k\<lparr>coord := k'\<rparr>)) ! 0) ! 1 = 2"
    using running_table_kept [OF k(1) args _ run, rule_format, of 0 1 3 3] k(2) n m by (simp add: attends_def Let_def)
  then show ?thesis using k(1) run by blast
qed

end
