(* ===== verification/Heap_Queue.thy ===== *)
theory Heap_Queue
  imports Prelude "HOL-Library.Multiset"
begin

text \<open>
  The binary heap of Python's \<open>heapq\<close> module over a comparison \<open>lt\<close>, as the priority queue of
  \<^verbatim>\<open>vllm/v1/core/sched/request_queue.py\<close> uses it: \<open>heappush\<close>, \<open>heappop\<close> and \<open>heapify\<close> on a list, with the two
  sifting loops. The locale \<open>comparison\<close> is what the heap relies on: \<open>lt\<close> is the strict order of a key.
\<close>

section \<open>Definitions\<close>

definition parent :: "nat \<Rightarrow> nat" where
  "parent i = (i - 1) div 2"

function siftdown_loop :: "('a \<Rightarrow> 'a \<Rightarrow> bool) \<Rightarrow> nat \<Rightarrow> nat \<Rightarrow> 'a \<Rightarrow> 'a list \<Rightarrow> 'a list" where
  "siftdown_loop lt startpos pos newitem heap =
     (if pos > startpos \<and> lt newitem (heap ! parent pos)
      then siftdown_loop lt startpos (parent pos) newitem (heap[pos := heap ! parent pos])
      else heap[pos := newitem])"
  by auto
termination
  by (relation "measure (\<lambda>(_, _, pos, _, _). pos)") (auto simp: parent_def)

definition siftdown :: "('a \<Rightarrow> 'a \<Rightarrow> bool) \<Rightarrow> nat \<Rightarrow> nat \<Rightarrow> 'a list \<Rightarrow> 'a list" where
  "siftdown lt startpos pos heap = siftdown_loop lt startpos pos (heap ! pos) heap"

definition smaller_child :: "('a \<Rightarrow> 'a \<Rightarrow> bool) \<Rightarrow> nat \<Rightarrow> 'a list \<Rightarrow> nat" where
  "smaller_child lt pos heap =
     (let childpos = 2 * pos + 1; rightpos = childpos + 1
      in if rightpos < length heap \<and> \<not> lt (heap ! childpos) (heap ! rightpos) then rightpos else childpos)"

function siftup_loop :: "('a \<Rightarrow> 'a \<Rightarrow> bool) \<Rightarrow> nat \<Rightarrow> 'a list \<Rightarrow> nat \<times> 'a list" where
  "siftup_loop lt pos heap =
     (if 2 * pos + 1 < length heap
      then let childpos = smaller_child lt pos heap in siftup_loop lt childpos (heap[pos := heap ! childpos])
      else (pos, heap))"
  by auto
termination
  by (relation "measure (\<lambda>(_, pos, heap). length heap - pos)") (auto simp: smaller_child_def Let_def)

definition siftup :: "('a \<Rightarrow> 'a \<Rightarrow> bool) \<Rightarrow> nat \<Rightarrow> 'a list \<Rightarrow> 'a list" where
  "siftup lt pos heap =
     (let newitem = heap ! pos
      in case siftup_loop lt pos heap of (p, h) \<Rightarrow> siftdown lt pos p (h[p := newitem]))"

definition heappush :: "('a \<Rightarrow> 'a \<Rightarrow> bool) \<Rightarrow> 'a list \<Rightarrow> 'a \<Rightarrow> 'a list" where
  "heappush lt heap item = siftdown lt 0 (length heap) (heap @ [item])"

definition heappop :: "('a \<Rightarrow> 'a \<Rightarrow> bool) \<Rightarrow> 'a list \<Rightarrow> ('a \<times> 'a list) res" where
  "heappop lt heap =
     (if heap = [] then Inl IndexError
      else let lastelt = last heap; h = butlast heap
           in if h \<noteq> [] then Inr (h ! 0, siftup lt 0 (h[0 := lastelt])) else Inr (lastelt, h))"

definition heapify :: "('a \<Rightarrow> 'a \<Rightarrow> bool) \<Rightarrow> 'a list \<Rightarrow> 'a list" where
  "heapify lt heap = fold (siftup lt) (rev [0 ..< length heap div 2]) heap"

declare siftdown_loop.simps [simp del] siftup_loop.simps [simp del]

lemma length_siftdown_loop: "length (siftdown_loop lt s p x xs) = length xs"
  by (induction lt s p x xs rule: siftdown_loop.induct) (subst siftdown_loop.simps, simp)

lemma length_siftup_loop: "length (snd (siftup_loop lt p xs)) = length xs"
  by (induction lt p xs rule: siftup_loop.induct) (subst siftup_loop.simps, simp add: Let_def)

lemma length_siftup [simp]: "length (siftup lt p xs) = length xs"
  using length_siftup_loop [of lt p xs] by (auto simp: siftup_def siftdown_def Let_def length_siftdown_loop split: prod.splits)

lemma heappop_length: "heappop lt xs = Inr (x, ys) \<Longrightarrow> length ys < length xs"
  by (cases xs) (auto simp: heappop_def Let_def split: if_splits)

text \<open>Popping until the heap is empty.\<close>

function heap_drain :: "('a \<Rightarrow> 'a \<Rightarrow> bool) \<Rightarrow> 'a list \<Rightarrow> 'a list" where
  "heap_drain lt heap = (case heappop lt heap of Inl _ \<Rightarrow> [] | Inr (x, rest) \<Rightarrow> x # heap_drain lt rest)"
  by auto
termination
  by (relation "measure (\<lambda>(_, heap). length heap)") (auto dest: heappop_length)

declare heap_drain.simps [simp del]

section \<open>Tree positions\<close>

lemma parent_less: "0 < i \<Longrightarrow> parent i < i"
  by (auto simp: parent_def)

lemma parent_child: "parent j = p \<longleftrightarrow> j = 2 * p + 1 \<or> j = 2 * p + 2 \<or> (j = 0 \<and> p = 0)"
  by (auto simp: parent_def)

text \<open>\<open>below s p\<close>: \<open>p\<close> is \<open>s\<close> or a descendant of it.\<close>

inductive below :: "nat \<Rightarrow> nat \<Rightarrow> bool" for s where
  below_self: "below s s"
| below_child: "below s p \<Longrightarrow> 0 < c \<Longrightarrow> parent c = p \<Longrightarrow> below s c"

inductive_cases below_cases: "below s p"

lemma below_le: "below s p \<Longrightarrow> s \<le> p"
  by (induction rule: below.induct) (auto simp: parent_def)

lemma below_parent: "below s p \<Longrightarrow> s < p \<Longrightarrow> below s (parent p)"
  by (erule below_cases) auto

lemma below_0: "below 0 p"
proof (induction p rule: less_induct)
  case (less p)
  show ?case
  proof (cases "p = 0")
    case False
    then show ?thesis using less [OF parent_less] below_child by blast
  qed (simp add: below_self)
qed

section \<open>Correctness\<close>

definition heap_from :: "('a \<Rightarrow> 'k::linorder) \<Rightarrow> nat \<Rightarrow> 'a list \<Rightarrow> bool" where
  "heap_from key s xs \<longleftrightarrow> (\<forall>j. 0 < j \<longrightarrow> j < length xs \<longrightarrow> s \<le> parent j \<longrightarrow> key (xs ! parent j) \<le> key (xs ! j))"

text \<open>A heap with a hole at \<open>p\<close>, whose children are no smaller than the parent of the hole.\<close>

definition hole :: "('a \<Rightarrow> 'k::linorder) \<Rightarrow> nat \<Rightarrow> nat \<Rightarrow> 'a list \<Rightarrow> bool" where
  "hole key s p xs \<longleftrightarrow> below s p \<and> p < length xs \<and>
     (\<forall>j. 0 < j \<longrightarrow> j < length xs \<longrightarrow> s \<le> parent j \<longrightarrow> j \<noteq> p \<longrightarrow> parent j \<noteq> p \<longrightarrow> key (xs ! parent j) \<le> key (xs ! j)) \<and>
     (\<forall>j. 0 < j \<longrightarrow> j < length xs \<longrightarrow> parent j = p \<longrightarrow> s < p \<longrightarrow> key (xs ! parent p) \<le> key (xs ! j))"

lemma holeD:
  assumes "hole key s p xs"
  shows "below s p" "p < length xs"
    "\<And>j. 0 < j \<Longrightarrow> j < length xs \<Longrightarrow> s \<le> parent j \<Longrightarrow> j \<noteq> p \<Longrightarrow> parent j \<noteq> p \<Longrightarrow> key (xs ! parent j) \<le> key (xs ! j)"
    "\<And>j. 0 < j \<Longrightarrow> j < length xs \<Longrightarrow> parent j = p \<Longrightarrow> s < p \<Longrightarrow> key (xs ! parent p) \<le> key (xs ! j)"
  using assms by (auto simp: hole_def)

lemma hole_start: "heap_from key (Suc s) xs \<Longrightarrow> s < length xs \<Longrightarrow> hole key s s xs"
  by (auto simp: heap_from_def hole_def below_self)

lemma hole_update: "hole key s p xs \<Longrightarrow> hole key s p (xs[p := x])"
  using parent_less [of p] unfolding hole_def by (auto simp: nth_list_update)

lemma mset_swap_hole:
  assumes "p < length xs" "c < length xs" "c \<noteq> p"
  shows "mset ((xs[p := xs ! c])[c := x]) = mset (xs[p := x])"
proof -
  have "(xs[p := xs ! c])[c := x] = (xs[p := x])[p := xs[p := x] ! c, c := xs[p := x] ! p]" using assms by simp
  then show ?thesis using assms mset_swap [of p "xs[p := x]" c] by (simp add: list_update_swap)
qed

text \<open>Filling the hole with an item that is no larger than the children.\<close>

definition fits :: "('a \<Rightarrow> 'k::linorder) \<Rightarrow> nat \<Rightarrow> 'a \<Rightarrow> 'a list \<Rightarrow> bool" where
  "fits key p x xs \<longleftrightarrow> (\<forall>j. 0 < j \<longrightarrow> j < length xs \<longrightarrow> parent j = p \<longrightarrow> key x \<le> key (xs ! j))"

lemma fits_update:
  assumes "fits key p x xs"
  shows "fits key p x (xs[p := y])"
  unfolding fits_def
proof (intro allI impI)
  fix j assume j: "0 < j" "j < length (xs[p := y])" "parent j = p"
  then show "key x \<le> key (xs[p := y] ! j)" using assms parent_less [OF j(1)] by (simp add: fits_def)
qed

lemma fill_hole:
  assumes h: "hole key s p xs" and f: "fits key p x xs" and top: "s < p \<Longrightarrow> key (xs ! parent p) \<le> key x"
  shows "heap_from key s (xs[p := x])"
  unfolding heap_from_def
proof (intro allI impI)
  fix j assume j: "0 < j" "j < length (xs[p := x])" "s \<le> parent j"
  have pj: "parent j \<noteq> j" using parent_less [OF j(1)] by simp
  consider "j = p" | "parent j = p" | "j \<noteq> p" "parent j \<noteq> p" by blast
  then show "key (xs[p := x] ! parent j) \<le> key (xs[p := x] ! j)"
  proof cases
    case 1
    then have "s < p" using j(1,3) parent_less [OF j(1)] by simp
    then show ?thesis using 1 top pj j(2) by simp
  next
    case 2
    then show ?thesis using f j pj holeD(2) [OF h] by (auto simp: fits_def)
  next
    case 3
    then show ?thesis using holeD(3) [OF h] j by simp
  qed
qed

lemma move_hole_up:
  assumes h: "hole key s p xs" and s: "s < p" and lt: "key x < key (xs ! parent p)"
  shows "hole key s (parent p) (xs[p := xs ! parent p])" "fits key (parent p) x (xs[p := xs ! parent p])"
proof -
  let ?q = "parent p" and ?ys = "xs[p := xs ! parent p]"
  have p: "p < length xs" "0 < p" using holeD(2) [OF h] s by simp_all
  have q: "?q < p" using parent_less [OF p(2)] .
  have b: "below s ?q" using below_parent [OF holeD(1) [OF h] s] .
  then have sq: "s \<le> ?q" by (rule below_le)
  have child: "key (xs ! ?q) \<le> key (?ys ! j)" if "0 < j" "j < length xs" "parent j = ?q" for j
  proof (cases "j = p")
    case False
    then show ?thesis using holeD(3) [OF h that(1,2)] that(3) sq q by simp
  qed (simp add: p)
  show "fits key ?q x ?ys" unfolding fits_def
  proof (intro allI impI)
    fix j assume "0 < j" "j < length ?ys" "parent j = ?q"
    then show "key x \<le> key (?ys ! j)" using child [of j] lt by simp
  qed
  have "key (?ys ! parent j) \<le> key (?ys ! j)"
    if j: "0 < j" "j < length xs" "s \<le> parent j" "j \<noteq> ?q" "parent j \<noteq> ?q" for j
  proof (cases "parent j = p")
    case True
    then show ?thesis using holeD(4) [OF h j(1,2) True s] p parent_less [OF j(1)] by simp
  next
    case False
    then show ?thesis using holeD(3) [OF h j(1-3)] j(5) p by (cases "j = p") auto
  qed
  moreover have "key (?ys ! parent ?q) \<le> key (?ys ! j)" if "0 < j" "j < length xs" "parent j = ?q" "s < ?q" for j
  proof -
    have "parent ?q < ?q" "s \<le> parent ?q" using that(4) parent_less [of ?q] below_le [OF below_parent [OF b that(4)]] by simp_all
    then have "key (xs ! parent ?q) \<le> key (xs ! ?q)" using holeD(3) [OF h, of ?q] that(4) p q by auto
    moreover have "?ys ! parent ?q = xs ! parent ?q" using \<open>parent ?q < ?q\<close> q by simp
    ultimately show ?thesis using child [OF that(1-3)] by simp
  qed
  ultimately show "hole key s ?q ?ys" using b p q by (simp add: hole_def)
qed

lemma move_hole_down:
  assumes h: "hole key s p xs" and c: "c < length xs" "0 < c" "parent c = p"
    and least: "\<And>j. 0 < j \<Longrightarrow> j < length xs \<Longrightarrow> parent j = p \<Longrightarrow> key (xs ! c) \<le> key (xs ! j)"
  shows "hole key s c (xs[p := xs ! c])"
proof -
  let ?ys = "xs[p := xs ! c]"
  have p: "p < length xs" "p < c" using holeD(2) [OF h] parent_less [OF c(2)] c(3) by simp_all
  have b: "below s c" using below_child [OF holeD(1) [OF h] c(2,3)] .
  have sp: "s \<le> p" using below_le [OF holeD(1) [OF h]] .
  have "key (?ys ! parent j) \<le> key (?ys ! j)"
    if j: "0 < j" "j < length xs" "s \<le> parent j" "j \<noteq> c" "parent j \<noteq> c" for j
  proof -
    consider "j = p" | "parent j = p" | "j \<noteq> p" "parent j \<noteq> p" by blast
    then show ?thesis
    proof cases
      case 1
      then have "s < p" using j(1,3) parent_less [OF j(1)] by simp
      then show ?thesis using holeD(4) [OF h c(2,1,3)] 1 p parent_less [of p] j(1) by simp
    next
      case 2
      then show ?thesis using least [OF j(1,2) 2] p parent_less [OF j(1)] by simp
    next
      case 3
      then show ?thesis using holeD(3) [OF h j(1-3)] by simp
    qed
  qed
  moreover have "key (?ys ! parent c) \<le> key (?ys ! j)" if "0 < j" "j < length xs" "parent j = c" for j
    using holeD(3) [OF h that(1,2)] that(3) sp p c(3) parent_less [OF that(1)] by simp
  ultimately show ?thesis using b c(1) by (simp add: hole_def)
qed

locale comparison =
  fixes lt :: "'a \<Rightarrow> 'a \<Rightarrow> bool" and key :: "'a \<Rightarrow> 'k::linorder"
  assumes lt_key: "lt a b \<longleftrightarrow> key a < key b"
begin

lemma siftdown_loop_ok:
  "hole key s p xs \<Longrightarrow> fits key p x xs \<Longrightarrow>
   heap_from key s (siftdown_loop lt s p x xs) \<and> mset (siftdown_loop lt s p x xs) = mset (xs[p := x])"
proof (induction p arbitrary: xs rule: less_induct)
  case (less p)
  have p: "p < length xs" using holeD(2) [OF less.prems(1)] .
  show ?case
  proof (cases "s < p \<and> lt x (xs ! parent p)")
    case True
    then have q: "parent p < p" using parent_less by auto
    have "mset ((xs[p := xs ! parent p])[parent p := x]) = mset (xs[p := x])"
      using p q by (intro mset_swap_hole) auto
    moreover have "s < p" "key x < key (xs ! parent p)" using True by (simp_all add: lt_key)
    note less.IH [OF q move_hole_up [OF less.prems(1) this]]
    ultimately show ?thesis using True by (simp add: siftdown_loop.simps [of lt s p])
  next
    case False
    have "siftdown_loop lt s p x xs = xs[p := x]"
      by (simp only: siftdown_loop.simps [of lt s p x xs] False if_False)
    moreover have "key (xs ! parent p) \<le> key x" if "s < p" using that False by (simp add: lt_key)
    ultimately show ?thesis using fill_hole [OF less.prems] by simp
  qed
qed

lemma smaller_child:
  assumes "2 * p + 1 < length xs"
  defines "c \<equiv> smaller_child lt p xs"
  shows "c < length xs" "0 < c" "parent c = p"
    "\<And>j. 0 < j \<Longrightarrow> j < length xs \<Longrightarrow> parent j = p \<Longrightarrow> key (xs ! c) \<le> key (xs ! j)"
proof -
  show "c < length xs" "0 < c" "parent c = p" using assms(1) by (auto simp: c_def smaller_child_def Let_def parent_def)
  fix j assume j: "0 < j" "j < length xs" "parent j = p"
  then consider "j = 2 * p + 1" | "j = 2 * p + 2" using parent_child [of j p] by auto
  then show "key (xs ! c) \<le> key (xs ! j)" using j(2) by cases (auto simp: c_def smaller_child_def Let_def lt_key)
qed

lemma siftup_loop_ok:
  "hole key s p xs \<Longrightarrow> case siftup_loop lt p xs of (q, ys) \<Rightarrow>
     hole key s q ys \<and> fits key q x ys \<and> mset (ys[q := x]) = mset (xs[p := x])"
proof (induction "length xs - p" arbitrary: p xs rule: less_induct)
  case less
  have p: "p < length xs" using holeD(2) [OF less.prems] .
  show ?case
  proof (cases "2 * p + 1 < length xs")
    case True
    define c where "c = smaller_child lt p xs"
    note c = smaller_child [OF True, folded c_def]
    have pc: "p < c" using parent_less [OF c(2)] c(3) by simp
    have h: "hole key s c (xs[p := xs ! c])" using c by (intro move_hole_down [OF less.prems]) auto
    have "mset ((xs[p := xs ! c])[c := x]) = mset (xs[p := x])"
      using p pc c(1) by (intro mset_swap_hole) auto
    moreover have "siftup_loop lt p xs = siftup_loop lt c (xs[p := xs ! c])"
      using True by (simp add: siftup_loop.simps [of lt p] c_def Let_def)
    moreover note less.hyps [OF _ h]
    ultimately show ?thesis using pc p by auto
  next
    case False
    have "siftup_loop lt p xs = (p, xs)" by (simp only: siftup_loop.simps [of lt p xs] False if_False)
    moreover have "\<not> j < length xs" if "0 < j" "parent j = p" for j
      using that False parent_child [of j p] by auto
    then have "fits key p x xs" by (auto simp: fits_def)
    ultimately show ?thesis using less.prems by simp
  qed
qed

lemma siftup_ok:
  assumes "heap_from key (Suc s) xs" "s < length xs"
  shows "heap_from key s (siftup lt s xs)" "mset (siftup lt s xs) = mset xs"
proof -
  obtain q ys where l: "siftup_loop lt s xs = (q, ys)" by fastforce
  have h: "hole key s q ys" "fits key q (xs ! s) ys" "mset (ys[q := xs ! s]) = mset xs"
    using siftup_loop_ok [OF hole_start [OF assms], of "xs ! s"] l by simp_all
  have "hole key s q (ys[q := xs ! s])" using hole_update [OF h(1)] .
  moreover have "fits key q (xs ! s) (ys[q := xs ! s])" using fits_update [OF h(2)] .
  moreover have "q < length ys" using holeD(2) [OF h(1)] .
  ultimately have "heap_from key s (siftup lt s xs) \<and> mset (siftup lt s xs) = mset (ys[q := xs ! s])"
    using siftdown_loop_ok [of s q "ys[q := xs ! s]" "xs ! s"] l by (simp add: siftup_def siftdown_def Let_def)
  then show "heap_from key s (siftup lt s xs)" "mset (siftup lt s xs) = mset xs" using h(3) by simp_all
qed

lemma heap_root:
  assumes "heap_from key 0 xs" "x \<in> set xs"
  shows "key (xs ! 0) \<le> key x"
proof -
  have "key (xs ! 0) \<le> key (xs ! i)" if "i < length xs" for i
    using that
  proof (induction i rule: less_induct)
    case (less i)
    show ?case
    proof (cases "i = 0")
      case False
      then have "key (xs ! 0) \<le> key (xs ! parent i)" "key (xs ! parent i) \<le> key (xs ! i)"
        using less parent_less [of i] assms(1) by (auto simp: heap_from_def)
      then show ?thesis by simp
    qed simp
  qed
  then show ?thesis using assms(2) by (auto simp: in_set_conv_nth)
qed

lemma heappush_ok:
  assumes "heap_from key 0 xs"
  shows "heap_from key 0 (heappush lt xs x)" "mset (heappush lt xs x) = add_mset x (mset xs)"
proof -
  let ?n = "length xs"
  have "key ((xs @ [x]) ! parent j) \<le> key ((xs @ [x]) ! j)" if "0 < j" "j < ?n" for j
    using that assms parent_less [of j] by (simp add: heap_from_def nth_append)
  moreover have no: "parent j \<noteq> ?n" if "0 < j" "j < Suc ?n" for j using parent_less [OF that(1)] that(2) by simp
  ultimately have "hole key 0 ?n (xs @ [x])" unfolding hole_def by (auto simp: below_0 less_Suc_eq)
  moreover have "fits key ?n x (xs @ [x])" using no unfolding fits_def by auto
  ultimately have "heap_from key 0 (heappush lt xs x) \<and> mset (heappush lt xs x) = mset ((xs @ [x])[?n := x])"
    unfolding heappush_def siftdown_def using siftdown_loop_ok by simp
  then show "heap_from key 0 (heappush lt xs x)" "mset (heappush lt xs x) = add_mset x (mset xs)" by simp_all
qed

lemma heap_shrink: "heap_from key s (xs @ ys) \<Longrightarrow> heap_from key s xs"
  unfolding heap_from_def
proof (intro allI impI)
  fix j assume h: "\<forall>j>0. j < length (xs @ ys) \<longrightarrow> s \<le> parent j \<longrightarrow> key ((xs @ ys) ! parent j) \<le> key ((xs @ ys) ! j)"
    and j: "0 < j" "j < length xs" "s \<le> parent j"
  then have "key ((xs @ ys) ! parent j) \<le> key ((xs @ ys) ! j)" by simp
  then show "key (xs ! parent j) \<le> key (xs ! j)" using j parent_less [OF j(1)] by (simp add: nth_append)
qed

lemma heap_replace_root: "heap_from key 0 xs \<Longrightarrow> heap_from key (Suc 0) (xs[0 := x])"
  using parent_less unfolding heap_from_def by (fastforce simp: nth_list_update)

lemma heappop_ok:
  assumes "heap_from key 0 xs" "xs \<noteq> []"
  shows "\<exists>ys. heappop lt xs = Inr (xs ! 0, ys) \<and> heap_from key 0 ys \<and> mset xs = add_mset (xs ! 0) (mset ys)"
proof -
  obtain h l where xs: "xs = h @ [l]" using assms(2) by (cases xs rule: rev_cases) auto
  show ?thesis
  proof (cases h)
    case Nil
    then show ?thesis using xs by (simp add: heappop_def heap_from_def)
  next
    case (Cons a t)
    have "heap_from key 0 h" using heap_shrink assms(1) xs by blast
    then have "heap_from key (Suc 0) (h[0 := l])" by (rule heap_replace_root)
    then have "heap_from key 0 (siftup lt 0 (h[0 := l]))" "mset (siftup lt 0 (h[0 := l])) = mset (h[0 := l])"
      using siftup_ok Cons by auto
    then show ?thesis using Cons xs by (simp add: heappop_def)
  qed
qed

lemma heapify_loop:
  "n \<le> length xs \<Longrightarrow> heap_from key n xs \<Longrightarrow>
   heap_from key 0 (fold (siftup lt) (rev [0 ..< n]) xs) \<and> mset (fold (siftup lt) (rev [0 ..< n]) xs) = mset xs"
proof (induction n arbitrary: xs)
  case (Suc n)
  then have "heap_from key n (siftup lt n xs)" "mset (siftup lt n xs) = mset xs" using siftup_ok by simp_all
  moreover from this(2) have "length (siftup lt n xs) = length xs" by (rule mset_eq_length)
  ultimately show ?case using Suc by simp
qed simp

lemma heapify_ok: "heap_from key 0 (heapify lt xs)" "mset (heapify lt xs) = mset xs"
proof -
  have "heap_from key (length xs div 2) xs"
    unfolding heap_from_def by (auto simp: parent_def)
  then show "heap_from key 0 (heapify lt xs)" "mset (heapify lt xs) = mset xs"
    using heapify_loop [of "length xs div 2" xs] by (simp_all add: heapify_def)
qed

lemma heap_drain_ok:
  "heap_from key 0 xs \<Longrightarrow> mset (heap_drain lt xs) = mset xs \<and> sorted (map key (heap_drain lt xs))"
proof (induction "length xs" arbitrary: xs rule: less_induct)
  case less
  show ?case
  proof (cases "xs = []")
    case True
    then show ?thesis by (simp add: heap_drain.simps heappop_def)
  next
    case False
    then obtain ys where ys: "heappop lt xs = Inr (xs ! 0, ys)" "heap_from key 0 ys" "mset xs = add_mset (xs ! 0) (mset ys)"
      using heappop_ok [OF less.prems] by blast
    have rest: "mset (heap_drain lt ys) = mset ys \<and> sorted (map key (heap_drain lt ys))"
      using less.hyps [OF heappop_length [OF ys(1)] ys(2)] .
    moreover have "heap_drain lt xs = xs ! 0 # heap_drain lt ys" by (simp add: heap_drain.simps [of lt xs] ys(1))
    moreover have "key (xs ! 0) \<le> key y" if "y \<in> set (heap_drain lt ys)" for y
    proof (rule heap_root [OF less.prems])
      have "y \<in># mset xs" using that rest ys(3) by (metis set_mset_mset union_iff add_mset_add_single)
      then show "y \<in> set xs" by simp
    qed
    ultimately show ?thesis using ys(3) by simp
  qed
qed

end

end
