(* ===== verification/Request_Queue.thy ===== *)
theory Request_Queue
  imports Request Heap_Queue
begin

text \<open>
  The queues of waiting requests (\<^verbatim>\<open>vllm/v1/core/sched/request_queue.py\<close>): first come first served on a deque,
  and by priority on the heap of \<open>Heap_Queue\<close> under the order of requests. Requests are compared by identity
  (\<open>obj_id\<close>) in \<open>remove\<close> and \<open>in\<close>, because \<open>Request\<close> defines no equality. The locale \<open>waiting_queue\<close> is the
  contract of the abstract class, with both implementations as instances.
\<close>

section \<open>Definitions\<close>

datatype scheduling_policy = FCFS | PRIORITY

datatype request_queue = FCFSRequestQueue "request list" | PriorityRequestQueue "request list"

fun list_remove :: "request \<Rightarrow> request list \<Rightarrow> request list res" where
  "list_remove r [] = Inl ValueError"
| "list_remove r (x # xs) =
     (if obj_id x = obj_id r then Inr xs else bind_res (list_remove r xs) (\<lambda>ys. Inr (x # ys)))"

definition not_in :: "request list \<Rightarrow> request \<Rightarrow> bool" where
  "not_in rs x \<longleftrightarrow> obj_id x \<notin> set (map obj_id rs)"

definition fcfs_add_request :: "request \<Rightarrow> request list \<Rightarrow> request list" where
  "fcfs_add_request r q = q @ [r]"

definition fcfs_pop_request :: "request list \<Rightarrow> (request \<times> request list) res" where
  "fcfs_pop_request q = (case q of [] \<Rightarrow> Inl IndexError | r # rest \<Rightarrow> Inr (r, rest))"

definition fcfs_peek_request :: "request list \<Rightarrow> request res" where
  "fcfs_peek_request q = (if q = [] then Inl IndexError else Inr (q ! 0))"

definition fcfs_prepend_request :: "request \<Rightarrow> request list \<Rightarrow> request list" where
  "fcfs_prepend_request r q = r # q"

definition fcfs_prepend_requests :: "request list \<Rightarrow> request list \<Rightarrow> request list" where
  "fcfs_prepend_requests rs q = fold fcfs_prepend_request rs q"

definition fcfs_remove_request :: "request \<Rightarrow> request list \<Rightarrow> request list res" where
  "fcfs_remove_request r q = list_remove r q"

definition fcfs_remove_requests :: "request list \<Rightarrow> request list \<Rightarrow> request list" where
  "fcfs_remove_requests rs q = filter (not_in rs) q"

definition prio_add_request :: "request \<Rightarrow> request list \<Rightarrow> request list" where
  "prio_add_request r h = heappush request_lt h r"

definition prio_pop_request :: "request list \<Rightarrow> (request \<times> request list) res" where
  "prio_pop_request h = (if h = [] then Inl IndexError else heappop request_lt h)"

definition prio_peek_request :: "request list \<Rightarrow> request res" where
  "prio_peek_request h = (if h = [] then Inl IndexError else Inr (h ! 0))"

definition prio_prepend_request :: "request \<Rightarrow> request list \<Rightarrow> request list" where
  "prio_prepend_request r h = prio_add_request r h"

definition prio_prepend_requests :: "request list \<Rightarrow> request list \<Rightarrow> request list" where
  "prio_prepend_requests rs h = fold prio_add_request rs h"

definition prio_remove_request :: "request \<Rightarrow> request list \<Rightarrow> request list res" where
  "prio_remove_request r h = bind_res (list_remove r h) (\<lambda>h'. Inr (heapify request_lt h'))"

definition prio_remove_requests :: "request list \<Rightarrow> request list \<Rightarrow> request list" where
  "prio_remove_requests rs h = heapify request_lt (filter (not_in rs) h)"

definition prio_iter :: "request list \<Rightarrow> request list" where
  "prio_iter h = heap_drain request_lt h"

definition create_request_queue :: "scheduling_policy \<Rightarrow> request_queue" where
  "create_request_queue policy = (if policy = PRIORITY then PriorityRequestQueue [] else FCFSRequestQueue [])"

subsection \<open>Dispatch on the class of the queue\<close>

fun queue_iter :: "request_queue \<Rightarrow> request list" where
  "queue_iter (FCFSRequestQueue q) = q"
| "queue_iter (PriorityRequestQueue h) = prio_iter h"

fun queue_len :: "request_queue \<Rightarrow> nat" where
  "queue_len (FCFSRequestQueue q) = length q"
| "queue_len (PriorityRequestQueue h) = length h"

fun queue_bool :: "request_queue \<Rightarrow> bool" where
  "queue_bool (FCFSRequestQueue q) = (length q > 0)"
| "queue_bool (PriorityRequestQueue h) = (h \<noteq> [])"

fun add_request :: "request \<Rightarrow> request_queue \<Rightarrow> request_queue" where
  "add_request r (FCFSRequestQueue q) = FCFSRequestQueue (fcfs_add_request r q)"
| "add_request r (PriorityRequestQueue h) = PriorityRequestQueue (prio_add_request r h)"

fun pop_request :: "request_queue \<Rightarrow> (request \<times> request_queue) res" where
  "pop_request (FCFSRequestQueue q) = bind_res (fcfs_pop_request q) (\<lambda>(r, q'). Inr (r, FCFSRequestQueue q'))"
| "pop_request (PriorityRequestQueue h) = bind_res (prio_pop_request h) (\<lambda>(r, h'). Inr (r, PriorityRequestQueue h'))"

fun peek_request :: "request_queue \<Rightarrow> request res" where
  "peek_request (FCFSRequestQueue q) = fcfs_peek_request q"
| "peek_request (PriorityRequestQueue h) = prio_peek_request h"

fun prepend_request :: "request \<Rightarrow> request_queue \<Rightarrow> request_queue" where
  "prepend_request r (FCFSRequestQueue q) = FCFSRequestQueue (fcfs_prepend_request r q)"
| "prepend_request r (PriorityRequestQueue h) = PriorityRequestQueue (prio_prepend_request r h)"

fun prepend_requests :: "request_queue \<Rightarrow> request_queue \<Rightarrow> request_queue" where
  "prepend_requests rs (FCFSRequestQueue q) = FCFSRequestQueue (fcfs_prepend_requests (queue_iter rs) q)"
| "prepend_requests rs (PriorityRequestQueue h) = PriorityRequestQueue (prio_prepend_requests (queue_iter rs) h)"

fun remove_request :: "request \<Rightarrow> request_queue \<Rightarrow> request_queue res" where
  "remove_request r (FCFSRequestQueue q) = bind_res (fcfs_remove_request r q) (\<lambda>q'. Inr (FCFSRequestQueue q'))"
| "remove_request r (PriorityRequestQueue h) = bind_res (prio_remove_request r h) (\<lambda>h'. Inr (PriorityRequestQueue h'))"

fun remove_requests :: "request list \<Rightarrow> request_queue \<Rightarrow> request_queue" where
  "remove_requests rs (FCFSRequestQueue q) = FCFSRequestQueue (fcfs_remove_requests rs q)"
| "remove_requests rs (PriorityRequestQueue h) = PriorityRequestQueue (prio_remove_requests rs h)"

section \<open>The contract of a waiting queue\<close>

text \<open>
  \<open>items q\<close> is the order in which the requests of \<open>q\<close> are served.
\<close>

locale waiting_queue =
  fixes ok :: "'q \<Rightarrow> bool"
    and items :: "'q \<Rightarrow> request list"
    and add :: "request \<Rightarrow> 'q \<Rightarrow> 'q"
    and pop :: "'q \<Rightarrow> (request \<times> 'q) res"
    and peek :: "'q \<Rightarrow> request res"
    and prepend :: "request \<Rightarrow> 'q \<Rightarrow> 'q"
    and remove :: "request \<Rightarrow> 'q \<Rightarrow> 'q res"
    and remove_many :: "request list \<Rightarrow> 'q \<Rightarrow> 'q"
  assumes add_ok: "ok q \<Longrightarrow> ok (add r q)"
    and add_items: "ok q \<Longrightarrow> mset (items (add r q)) = add_mset r (mset (items q))"
    and prepend_ok: "ok q \<Longrightarrow> ok (prepend r q)"
    and prepend_items: "ok q \<Longrightarrow> mset (items (prepend r q)) = add_mset r (mset (items q))"
    and pop_empty: "ok q \<Longrightarrow> items q = [] \<Longrightarrow> pop q = Inl IndexError"
    and pop_next: "ok q \<Longrightarrow> items q = r # rs \<Longrightarrow> \<exists>q'. pop q = Inr (r, q') \<and> ok q' \<and> items q' = rs"
    and peek_next: "ok q \<Longrightarrow> peek q = (case items q of [] \<Rightarrow> Inl IndexError | r # _ \<Rightarrow> Inr r)"
    and remove_one: "ok q \<Longrightarrow> x \<in> set (items q) \<Longrightarrow> obj_id x = obj_id r \<Longrightarrow>
      \<exists>y q'. remove r q = Inr q' \<and> ok q' \<and> obj_id y = obj_id r \<and> mset (items q) = add_mset y (mset (items q'))"
    and remove_absent: "ok q \<Longrightarrow> not_in [r] ` set (items q) \<subseteq> {True} \<Longrightarrow> remove r q = Inl ValueError"
    and remove_many_ok: "ok q \<Longrightarrow> ok (remove_many rs q)"
    and remove_many_items: "ok q \<Longrightarrow> mset (items (remove_many rs q)) = filter_mset (not_in rs) (mset (items q))"
begin

lemma fold_prepend:
  assumes "ok q"
  shows "ok (fold prepend rs q) \<and> mset (items (fold prepend rs q)) = mset rs + mset (items q)"
  using assms
proof (induction rs arbitrary: q)
  case (Cons r rs)
  show ?case using Cons.IH [OF prepend_ok [OF Cons.prems]] Cons.prems by (simp add: prepend_items)
qed simp

end

section \<open>Both queues keep the contract\<close>

lemma list_remove_found:
  assumes "x \<in> set q" "obj_id x = obj_id r"
  shows "\<exists>y q'. list_remove r q = Inr q' \<and> obj_id y = obj_id r \<and> mset q = add_mset y (mset q')"
  using assms(1)
proof (induction q)
  case (Cons a q)
  show ?case
  proof (cases "obj_id a = obj_id r")
    case False
    then have "x \<in> set q" using Cons.prems assms(2) by auto
    then obtain y q' where "list_remove r q = Inr q'" "obj_id y = obj_id r" "mset q = add_mset y (mset q')"
      using Cons.IH by blast
    then show ?thesis using False by (intro exI [of _ y]) auto
  qed auto
qed simp

lemma list_remove_absent: "not_in [r] ` set q \<subseteq> {True} \<Longrightarrow> list_remove r q = Inl ValueError"
  by (induction q) (auto simp: not_in_def)

interpretation fcfs: waiting_queue "\<lambda>_. True" "\<lambda>q. q" fcfs_add_request fcfs_pop_request fcfs_peek_request
  fcfs_prepend_request fcfs_remove_request fcfs_remove_requests
proof unfold_locales
  show "\<exists>y q'. fcfs_remove_request r q = Inr q' \<and> True \<and> obj_id y = obj_id r \<and> mset q = add_mset y (mset q')"
    if "x \<in> set q" "obj_id x = obj_id r" for x r q
    using list_remove_found [OF that] by (simp add: fcfs_remove_request_def)
qed (auto simp: fcfs_add_request_def fcfs_pop_request_def fcfs_peek_request_def fcfs_prepend_request_def
    fcfs_remove_request_def fcfs_remove_requests_def list_remove_absent mset_filter split: list.splits)

interpretation rh: comparison request_lt req_key
  by unfold_locales (rule request_lt_key)

definition heap_ok :: "request list \<Rightarrow> bool" where
  "heap_ok h \<longleftrightarrow> heap_from req_key 0 h"

lemma prio_iter_mset: "heap_ok h \<Longrightarrow> mset (prio_iter h) = mset h"
  using rh.heap_drain_ok by (simp add: heap_ok_def prio_iter_def)

lemma prio_iter_sorted: "heap_ok h \<Longrightarrow> sorted (map req_key (prio_iter h))"
  using rh.heap_drain_ok by (simp add: heap_ok_def prio_iter_def)

lemma prio_iter_set: "heap_ok h \<Longrightarrow> set (prio_iter h) = set h"
  using prio_iter_mset by (metis set_mset_mset)

lemma prio_iter_Nil: "heap_ok h \<Longrightarrow> prio_iter h = [] \<longleftrightarrow> h = []"
  using prio_iter_mset [of h] by (metis mset_zero_iff)

lemma prio_pop_iter:
  assumes "heap_ok h" "h \<noteq> []"
  shows "\<exists>h'. prio_pop_request h = Inr (h ! 0, h') \<and> heap_ok h' \<and> prio_iter h = h ! 0 # prio_iter h'"
proof -
  obtain h' where h': "heappop request_lt h = Inr (h ! 0, h')" "heap_from req_key 0 h'"
    using rh.heappop_ok [of h] assms by (auto simp: heap_ok_def)
  then have "prio_iter h = h ! 0 # prio_iter h'" by (simp add: prio_iter_def heap_drain.simps [of _ h])
  then show ?thesis using h' assms(2) by (simp add: prio_pop_request_def heap_ok_def)
qed

lemma prio_remove_found:
  assumes "heap_ok h" "x \<in> set (prio_iter h)" "obj_id x = obj_id r"
  shows "\<exists>y h'. prio_remove_request r h = Inr h' \<and> heap_ok h' \<and> obj_id y = obj_id r \<and>
    mset (prio_iter h) = add_mset y (mset (prio_iter h'))"
proof -
  obtain y q' where q': "list_remove r h = Inr q'" "obj_id y = obj_id r" "mset h = add_mset y (mset q')"
    using list_remove_found [OF _ assms(3), of h] assms(1,2) prio_iter_set by blast
  moreover have "heap_ok (heapify request_lt q')" using rh.heapify_ok by (simp add: heap_ok_def)
  ultimately show ?thesis using prio_iter_mset [OF assms(1)] prio_iter_mset rh.heapify_ok(2)
    by (intro exI [of _ y] exI [of _ "heapify request_lt q'"]) (simp add: prio_remove_request_def)
qed

lemma prio_add_ok: "heap_ok h \<Longrightarrow> heap_ok (prio_add_request r h)"
  using rh.heappush_ok(1) by (simp add: heap_ok_def prio_add_request_def)

lemma prio_add_mset: "heap_ok h \<Longrightarrow> mset (prio_iter (prio_add_request r h)) = add_mset r (mset (prio_iter h))"
  using prio_iter_mset [OF prio_add_ok, of h r] prio_iter_mset [of h] rh.heappush_ok(2) [of h r]
  by (simp add: heap_ok_def prio_add_request_def)

lemma prio_filter_ok:
  "heap_ok (prio_remove_requests rs h)"
  "heap_ok h \<Longrightarrow> mset (prio_iter (prio_remove_requests rs h)) = filter_mset (not_in rs) (mset (prio_iter h))"
proof -
  show ok: "heap_ok (prio_remove_requests rs h)" using rh.heapify_ok by (simp add: heap_ok_def prio_remove_requests_def)
  show "mset (prio_iter (prio_remove_requests rs h)) = filter_mset (not_in rs) (mset (prio_iter h))" if "heap_ok h"
    using prio_iter_mset [OF ok] prio_iter_mset [OF that] rh.heapify_ok(2)
    by (simp add: prio_remove_requests_def mset_filter)
qed

interpretation prio: waiting_queue heap_ok prio_iter prio_add_request prio_pop_request prio_peek_request
  prio_prepend_request prio_remove_request prio_remove_requests
proof unfold_locales
  fix q r
  assume q: "heap_ok q"
  show "heap_ok (prio_add_request r q)" "heap_ok (prio_prepend_request r q)"
    using prio_add_ok [OF q] by (simp_all add: prio_prepend_request_def)
  show "mset (prio_iter (prio_add_request r q)) = add_mset r (mset (prio_iter q))"
    "mset (prio_iter (prio_prepend_request r q)) = add_mset r (mset (prio_iter q))"
    using prio_add_mset [OF q] by (simp_all add: prio_prepend_request_def)
  show "prio_pop_request q = Inl IndexError" if "prio_iter q = []"
    using that prio_iter_Nil [OF q] by (simp add: prio_pop_request_def)
  show "\<exists>q'. prio_pop_request q = Inr (r, q') \<and> heap_ok q' \<and> prio_iter q' = rs" if "prio_iter q = r # rs" for rs
    using prio_pop_iter [OF q] that prio_iter_Nil [OF q] by auto
  show "prio_peek_request q = (case prio_iter q of [] \<Rightarrow> Inl IndexError | r # _ \<Rightarrow> Inr r)"
    using prio_pop_iter [OF q] prio_iter_Nil [OF q] by (cases "q = []") (auto simp: prio_peek_request_def)
  show "prio_remove_request r q = Inl ValueError" if "not_in [r] ` set (prio_iter q) \<subseteq> {True}"
    using list_remove_absent that prio_iter_set [OF q] by (simp add: prio_remove_request_def)
  show "heap_ok (prio_remove_requests rs q)" for rs by (rule prio_filter_ok)
  show "mset (prio_iter (prio_remove_requests rs q)) = filter_mset (not_in rs) (mset (prio_iter q))" for rs
    by (rule prio_filter_ok(2) [OF q])
qed (rule prio_remove_found)

section \<open>Runs of a queue\<close>

text \<open>The states a queue created for a policy goes through.\<close>

inductive queue_run :: "scheduling_policy \<Rightarrow> request_queue \<Rightarrow> bool" where
  queue_new: "queue_run p (create_request_queue p)"
| queue_add: "queue_run p q \<Longrightarrow> queue_run p (add_request r q)"
| queue_prepend: "queue_run p q \<Longrightarrow> queue_run p (prepend_request r q)"
| queue_prepend_all: "queue_run p q \<Longrightarrow> queue_run p' o' \<Longrightarrow> queue_run p (prepend_requests o' q)"
| queue_pop: "queue_run p q \<Longrightarrow> pop_request q = Inr (r, q') \<Longrightarrow> queue_run p q'"
| queue_remove: "queue_run p q \<Longrightarrow> remove_request r q = Inr q' \<Longrightarrow> queue_run p q'"
| queue_remove_all: "queue_run p q \<Longrightarrow> queue_run p (remove_requests rs q)"

fun queue_ok :: "scheduling_policy \<Rightarrow> request_queue \<Rightarrow> bool" where
  "queue_ok FCFS (FCFSRequestQueue q) = True"
| "queue_ok PRIORITY (PriorityRequestQueue h) = heap_ok h"
| "queue_ok _ _ = False"

lemma queue_ok_cases [consumes 1, case_names fcfs prio]:
  assumes "queue_ok p q"
  obtains l where "p = FCFS" "q = FCFSRequestQueue l" | h where "p = PRIORITY" "q = PriorityRequestQueue h" "heap_ok h"
  using assms by (cases "(p, q)" rule: queue_ok.cases) auto

lemma queue_add_ok:
  assumes "queue_ok p q"
  shows "queue_ok p (add_request r q)" "queue_ok p (prepend_request r q)" "queue_ok p (remove_requests rs q)"
    "mset (queue_iter (add_request r q)) = add_mset r (mset (queue_iter q))"
    "mset (queue_iter (prepend_request r q)) = add_mset r (mset (queue_iter q))"
    "mset (queue_iter (remove_requests rs q)) = filter_mset (not_in rs) (mset (queue_iter q))"
  using assms
  by (auto elim!: queue_ok_cases simp: prio.add_ok prio.prepend_ok prio.remove_many_ok fcfs.add_items fcfs.prepend_items
      fcfs.remove_many_items prio.add_items prio.prepend_items prio.remove_many_items)

lemma prio_prepend_fold: "prio_prepend_requests rs h = fold prio_prepend_request rs h"
  by (simp add: prio_prepend_requests_def prio_prepend_request_def [abs_def])

lemma queue_prepend_all_ok:
  assumes "queue_ok p q"
  shows "queue_ok p (prepend_requests o' q) \<and>
    mset (queue_iter (prepend_requests o' q)) = mset (queue_iter o') + mset (queue_iter q)"
  using assms
proof (cases rule: queue_ok_cases)
  case (fcfs l)
  then show ?thesis using fcfs.fold_prepend [where rs = "queue_iter o'" and q = l] by (simp add: fcfs_prepend_requests_def)
next
  case (prio h)
  then show ?thesis using prio.fold_prepend [of h "queue_iter o'"] by (simp add: prio_prepend_fold)
qed

lemma queue_pop_ok:
  assumes "queue_ok p q"
  shows "case queue_iter q of
      [] \<Rightarrow> pop_request q = Inl IndexError \<and> peek_request q = Inl IndexError
    | r # rs \<Rightarrow> \<exists>q'. pop_request q = Inr (r, q') \<and> peek_request q = Inr r \<and> queue_ok p q' \<and> queue_iter q' = rs"
  using assms
proof (cases rule: queue_ok_cases)
  case (fcfs l)
  then show ?thesis
    by (cases l) (auto simp: fcfs_pop_request_def fcfs_peek_request_def)
next
  case (prio h)
  show ?thesis
  proof (cases "prio_iter h")
    case Nil
    then show ?thesis using prio prio.pop_empty prio.peek_next by simp
  next
    case (Cons r rs)
    then obtain h' where "prio_pop_request h = Inr (r, h')" "heap_ok h'" "prio_iter h' = rs"
      using prio.pop_next prio by blast
    then show ?thesis using prio Cons prio.peek_next [of h] by simp
  qed
qed

lemma queue_remove_ok:
  assumes "queue_ok p q"
  shows "x \<in> set (queue_iter q) \<Longrightarrow> obj_id x = obj_id r \<Longrightarrow> \<exists>y q'. remove_request r q = Inr q' \<and> queue_ok p q' \<and>
      obj_id y = obj_id r \<and> mset (queue_iter q) = add_mset y (mset (queue_iter q'))"
    and "obj_id r \<notin> obj_id ` set (queue_iter q) \<Longrightarrow> remove_request r q = Inl ValueError"
proof -
  show "\<exists>y q'. remove_request r q = Inr q' \<and> queue_ok p q' \<and> obj_id y = obj_id r \<and>
      mset (queue_iter q) = add_mset y (mset (queue_iter q'))" if x: "x \<in> set (queue_iter q)" "obj_id x = obj_id r"
    using assms
  proof (cases rule: queue_ok_cases)
    case (fcfs l)
    then obtain y l' where "fcfs_remove_request r l = Inr l'" "obj_id y = obj_id r" "mset l = add_mset y (mset l')"
      using fcfs.remove_one [of x l r] x by auto
    then show ?thesis using fcfs by (intro exI [of _ y] exI [of _ "FCFSRequestQueue l'"]) simp
  next
    case (prio h)
    then obtain y h' where "prio_remove_request r h = Inr h'" "heap_ok h'" "obj_id y = obj_id r"
      "mset (prio_iter h) = add_mset y (mset (prio_iter h'))"
      using prio.remove_one [of h x r] x by auto
    then show ?thesis using prio by (intro exI [of _ y] exI [of _ "PriorityRequestQueue h'"]) simp
  qed
  show "remove_request r q = Inl ValueError" if "obj_id r \<notin> obj_id ` set (queue_iter q)"
  proof -
    have "obj_id x \<noteq> obj_id r" if "x \<in> set (queue_iter q)" for x
      using that \<open>obj_id r \<notin> obj_id ` set (queue_iter q)\<close> by (metis imageI)
    then have "not_in [r] ` set (queue_iter q) \<subseteq> {True}" by (auto simp: not_in_def)
    then show ?thesis using assms fcfs.remove_absent prio.remove_absent by (auto elim!: queue_ok_cases)
  qed
qed

lemma queue_run_ok: "queue_run p q \<Longrightarrow> queue_ok p q"
proof (induction rule: queue_run.induct)
  case (queue_new p)
  then show ?case by (cases p) (simp_all add: create_request_queue_def heap_ok_def heap_from_def)
next
  case (queue_pop p q r q')
  then show ?case using queue_pop_ok [of p q] by (auto split: list.splits)
next
  case (queue_remove p q r q')
  then have "obj_id r \<in> obj_id ` set (queue_iter q)" using queue_remove_ok(2) [of p q r] by (metis Inl_Inr_False imageI)
  then obtain x where "x \<in> set (queue_iter q)" "obj_id x = obj_id r" by auto
  then show ?case using queue_remove_ok(1) [OF queue_remove.IH] queue_remove.hyps by fastforce
qed (simp_all add: queue_add_ok queue_prepend_all_ok)

lemma queue_len_ok: "queue_ok p q \<Longrightarrow> queue_len q = length (queue_iter q) \<and> (queue_bool q \<longleftrightarrow> queue_iter q \<noteq> [])"
  using prio_iter_mset mset_eq_length by (fastforce elim!: queue_ok_cases simp: prio_iter_Nil)

text \<open>
  Property C32. No request is lost, invented or served twice: in every state of a queue of either policy, with the requests
  in service order as the abstract state, adding and prepending add exactly the given requests (also all requests
  of another queue), popping removes and returns the first one, peeking returns it, removing takes out one
  occurrence of the given object, removing many takes out exactly those objects, and the length is the number of
  requests. Popping or peeking at an empty queue is an \<open>IndexError\<close>, removing an absent request a \<open>ValueError\<close>.
\<close>

theorem request_queue_contract:
  assumes "queue_run p q"
  shows "mset (queue_iter (add_request r q)) = add_mset r (mset (queue_iter q)) \<and>
    mset (queue_iter (prepend_request r q)) = add_mset r (mset (queue_iter q)) \<and>
    mset (queue_iter (prepend_requests other q)) = mset (queue_iter other) + mset (queue_iter q) \<and>
    mset (queue_iter (remove_requests rs q)) = filter_mset (not_in rs) (mset (queue_iter q)) \<and>
    (case queue_iter q of
       [] \<Rightarrow> pop_request q = Inl IndexError \<and> peek_request q = Inl IndexError
     | x # xs \<Rightarrow> peek_request q = Inr x \<and> (\<exists>q'. pop_request q = Inr (x, q') \<and> queue_iter q' = xs)) \<and>
    (if obj_id r \<in> obj_id ` set (queue_iter q)
     then \<exists>y q'. remove_request r q = Inr q' \<and> obj_id y = obj_id r \<and> mset (queue_iter q) = add_mset y (mset (queue_iter q'))
     else remove_request r q = Inl ValueError) \<and>
    queue_len q = length (queue_iter q) \<and> (queue_bool q \<longleftrightarrow> queue_iter q \<noteq> [])"
proof -
  have ok: "queue_ok p q" using assms by (rule queue_run_ok)
  have "if obj_id r \<in> obj_id ` set (queue_iter q)
     then \<exists>y q'. remove_request r q = Inr q' \<and> obj_id y = obj_id r \<and> mset (queue_iter q) = add_mset y (mset (queue_iter q'))
     else remove_request r q = Inl ValueError"
    using queue_remove_ok(1) [OF ok, of _ r] queue_remove_ok(2) [OF ok, of r] by (smt (verit, best) imageE imageI)
  moreover have "case queue_iter q of
       [] \<Rightarrow> pop_request q = Inl IndexError \<and> peek_request q = Inl IndexError
     | x # xs \<Rightarrow> peek_request q = Inr x \<and> (\<exists>q'. pop_request q = Inr (x, q') \<and> queue_iter q' = xs)"
    using queue_pop_ok [OF ok] by (auto split: list.splits)
  ultimately show ?thesis using queue_add_ok [OF ok] queue_prepend_all_ok [OF ok] queue_len_ok [OF ok] by simp
qed

text \<open>
  Property C33. Service order: a priority queue always serves its requests in the order of (priority, arrival time,
  request id, identity), whatever was added, prepended and removed before; a first-come-first-served queue serves added
  requests last, a prepended request next, and the requests of a prepended queue first, in reverse order.
\<close>

theorem service_order:
  assumes "queue_run p q"
  shows "(p = PRIORITY \<longrightarrow> sorted (map req_key (queue_iter q))) \<and>
    (p = FCFS \<longrightarrow> queue_iter (add_request r q) = queue_iter q @ [r] \<and>
       queue_iter (prepend_request r q) = r # queue_iter q \<and>
       queue_iter (prepend_requests other q) = rev (queue_iter other) @ queue_iter q \<and>
       queue_iter (remove_requests rs q) = filter (not_in rs) (queue_iter q))"
proof -
  have "fold fcfs_prepend_request xs l = rev xs @ l" for xs l
    by (induction xs arbitrary: l) (simp_all add: fcfs_prepend_request_def)
  then show ?thesis using queue_run_ok [OF assms] prio_iter_sorted
    by (auto elim!: queue_ok_cases simp: fcfs_add_request_def fcfs_prepend_request_def fcfs_prepend_requests_def
        fcfs_remove_requests_def)
qed

section \<open>Witnesses\<close>

definition demo_waiting :: "nat \<Rightarrow> int \<Rightarrow> request" where
  "demo_waiting i prio = (demo_request [])\<lparr>obj_id := i, priority := prio\<rparr>"

definition demo_queue :: request_queue where
  "demo_queue = add_request (demo_waiting 2 1) (add_request (demo_waiting 1 5) (create_request_queue PRIORITY))"

lemma demo_queue_run: "queue_run PRIORITY demo_queue"
  unfolding demo_queue_def by (intro queue_add queue_new)

lemma demo_queue_items: "mset (queue_iter demo_queue) = {#demo_waiting 1 5, demo_waiting 2 1#}"
proof -
  have "queue_run PRIORITY (add_request (demo_waiting 1 5) (create_request_queue PRIORITY))" by (intro queue_add queue_new)
  moreover have "queue_iter (create_request_queue PRIORITY) = []"
    by (simp add: create_request_queue_def prio_iter_def heap_drain.simps heappop_def)
  ultimately show ?thesis unfolding demo_queue_def
    using queue_add_ok(4) [OF queue_run_ok] queue_new [of PRIORITY] by (simp add: add_mset_commute)
qed

theorem service_order_witness:
  "sorted (map req_key (queue_iter demo_queue)) \<and> length (queue_iter demo_queue) = 2"
proof -
  have "length (queue_iter demo_queue) = 2" using arg_cong [OF demo_queue_items, of size] by simp
  then show ?thesis using service_order [OF demo_queue_run, of undefined undefined "[]"] by simp
qed

theorem request_queue_contract_witness:
  "mset (queue_iter (add_request (demo_waiting 3 0) demo_queue)) = add_mset (demo_waiting 3 0) (mset (queue_iter demo_queue)) \<and>
   remove_request (demo_waiting 3 0) demo_queue = Inl ValueError"
proof -
  have "set (queue_iter demo_queue) = {demo_waiting 1 5, demo_waiting 2 1}"
    using arg_cong [OF demo_queue_items, of set_mset] by simp
  then have "obj_id (demo_waiting 3 0) \<notin> obj_id ` set (queue_iter demo_queue)" by (simp add: demo_waiting_def)
  then show ?thesis using request_queue_contract [OF demo_queue_run, of "demo_waiting 3 0" demo_queue "[]"] by simp
qed

end
