(* ===== verification/Spec2Isabelle.thy ===== *)
theory Spec2Isabelle
  imports KVarN_Flush KVarN_Capacity KV_Safety Request_Queue
begin

text \<open>
  Verification of the KVarN KV-cache quantiser and of the KV-cache block management it runs in. The program is
  a Python serving engine; paths below are relative to \<^verbatim>\<open>src/vllm\<close>.

  \<^bold>\<open>Parts of the program and how they interact.\<close> A request carries its tokens and one hash per full block of
  tokens (\<^verbatim>\<open>v1/request.py\<close>, \<^verbatim>\<open>v1/core/kv_cache_utils.py\<close>). Waiting requests sit in a queue
  (\<^verbatim>\<open>v1/core/sched/request_queue.py\<close>). The block pool (\<^verbatim>\<open>v1/core/block_pool.py\<close>) hands out blocks of the KV cache from
  an intrusive free list, counts references, and finds blocks of earlier requests by hash. One manager per KV-cache group
  (\<^verbatim>\<open>v1/core/single_type_kv_cache_manager.py\<close>) keeps the block tables of the requests for its kind of attention; the coordinator
  (\<^verbatim>\<open>v1/core/kv_cache_coordinator.py\<close>) runs an operation on all groups; the KV-cache manager (\<^verbatim>\<open>v1/core/kv_cache_manager.py\<close>) is
  what the scheduler calls for lookup, allocation and release. For a KVarN cache each
  block is made of tiles of \<open>group\<close> tokens. The attention backend (\<^verbatim>\<open>v1/attention/backends/kvarn_attn.py\<close>) keeps the tile that is
  being filled in a pool of 16-bit slots and, when a tile is complete, flushes it: rotate by a Hadamard matrix,
  normalise the variances of rows and columns, quantise to a few bits, pack, and write one byte record per head into the
  cache; decoding reads the records back.

  \<^bold>\<open>Theories.\<close>

  \<^item> \<open>Prelude\<close>: exceptions as a sum type with its monad, loops that may raise, insertion-ordered dictionaries, slices.

  \<^item> \<open>KVarN_Config\<close>: \<^verbatim>\<open>model_executor/layers/quantization/kvarn/config.py\<close>, the page-size arithmetic of
    \<^verbatim>\<open>v1/kv_cache_interface.py\<close> and the KVarN part of \<^verbatim>\<open>platforms/cuda.py\<close>. The configuration is a record with the
    source's fields; offsets, record sizes, pool sizes and the caps on sequences are functions of it. Lemmas: the
    fields of a record tile it, the published page size is the size of the tensor, the cap on sequences is exact.

  \<^item> \<open>KVarN_Pack\<close>: the bit packers of \<^verbatim>\<open>v1/attention/ops/kvarn_store.py\<close> and \<^verbatim>\<open>kvarn_decode.py\<close> on 8-bit words. Lemmas: packing
    and unpacking are inverse for every supported width.

  \<^item> \<open>KVarN_Quant\<close>: variance normalisation (\<^verbatim>\<open>kvarn/sinkhorn.py\<close>), round to nearest and the tile stores and dequantisers, on
    exact reals; the cast to 16-bit floats and \<^verbatim>\<open>torch.quantile\<close> are arguments with their documented properties as
    hypotheses. Lemmas: normalisation is lossless and never grows the imbalance, the batched form equals the single one, store
    and dequantise lose at most half a step plus the rounding of the scales.

  \<^item> \<open>KVarN_Sinkhorn_Kernel\<close>: one program of the Triton kernel \<^verbatim>\<open>v1/attention/ops/triton_kvarn_sinkhorn.py\<close> and its driver;
    proved equal to the reference.

  \<^item> \<open>KVarN_Record\<close>: the byte record of a tile, both writers and the reader (\<^verbatim>\<open>kvarn_attn.py\<close>).

  \<^item> \<open>KVarN_Flush\<close>: the Hadamard matrix, the flush of a slot and the read-back of a block; the round trip over all of it.

  \<^item> \<open>KVarN_Tiles\<close>, \<open>KVarN_Build\<close>, \<open>KVarN_Capacity\<close>: the tile allocator that runs inside \<open>KVarNMetadataBuilder.build\<close>.
    \<open>KVarN_Tiles\<close> has the state as a record and one function per phase with its invariant; \<open>KVarN_Build\<close> composes the phases of
    a build step; \<open>KVarN_Capacity\<close> has the properties of steps and of reachable states, and when the pool is large enough.

  \<^item> \<open>Request\<close>: requests, their status and order, and \<^verbatim>\<open>v1/core/sched/utils.py\<close> (stop and repetition checks).

  \<^item> \<open>Block_Hashing\<close>: the hash part of \<^verbatim>\<open>v1/core/kv_cache_utils.py\<close>. The hash functions are arguments; injectivity on the
    inputs that occur is a hypothesis where it matters. Lemmas: hashing is incremental, equal hashes mean equal prefixes.

  \<^item> \<open>Free_Queue\<close>: \<open>KVCacheBlock\<close> and \<open>FreeKVCacheBlockQueue\<close> over an explicit store of blocks with two sentinels. The
    locale \<open>block_queue\<close> is what the pool uses of it; the queue refines a plain list.

  \<^item> \<open>KV_Metrics\<close>: \<^verbatim>\<open>v1/core/kv_cache_metrics.py\<close>; the clock and the random source are streams in the collector's record.

  \<^item> \<open>Block_Pool\<close>: \<^verbatim>\<open>v1/core/block_pool.py\<close>, every operation, with the events and metrics it emits; the locale \<open>block_index\<close> is the
    contract of the hash-to-block map. \<open>Pool_Invariant\<close> and \<open>Pool_Steps\<close> prove that every operation keeps the invariants
    of the index, the reference counts and the event balance; \<open>Pool_Runs\<close> defines runs of the pool as an inductive relation with
    a ghost log of what was cached for whom, and has the properties of all runs; \<open>Prefix_Cache\<close> combines them with
    \<open>Block_Hashing\<close>: a cache hit really is the same prefix.

  \<^item> \<open>Heap_Queue\<close>, \<open>Request_Queue\<close>: the binary heap of \<open>heapq\<close> over a comparison (locale \<open>comparison\<close>) and the two request
    queues, both instances of the contract \<open>waiting_queue\<close>.

  \<^item> \<open>Type_Manager\<close>, \<open>Cache_Hit\<close>, \<open>Coordinator\<close>, \<open>KV_Manager\<close>: the definitions of the managers, of their search for cached prefixes, of the
    coordinator classes and of the KV-cache manager. The state is a record per object; the pool is threaded through.

  \<^item> \<open>KV_Refs\<close>, \<open>Manager_Steps\<close>, \<open>Manager_Loops\<close>, \<open>Manager_Caching\<close>: the invariant of one manager over the pool (reference counts are
    uses, uncached blocks are private) and that every operation of a manager keeps it; the locale \<open>manager_loop\<close> is what a loop of
    the coordinator needs of its body, with one interpretation for each loop.

  \<^item> \<open>KV_Alloc\<close>, \<open>KV_Slots\<close>, \<open>KV_Runs\<close>: the prediction of the demand for blocks is enough, allocation keeps the invariant and never
    raises; runs of the KV-cache manager as an inductive relation over all its operations, with a ghost count of references that were
    handed out for a deferred release. \<open>KV_Safety\<close> has the properties of these runs.

  \<^bold>\<open>Modelling choices.\<close> A method that may raise returns \<open>Inl e\<close> or \<open>Inr\<close> of its result and the new state. Objects that are shared and
  mutated (KV-cache blocks) live in a store indexed by references, so aliasing is as in the program. Token ids are unbounded integers,
  bytes and packed codes are 8-bit words, halves are 16-bit words. Reals stand for the single-precision arithmetic of the quantiser.
  The order in which Python iterates over a set is an argument. No definition uses fuel: every loop is structural recursion or
  has a measure, except the two traversals of the linked free list, which are partial functions that are proved to return.

  \<^bold>\<open>Not modelled.\<close> The attention and decode kernels themselves (GPU code), the launch configuration, CUDA graphs and
  stream handling of the backend, its debug records; the model runner, worker and engine processes (I/O and device code); the
  scheduler, whose step is driven by the model runner's output; state-space (Mamba) groups, their partial tails and the lookup
  for connectors that they need; the encoder cache; memory profiling and the grouping of layers at start-up; logging. Floating-point rounding inside the quantiser is not modelled
  except for the stored scales.
\<close>

end
